(* ===== verification/NW_Prelude.thy ===== *)
theory NW_Prelude
  imports Main "HOL-Library.Word" "HOL-Library.Product_Lexorder"
begin

text \<open>
  Shared vocabulary of the development.

  \<^item> Errors: every failing branch of the C++ code is a value of \<open>error\<close>, and a fallible
    operation returns a \<open>'a result\<close> (a sum, \<open>Inl\<close> for the failure). \<open>rbind\<close> sequences
    two of them, \<open>c_assert\<close> is the \<open>assert\<close> macro of a debug build.
  \<^item> Machine integers: \<open>size_t\<close> arithmetic is written on \<open>nat\<close> with its wrap-around modulo
    \<open>2 ^ 64\<close> (\<open>uadd64\<close>, \<open>usub64\<close>); \<open>c_div\<close> and \<open>c_mod\<close> are the division and remainder
    of C++, which truncate towards zero; \<open>to_int32\<close> is the conversion to \<open>int\<close>.
  \<^item> Containers: \<open>std::set\<close> is a strictly sorted list (\<open>oset_insert\<close>, \<open>oset_erase\<close>,
    \<open>oset_below\<close>), \<open>std::copy\<close> into a vector is \<open>copy_into\<close> with its bounds written out.
  \<^item> Transition systems: the locale \<open>transition_system\<close> lifts a one-step invariant to every
    reachable state; each component with a step relation interprets it.
\<close>

named_theorems result_simps \<open>rules that take a successful result apart\<close>
named_theorems arith64 \<open>size_t arithmetic without wrap-around\<close>

section \<open>Errors and results\<close>

datatype error =
    AssertFailed        \<comment> \<open>an \<open>assert\<close> of a debug build\<close>
  | OutOfBounds         \<comment> \<open>an access outside an object: undefined behaviour\<close>
  | UseAfterFree        \<comment> \<open>a dereference of a dead or null pointer: undefined behaviour\<close>
  | LengthError         \<comment> \<open>\<open>std::length_error\<close> of a container that would grow too much\<close>
  | BadAlloc            \<comment> \<open>\<open>std::bad_alloc\<close> of a failing \<open>new\<close>\<close>
  | SignedOverflow      \<comment> \<open>signed arithmetic out of range: undefined behaviour\<close>
  | LogicError string   \<comment> \<open>\<open>std::logic_error\<close> with its message\<close>
  | Fatal               \<comment> \<open>\<open>LOG_FATAL\<close> and \<open>LOG_SYSFATAL\<close>: the process aborts\<close>

type_synonym 'a result = "error + 'a"

definition rbind :: "'a result \<Rightarrow> ('a \<Rightarrow> 'b result) \<Rightarrow> 'b result" where
  "rbind m f = (case m of Inl e \<Rightarrow> Inl e | Inr x \<Rightarrow> f x)"

definition c_assert :: "bool \<Rightarrow> 'a result \<Rightarrow> 'a result" where
  "c_assert p k = (if p then k else Inl AssertFailed)"

text \<open>
  \<open>int\<close> arithmetic: \<open>c_ints\<close> is given the value of every sum, difference and product it guards; one
  that does not fit is undefined behaviour.
\<close>

definition int32 :: "int \<Rightarrow> bool" where
  "int32 i \<longleftrightarrow> - (2 ^ 31) \<le> i \<and> i < 2 ^ 31"

definition c_ints :: "int list \<Rightarrow> 'a result \<Rightarrow> 'a result" where
  "c_ints es k = (if list_all int32 es then k else Inl SignedOverflow)"

definition isOK :: "'a result \<Rightarrow> bool" where
  "isOK m \<longleftrightarrow> (case m of Inl _ \<Rightarrow> False | Inr _ \<Rightarrow> True)"

primrec rfold :: "('a \<Rightarrow> 's \<Rightarrow> 's result) \<Rightarrow> 'a list \<Rightarrow> 's \<Rightarrow> 's result" where
  "rfold f [] s = Inr s"
| "rfold f (x # xs) s = rbind (f x s) (rfold f xs)"

section \<open>Machine integers\<close>

type_synonym byte = "8 word"

definition uadd64 :: "nat \<Rightarrow> nat \<Rightarrow> nat" where
  "uadd64 a b = (a + b) mod 2 ^ 64"

definition usub64 :: "nat \<Rightarrow> nat \<Rightarrow> nat" where
  "usub64 a b = (a + 2 ^ 64 - b) mod 2 ^ 64"

text \<open>C++ integer division and remainder truncate towards zero.\<close>

definition c_div :: "int \<Rightarrow> int \<Rightarrow> int" where
  "c_div a b = sgn a * sgn b * (\<bar>a\<bar> div \<bar>b\<bar>)"

definition c_mod :: "int \<Rightarrow> int \<Rightarrow> int" where
  "c_mod a b = a - c_div a b * b"

text \<open>\<open>static_cast<int>\<close> and the conversion of an \<open>int\<close> back to \<open>size_t\<close>.\<close>

definition to_int32 :: "nat \<Rightarrow> int" where
  "to_int32 n = (int n + 2 ^ 31) mod 2 ^ 32 - 2 ^ 31"

definition to_size_t :: "int \<Rightarrow> nat" where
  "to_size_t i = nat (i mod 2 ^ 64)"

section \<open>Containers\<close>

definition copy_into :: "'a list \<Rightarrow> nat \<Rightarrow> 'a list \<Rightarrow> 'a list result" where
  "copy_into dst pos src =
     (if pos + length src \<le> length dst
      then Inr (take pos dst @ src @ drop (pos + length src) dst)
      else Inl OutOfBounds)"

abbreviation strict_sorted :: "'a::linorder list \<Rightarrow> bool" where
  "strict_sorted xs \<equiv> sorted_wrt (<) xs"

text \<open>\<open>std::set\<close> as a strictly sorted list. \<open>insert\<close> also returns whether it took place.\<close>

definition oset_insert :: "'a::linorder \<Rightarrow> 'a list \<Rightarrow> 'a list \<times> bool" where
  "oset_insert x xs = (if x \<in> set xs then (xs, False) else (insort x xs, True))"

definition oset_erase :: "'a \<Rightarrow> 'a list \<Rightarrow> 'a list \<times> nat" where
  "oset_erase x xs = (if x \<in> set xs then (remove1 x xs, 1) else (xs, 0))"

text \<open>The elements before \<open>lower_bound(x)\<close>, and the elements from it on.\<close>

definition oset_below :: "'a::linorder \<Rightarrow> 'a list \<Rightarrow> 'a list" where
  "oset_below x xs = takeWhile (\<lambda>y. y < x) xs"

definition oset_from :: "'a::linorder \<Rightarrow> 'a list \<Rightarrow> 'a list" where
  "oset_from x xs = dropWhile (\<lambda>y. y < x) xs"

section \<open>Lemmas on results\<close>

lemma rbind_Inr [simp]: "rbind (Inr x) f = f x"
  by (simp add: rbind_def)

lemma rbind_Inl [simp]: "rbind (Inl e) f = Inl e"
  by (simp add: rbind_def)

lemma rbind_eq_Inr [result_simps]: "rbind m f = Inr y \<longleftrightarrow> (\<exists>x. m = Inr x \<and> f x = Inr y)"
  by (cases m) auto

lemma rbind_eq_Inl [result_simps]:
  "rbind m f = Inl e \<longleftrightarrow> m = Inl e \<or> (\<exists>x. m = Inr x \<and> f x = Inl e)"
  by (cases m) auto

lemma rbind_cong [fundef_cong]:
  "m = n \<Longrightarrow> (\<And>x. n = Inr x \<Longrightarrow> f x = g x) \<Longrightarrow> rbind m f = rbind n g"
  by (cases n) auto

lemma rbind_assoc: "rbind (rbind m f) g = rbind m (\<lambda>x. rbind (f x) g)"
  by (cases m) auto

lemma c_ints_fits: "list_all int32 es \<Longrightarrow> c_ints es k = k"
  by (simp add: c_ints_def)

lemma c_ints_cong: "es = es' \<Longrightarrow> (list_all int32 es' \<Longrightarrow> k = k') \<Longrightarrow> c_ints es k = c_ints es' k'"
  by (simp add: c_ints_def)

lemma c_assert_True [simp]: "c_assert True k = k"
  by (simp add: c_assert_def)

lemma c_assert_holds: "p \<Longrightarrow> c_assert p k = k"
  by (simp add: c_assert_def)

lemma c_assert_fails [simp]: "\<not> p \<Longrightarrow> c_assert p k = Inl AssertFailed"
  by (simp add: c_assert_def)

lemma c_assert_eq_Inr [result_simps]: "c_assert p k = Inr y \<longleftrightarrow> p \<and> k = Inr y"
  by (simp add: c_assert_def)

lemma c_assert_eq_Inl [result_simps]:
  "c_assert p k = Inl e \<longleftrightarrow> (p \<and> k = Inl e) \<or> (\<not> p \<and> e = AssertFailed)"
  by (auto simp: c_assert_def)

lemma isOK_simps [simp]: "isOK (Inr x)" "\<not> isOK (Inl e)"
  by (simp_all add: isOK_def)

lemma isOK_iff: "isOK m \<longleftrightarrow> (\<exists>x. m = Inr x)"
  by (cases m) auto

lemma rfold_append: "rfold f (xs @ ys) s = rbind (rfold f xs s) (rfold f ys)"
proof (induction xs arbitrary: s)
  case (Cons x xs)
  then have "rfold f (xs @ ys) = (\<lambda>t. rbind (rfold f xs t) (rfold f ys))" by (intro ext)
  then show ?case by (simp add: rbind_assoc)
qed simp

lemma rfold_invariant:
  assumes "\<And>x s s'. x \<in> set xs \<Longrightarrow> P s \<Longrightarrow> f x s = Inr s' \<Longrightarrow> P s'"
    and "P s" and "rfold f xs s = Inr s'"
  shows "P s'"
  using assms
proof (induction xs arbitrary: s)
  case (Cons x xs)
  from Cons.prems(3) obtain s1 where s1: "f x s = Inr s1" "rfold f xs s1 = Inr s'"
    by (auto simp: result_simps)
  from Cons.prems(1) [OF _ Cons.prems(2) s1(1)] have "P s1" by simp
  with Cons.IH [OF _ this s1(2)] Cons.prems(1) show ?case by auto
qed simp

section \<open>Lemmas on machine integers\<close>

lemma uadd64_exact [arith64]: "a + b < 2 ^ 64 \<Longrightarrow> uadd64 a b = a + b"
  by (simp add: uadd64_def)

lemma usub64_exact [arith64]: "b \<le> a \<Longrightarrow> a < 2 ^ 64 \<Longrightarrow> usub64 a b = a - b"
proof -
  assume "b \<le> a" "a < 2 ^ 64"
  then have "a + 2 ^ 64 - b = (a - b) + 2 ^ 64" and "a - b < 2 ^ 64" by linarith+
  then show ?thesis by (simp only: usub64_def mod_add_self2 mod_less)
qed

lemma to_int32_exact: "n < 2 ^ 31 \<Longrightarrow> to_int32 n = int n"
  by (simp add: to_int32_def)

lemma to_size_t_exact: "n < 2 ^ 64 \<Longrightarrow> to_size_t (int n) = n"
  by (simp add: to_size_t_def nat_mod_distrib)

lemma c_div_nonneg: "0 \<le> a \<Longrightarrow> 0 < b \<Longrightarrow> c_div a b = a div b"
  by (cases "a = 0") (simp_all add: c_div_def sgn_if)

lemma c_mod_nonneg: "0 \<le> a \<Longrightarrow> 0 < b \<Longrightarrow> c_mod a b = a mod b"
  by (simp add: c_mod_def c_div_nonneg minus_div_mult_eq_mod)

lemma c_div_neg: "a < 0 \<Longrightarrow> 0 < b \<Longrightarrow> c_div a b = - ((- a) div b)"
  by (simp add: c_div_def)

lemma c_mod_neg: "a < 0 \<Longrightarrow> 0 < b \<Longrightarrow> c_mod a b = - ((- a) mod b)"
  by (simp add: c_mod_def c_div_neg minus_mult_div_eq_mod [symmetric] algebra_simps)

section \<open>Lemmas on containers\<close>

lemma copy_into_ok:
  "pos + length src \<le> length dst \<Longrightarrow>
     copy_into dst pos src = Inr (take pos dst @ src @ drop (pos + length src) dst)"
  by (simp add: copy_into_def)

lemma oset_insert_sorted:
  "strict_sorted xs \<Longrightarrow> strict_sorted (fst (oset_insert x xs))"
  by (auto simp: oset_insert_def strict_sorted_iff sorted_insort distinct_insort)

lemma set_oset_insert [simp]: "set (fst (oset_insert x xs)) = insert x (set xs)"
  by (auto simp: oset_insert_def set_insort_key)

lemma length_oset_insert:
  "length (fst (oset_insert x xs)) = (if x \<in> set xs then length xs else Suc (length xs))"
  by (simp add: oset_insert_def)

lemma oset_erase_sorted:
  "strict_sorted xs \<Longrightarrow> strict_sorted (fst (oset_erase x xs))"
  by (auto simp: oset_erase_def strict_sorted_iff sorted_remove1)

lemma set_oset_erase:
  "strict_sorted xs \<Longrightarrow> set (fst (oset_erase x xs)) = set xs - {x}"
  by (auto simp: oset_erase_def strict_sorted_iff)

lemma oset_split: "oset_below x xs @ oset_from x xs = xs"
  by (simp add: oset_below_def oset_from_def)

lemma set_oset_below:
  "strict_sorted xs \<Longrightarrow> set (oset_below x xs) = {y. y \<in> set xs \<and> y < x}"
  unfolding oset_below_def
proof (induction xs)
  case (Cons a xs)
  then show ?case by (cases "a < x") (auto simp: set_eq_iff)
qed simp

lemma set_oset_from:
  "strict_sorted xs \<Longrightarrow> set (oset_from x xs) = {y \<in> set xs. x \<le> y}"
  unfolding oset_from_def
  by (induction xs) (auto simp: not_less dest: order.strict_trans2 order.strict_implies_order)

lemma oset_below_filter: "strict_sorted xs \<Longrightarrow> oset_below x xs = filter (\<lambda>y. y < x) xs"
  unfolding oset_below_def
proof (induction xs)
  case (Cons a xs)
  show ?case
  proof (cases "a < x")
    case False
    with Cons.prems have "\<forall>y \<in> set xs. \<not> y < x" by (auto simp: not_less)
    with False show ?thesis by simp
  qed (use Cons in simp)
qed simp

lemma oset_from_filter: "strict_sorted xs \<Longrightarrow> oset_from x xs = filter (\<lambda>y. \<not> y < x) xs"
  unfolding oset_from_def
proof (induction xs)
  case (Cons a xs)
  show ?case
  proof (cases "a < x")
    case False
    with Cons.prems have "\<forall>y \<in> set xs. \<not> y < x" by (auto simp: not_less)
    then have "filter (\<lambda>y. \<not> y < x) xs = xs" by (simp add: filter_id_conv)
    with False show ?thesis by simp
  qed (use Cons in simp)
qed simp

lemma oset_erase_filter:
  "distinct xs \<Longrightarrow> x \<in> set xs \<Longrightarrow> oset_erase x xs = (filter (\<lambda>y. y \<noteq> x) xs, 1)"
  by (auto simp: oset_erase_def distinct_remove1_removeAll removeAll_filter_not_eq intro: filter_cong)

section \<open>Transition systems\<close>

locale transition_system =
  fixes init :: "'s \<Rightarrow> bool" and step :: "'s \<Rightarrow> 's \<Rightarrow> bool" and inv :: "'s \<Rightarrow> bool"
  assumes init_inv: "init s \<Longrightarrow> inv s"
    and step_inv: "inv s \<Longrightarrow> step s t \<Longrightarrow> inv t"
begin

lemma steps_inv: "step\<^sup>*\<^sup>* s t \<Longrightarrow> inv s \<Longrightarrow> inv t"
  by (induction rule: rtranclp_induct) (auto intro: step_inv)

lemma reachable_inv: "init s \<Longrightarrow> step\<^sup>*\<^sup>* s t \<Longrightarrow> inv t"
  using init_inv steps_inv by blast

end

end
