(* ===== verification/NW_Channel.thy ===== *)
theory NW_Channel
  imports NW_Prelude "HOL-Library.Sublist"
begin

unbundle bit_operations_syntax

text \<open>
  \<^verbatim>\<open>networker/net/Channel.h\<close> and \<^verbatim>\<open>networker/net/Channel.cpp\<close>: the event mask of one
  file descriptor and the dispatch of the events a poller reports.

  \<open>events\<close> and \<open>revents\<close> are the 32-bit masks of the code. The four callbacks are opaque to
  the channel; what it decides is which of them run, and in which order
  (\<open>handleEventWithGuard\<close> folds the owner's \<open>invoke\<close> over \<open>dispatch\<close>). The call of
  \<open>update()\<close> into the loop is the caller's next step: \<open>Channel_set_events\<close> is the part of
  \<open>enableReading\<close> and its kin that changes the channel.
\<close>

section \<open>Event masks\<close>

definition POLLIN :: "32 word" where "POLLIN = 1"

definition POLLPRI :: "32 word" where "POLLPRI = 2"

definition POLLOUT :: "32 word" where "POLLOUT = 4"

definition POLLERR :: "32 word" where "POLLERR = 8"

definition POLLHUP :: "32 word" where "POLLHUP = 16"

definition POLLNVAL :: "32 word" where "POLLNVAL = 32"

definition POLLRDHUP :: "32 word" where "POLLRDHUP = 8192"

definition kNoneEvent :: "32 word" where "kNoneEvent = 0"

definition kReadEvent :: "32 word" where "kReadEvent = POLLIN OR POLLPRI"

definition kWriteEvent :: "32 word" where "kWriteEvent = POLLOUT"

definition has_bits :: "32 word \<Rightarrow> 32 word \<Rightarrow> bool" where
  "has_bits ev m \<longleftrightarrow> ev AND m \<noteq> 0"

section \<open>The channel\<close>

record Channel =
  fd :: int
  events :: "32 word"
  revents :: "32 word"
  index :: int
  logHup :: bool
  tied :: bool
  eventHandling :: bool
  addedToLoop :: bool

definition Channel_ctor :: "int \<Rightarrow> Channel" where
  "Channel_ctor n = \<lparr>fd = n, events = 0, revents = 0, index = - 1, logHup = True, tied = False,
     eventHandling = False, addedToLoop = False\<rparr>"

text \<open>The destructor's assertions; \<open>loop_has\<close> is \<open>loop_->hasChannel(this)\<close> in the loop thread.\<close>

definition Channel_dtor :: "bool \<Rightarrow> bool \<Rightarrow> Channel \<Rightarrow> unit result" where
  "Channel_dtor in_loop_thread loop_has ch =
     c_assert (\<not> eventHandling ch) (c_assert (\<not> addedToLoop ch) (
       if in_loop_thread then c_assert (\<not> loop_has) (Inr ()) else Inr ()))"

definition Channel_tie :: "Channel \<Rightarrow> Channel" where
  "Channel_tie ch = ch\<lparr>tied := True\<rparr>"

definition set_revents :: "32 word \<Rightarrow> Channel \<Rightarrow> Channel" where
  "set_revents revt ch = ch\<lparr>revents := revt\<rparr>"

definition isNoneEvent :: "Channel \<Rightarrow> bool" where
  "isNoneEvent ch \<longleftrightarrow> events ch = kNoneEvent"

definition isWriting :: "Channel \<Rightarrow> bool" where
  "isWriting ch \<longleftrightarrow> has_bits (events ch) kWriteEvent"

definition isReading :: "Channel \<Rightarrow> bool" where
  "isReading ch \<longleftrightarrow> has_bits (events ch) kReadEvent"

definition Channel_set_events :: "32 word \<Rightarrow> Channel \<Rightarrow> Channel" where
  "Channel_set_events ev ch = ch\<lparr>events := ev, addedToLoop := True\<rparr>"

definition enableReading :: "Channel \<Rightarrow> Channel" where
  "enableReading ch = Channel_set_events (events ch OR kReadEvent) ch"

definition disableReading :: "Channel \<Rightarrow> Channel" where
  "disableReading ch = Channel_set_events (events ch AND NOT kReadEvent) ch"

definition enableWriting :: "Channel \<Rightarrow> Channel" where
  "enableWriting ch = Channel_set_events (events ch OR kWriteEvent) ch"

definition disableWriting :: "Channel \<Rightarrow> Channel" where
  "disableWriting ch = Channel_set_events (events ch AND NOT kWriteEvent) ch"

definition disableAll :: "Channel \<Rightarrow> Channel" where
  "disableAll ch = Channel_set_events kNoneEvent ch"

definition Channel_remove :: "Channel \<Rightarrow> Channel result" where
  "Channel_remove ch = c_assert (isNoneEvent ch) (Inr (ch\<lparr>addedToLoop := False\<rparr>))"

section \<open>The thread check of the loop\<close>

text \<open>\<open>abortNotInLoopThread\<close> is a fatal log line.\<close>

definition assertInLoopThread :: "bool \<Rightarrow> 'a result \<Rightarrow> 'a result" where
  "assertInLoopThread isInLoopThread k = (if isInLoopThread then k else Inl Fatal)"

section \<open>Dispatch\<close>

datatype chan_cb = CloseCallback | ErrorCallback | ReadCallback | WriteCallback

text \<open>The conditions of \<open>handleEventWithGuard\<close>, in its order.\<close>

definition dispatch :: "32 word \<Rightarrow> chan_cb list" where
  "dispatch rv =
     (if has_bits rv POLLHUP \<and> \<not> has_bits rv POLLIN then [CloseCallback] else []) @
     (if has_bits rv (POLLERR OR POLLNVAL) then [ErrorCallback] else []) @
     (if has_bits rv (POLLIN OR POLLPRI OR POLLRDHUP) then [ReadCallback] else []) @
     (if has_bits rv POLLOUT then [WriteCallback] else [])"

text \<open>
  The owner's state holds the channel: \<open>get_ch\<close> and \<open>upd_ch\<close> reach it, \<open>is_set\<close> tells
  which callbacks were installed and \<open>invoke\<close> runs one of them.
\<close>

definition handleEventWithGuard ::
    "('s \<Rightarrow> Channel) \<Rightarrow> ((Channel \<Rightarrow> Channel) \<Rightarrow> 's \<Rightarrow> 's) \<Rightarrow> (chan_cb \<Rightarrow> bool) \<Rightarrow>
     (chan_cb \<Rightarrow> 's \<Rightarrow> 's result) \<Rightarrow> 's \<Rightarrow> 's result" where
  "handleEventWithGuard get_ch upd_ch is_set invoke s =
     rbind (rfold invoke (filter is_set (dispatch (revents (get_ch s))))
              (upd_ch (\<lambda>ch. ch\<lparr>eventHandling := True\<rparr>) s))
       (\<lambda>s'. Inr (upd_ch (\<lambda>ch. ch\<lparr>eventHandling := False\<rparr>) s'))"

text \<open>\<open>owner_alive\<close> is whether \<open>tie_.lock()\<close> yields an owner.\<close>

definition handleEvent ::
    "bool \<Rightarrow> ('s \<Rightarrow> Channel) \<Rightarrow> ((Channel \<Rightarrow> Channel) \<Rightarrow> 's \<Rightarrow> 's) \<Rightarrow> (chan_cb \<Rightarrow> bool) \<Rightarrow>
     (chan_cb \<Rightarrow> 's \<Rightarrow> 's result) \<Rightarrow> 's \<Rightarrow> 's result" where
  "handleEvent owner_alive get_ch upd_ch is_set invoke s =
     (if tied (get_ch s)
      then (if owner_alive then handleEventWithGuard get_ch upd_ch is_set invoke s else Inr s)
      else handleEventWithGuard get_ch upd_ch is_set invoke s)"

section \<open>Lemmas\<close>

lemmas poll_flags = POLLIN_def POLLPRI_def POLLOUT_def POLLERR_def POLLHUP_def POLLNVAL_def
  POLLRDHUP_def kNoneEvent_def kReadEvent_def kWriteEvent_def

lemmas channel_ops = enableReading_def disableReading_def enableWriting_def disableWriting_def
  disableAll_def Channel_set_events_def Channel_tie_def set_revents_def

lemma has_bits_or: "has_bits ev (m OR n) \<longleftrightarrow> has_bits ev m \<or> has_bits ev n"
  by (simp add: has_bits_def bit.conj_disj_distrib or_eq_0_iff)

lemma has_bits_pow2: "has_bits ev (2 ^ n) \<longleftrightarrow> bit ev n"
  by (simp add: has_bits_def bit_iff_and_push_bit_not_eq_0 push_bit_eq_mult and.commute)

lemma flags_pow2:
  "POLLIN = 2 ^ 0" "POLLPRI = 2 ^ 1" "POLLOUT = 2 ^ 2" "POLLERR = 2 ^ 3" "POLLHUP = 2 ^ 4"
  "POLLNVAL = 2 ^ 5" "POLLRDHUP = 2 ^ 13"
  by (simp_all add: poll_flags)

lemma has_flag_bit:
  "has_bits ev POLLIN \<longleftrightarrow> bit ev 0" "has_bits ev POLLPRI \<longleftrightarrow> bit ev 1"
  "has_bits ev POLLOUT \<longleftrightarrow> bit ev 2" "has_bits ev POLLERR \<longleftrightarrow> bit ev 3"
  "has_bits ev POLLHUP \<longleftrightarrow> bit ev 4" "has_bits ev POLLNVAL \<longleftrightarrow> bit ev 5"
  "has_bits ev POLLRDHUP \<longleftrightarrow> bit ev 13"
  by (simp_all only: flags_pow2 has_bits_pow2)

lemma bit_flags:
  "bit kReadEvent n \<longleftrightarrow> n = 0 \<or> n = 1" "bit kWriteEvent n \<longleftrightarrow> n = 2"
  unfolding kReadEvent_def kWriteEvent_def flags_pow2
  by (simp_all only: bit_or_iff bit_exp_iff possible_bit_word) auto

lemma isWriting_bit: "isWriting ch \<longleftrightarrow> bit (events ch) 2"
  by (simp add: isWriting_def kWriteEvent_def has_flag_bit)

lemma isReading_bit: "isReading ch \<longleftrightarrow> bit (events ch) 0 \<or> bit (events ch) 1"
  by (simp add: isReading_def kReadEvent_def has_bits_or has_flag_bit)

lemma bit_channel_ops:
  "n < 32 \<Longrightarrow> bit (events (enableReading ch)) n \<longleftrightarrow> bit (events ch) n \<or> n = 0 \<or> n = 1"
  "n < 32 \<Longrightarrow> bit (events (disableReading ch)) n \<longleftrightarrow> bit (events ch) n \<and> n \<noteq> 0 \<and> n \<noteq> 1"
  "n < 32 \<Longrightarrow> bit (events (enableWriting ch)) n \<longleftrightarrow> bit (events ch) n \<or> n = 2"
  "n < 32 \<Longrightarrow> bit (events (disableWriting ch)) n \<longleftrightarrow> bit (events ch) n \<and> n \<noteq> 2"
  by (auto simp: channel_ops bit_or_iff bit_and_iff bit_not_iff bit_flags possible_bit_word)

section \<open>Properties\<close>

text \<open>
  The mask operations of \<open>Channel\<close> act on one direction only: \<open>enableReading\<close> and
  \<open>disableReading\<close> decide \<open>isReading\<close> and leave \<open>isWriting\<close> alone, and the other way round;
  \<open>disableAll\<close> clears both, and \<open>remove\<close> succeeds exactly on a channel without events.
\<close>

lemma channel_masks:
  "isReading (enableReading ch) \<and> \<not> isReading (disableReading ch) \<and>
   isWriting (enableReading ch) = isWriting ch \<and> isWriting (disableReading ch) = isWriting ch \<and>
   isWriting (enableWriting ch) \<and> \<not> isWriting (disableWriting ch) \<and>
   isReading (enableWriting ch) = isReading ch \<and> isReading (disableWriting ch) = isReading ch \<and>
   isNoneEvent (disableAll ch) \<and> (isOK (Channel_remove ch) \<longleftrightarrow> isNoneEvent ch)"
  by (auto simp: isReading_bit isWriting_bit bit_channel_ops)
    (auto simp: disableAll_def Channel_set_events_def isNoneEvent_def Channel_remove_def isOK_iff result_simps)

text \<open>
  A tied channel whose owner is gone runs no callback at all; otherwise the callbacks
  that are installed run in the order close, error, read, write, and the close callback runs
  exactly on a hang-up without readable data.
\<close>

lemma dispatch_order:
  "handleEvent alive get_ch upd_ch is_set invoke s =
     (if tied (get_ch s) \<and> \<not> alive then Inr s else handleEventWithGuard get_ch upd_ch is_set invoke s) \<and>
   subseq (dispatch rv) [CloseCallback, ErrorCallback, ReadCallback, WriteCallback] \<and>
   (CloseCallback \<in> set (dispatch rv) \<longleftrightarrow> bit rv 4 \<and> \<not> bit rv 0) \<and>
   (ErrorCallback \<in> set (dispatch rv) \<longleftrightarrow> bit rv 3 \<or> bit rv 5) \<and>
   (ReadCallback \<in> set (dispatch rv) \<longleftrightarrow> bit rv 0 \<or> bit rv 1 \<or> bit rv 13) \<and>
   (WriteCallback \<in> set (dispatch rv) \<longleftrightarrow> bit rv 2)"
  by (auto simp: handleEvent_def dispatch_def has_bits_or has_flag_bit)

end
