(* ===== verification/NW_Poller.thy ===== *)
theory NW_Poller
  imports NW_Channel
begin

unbundle bit_operations_syntax

text \<open>
  \<^verbatim>\<open>networker/net/Poller.h\<close>, \<^verbatim>\<open>networker/net/poller/EPollPoller.cpp\<close> and
  \<^verbatim>\<open>networker/net/poller/PollPoller.cpp\<close>: the two implementations of I/O multiplexing.

  A \<open>Channel*\<close> is a number, and \<open>chans\<close> the store of the channels' fields, so that a poller
  that changes the index of another channel (\<open>PollPoller::removeChannel\<close>) is modelled as such.
  The epoll instance of the kernel is a parameter: \<open>ectl\<close> is \<open>epoll_ctl\<close> on an abstract kernel
  state. What the code relies on (adding an absent descriptor and changing or deleting a
  present one succeed) is the locale \<open>epoll_kernel\<close>; \<open>ref_epoll_ctl\<close> is an instance.

  The locale \<open>poller\<close> is the contract of \<open>Poller\<close>: \<open>watched\<close> is the set of descriptors the
  poller asks the kernel about. Both implementations provide it, \<open>EPollPoller\<close> over every kernel
  that keeps \<open>epoll_ctl\<close>'s documentation.
\<close>

type_synonym chan_id = nat
type_synonym watch_set = "int \<Rightarrow> (32 word \<times> chan_id) option"

section \<open>EPollPoller\<close>

definition kNew :: int where "kNew = - 1"

definition kAdded :: int where "kAdded = 1"

definition kDeleted :: int where "kDeleted = 2"

definition kInitEventListSize :: nat where "kInitEventListSize = 26"

datatype epoll_op = EPOLL_CTL_ADD | EPOLL_CTL_DEL | EPOLL_CTL_MOD

primrec operationToString :: "epoll_op \<Rightarrow> string" where
  "operationToString EPOLL_CTL_ADD = ''ADD''"
| "operationToString EPOLL_CTL_DEL = ''DEL''"
| "operationToString EPOLL_CTL_MOD = ''MOD''"

type_synonym 'k epoll_ctl = "'k \<Rightarrow> epoll_op \<Rightarrow> int \<Rightarrow> 32 word \<times> chan_id \<Rightarrow> int \<times> 'k"

record 'k ep_state =
  ep_chans :: "chan_id \<Rightarrow> Channel"
  ep_channels :: "int \<Rightarrow> chan_id option"
  ep_events_size :: nat
  ep_kern :: 'k

definition ep_upd_chan :: "chan_id \<Rightarrow> (Channel \<Rightarrow> Channel) \<Rightarrow> 'k ep_state \<Rightarrow> 'k ep_state" where
  "ep_upd_chan c f s = s\<lparr>ep_chans := (ep_chans s)(c := f (ep_chans s c))\<rparr>"

definition ep_update :: "'k epoll_ctl \<Rightarrow> epoll_op \<Rightarrow> chan_id \<Rightarrow> 'k ep_state \<Rightarrow> 'k ep_state result" where
  "ep_update ectl op c s =
     (let ch = ep_chans s c; (ret, k) = ectl (ep_kern s) op (fd ch) (events ch, c);
          s' = s\<lparr>ep_kern := k\<rparr>
      in if ret < 0 then (if op = EPOLL_CTL_DEL then Inr s' else Inl Fatal) else Inr s')"

definition ep_updateChannel :: "'k epoll_ctl \<Rightarrow> chan_id \<Rightarrow> 'k ep_state \<Rightarrow> 'k ep_state result" where
  "ep_updateChannel ectl c s =
     (let ch = ep_chans s c; idx = index ch; n = fd ch in
      if idx = kNew \<or> idx = kDeleted
      then (let add = (\<lambda>s1. ep_update ectl EPOLL_CTL_ADD c
                              (ep_upd_chan c (\<lambda>ch. ch\<lparr>index := kAdded\<rparr>) s1))
            in if idx = kNew
               then c_assert (ep_channels s n = None)
                      (add (s\<lparr>ep_channels := (ep_channels s)(n \<mapsto> c)\<rparr>))
               else c_assert (ep_channels s n \<noteq> None) (c_assert (ep_channels s n = Some c) (add s)))
      else c_assert (ep_channels s n \<noteq> None) (c_assert (ep_channels s n = Some c) (
           c_assert (idx = kAdded) (
             if isNoneEvent ch
             then rbind (ep_update ectl EPOLL_CTL_DEL c s)
                    (\<lambda>s1. Inr (ep_upd_chan c (\<lambda>ch. ch\<lparr>index := kDeleted\<rparr>) s1))
             else ep_update ectl EPOLL_CTL_MOD c s))))"

definition ep_removeChannel :: "'k epoll_ctl \<Rightarrow> chan_id \<Rightarrow> 'k ep_state \<Rightarrow> 'k ep_state result" where
  "ep_removeChannel ectl c s =
     (let ch = ep_chans s c; n = fd ch; idx = index ch in
      c_assert (ep_channels s n \<noteq> None) (c_assert (ep_channels s n = Some c) (
      c_assert (isNoneEvent ch) (c_assert (idx = kAdded \<or> idx = kDeleted) (
        rbind (let s1 = s\<lparr>ep_channels := (ep_channels s)(n := None)\<rparr>
               in if idx = kAdded then ep_update ectl EPOLL_CTL_DEL c s1 else Inr s1)
          (\<lambda>s2. Inr (ep_upd_chan c (\<lambda>ch. ch\<lparr>index := kNew\<rparr>) s2)))))))"

definition ep_hasChannel :: "'k ep_state \<Rightarrow> chan_id \<Rightarrow> bool" where
  "ep_hasChannel s c \<longleftrightarrow> ep_channels s (fd (ep_chans s c)) = Some c"

text \<open>\<open>fillActiveChannels\<close> over the events the kernel reported (\<open>data.ptr\<close>, \<open>events\<close>).\<close>

fun ep_fillActiveChannels ::
    "(chan_id \<times> 32 word) list \<Rightarrow> 'k ep_state \<Rightarrow> (chan_id list \<times> 'k ep_state) result" where
  "ep_fillActiveChannels [] s = Inr ([], s)"
| "ep_fillActiveChannels ((c, ev) # es) s =
     c_assert (ep_channels s (fd (ep_chans s c)) \<noteq> None) (
     c_assert (ep_channels s (fd (ep_chans s c)) = Some c) (
       rbind (ep_fillActiveChannels es (ep_upd_chan c (set_revents ev) s))
         (\<lambda>(cs, s'). Inr (c # cs, s'))))"

text \<open>The outcome of \<open>epoll_wait\<close> or \<open>poll\<close>: an \<open>errno\<close>, or the ready events.\<close>

datatype 'e wait_result = WaitErr int | WaitOk "'e list"

definition ep_poll ::
    "(chan_id \<times> 32 word) wait_result \<Rightarrow> 'k ep_state \<Rightarrow> (chan_id list \<times> 'k ep_state) result" where
  "ep_poll wr s =
     (case wr of
        WaitErr e \<Rightarrow> Inr ([], s)
      | WaitOk es \<Rightarrow>
          if 0 < length es
          then c_assert (length es \<le> ep_events_size s) (
                 rbind (ep_fillActiveChannels es s) (\<lambda>(cs, s').
                   Inr (cs, if length es = ep_events_size s'
                            then s'\<lparr>ep_events_size := ep_events_size s' * 2\<rparr> else s')))
          else Inr ([], s))"

definition ep_set_events ::
    "'k epoll_ctl \<Rightarrow> 32 word \<Rightarrow> chan_id \<Rightarrow> 'k ep_state \<Rightarrow> 'k ep_state result" where
  "ep_set_events ectl ev c s = ep_updateChannel ectl c (ep_upd_chan c (Channel_set_events ev) s)"

definition ep_remove :: "'k epoll_ctl \<Rightarrow> chan_id \<Rightarrow> 'k ep_state \<Rightarrow> 'k ep_state result" where
  "ep_remove ectl c s =
     rbind (Channel_remove (ep_chans s c)) (\<lambda>ch. ep_removeChannel ectl c (ep_upd_chan c (\<lambda>_. ch) s))"

section \<open>PollPoller\<close>

record pollfd =
  pfd_fd :: int
  pfd_events :: "16 word"
  pfd_revents :: "16 word"

record pp_state =
  pp_chans :: "chan_id \<Rightarrow> Channel"
  pp_channels :: "int \<Rightarrow> chan_id option"
  pollfds :: "pollfd list"

definition pp_upd_chan :: "chan_id \<Rightarrow> (Channel \<Rightarrow> Channel) \<Rightarrow> pp_state \<Rightarrow> pp_state" where
  "pp_upd_chan c f s = s\<lparr>pp_chans := (pp_chans s)(c := f (pp_chans s c))\<rparr>"

definition pp_updateChannel :: "chan_id \<Rightarrow> pp_state \<Rightarrow> pp_state result" where
  "pp_updateChannel c s =
     (let ch = pp_chans s c in
      if index ch < 0
      then c_assert (pp_channels s (fd ch) = None) (
        let fds = pollfds s @ [\<lparr>pfd_fd = fd ch, pfd_events = ucast (events ch), pfd_revents = 0\<rparr>];
            idx = int (length fds) - 1
        in Inr (pp_upd_chan c (\<lambda>ch. ch\<lparr>index := idx\<rparr>)
                  (s\<lparr>pollfds := fds, pp_channels := (pp_channels s)(fd ch \<mapsto> c)\<rparr>)))
      else
        let idx = index ch in
        c_assert (pp_channels s (fd ch) \<noteq> None) (c_assert (pp_channels s (fd ch) = Some c) (
        c_assert (0 \<le> idx \<and> idx < int (length (pollfds s))) (
        let pfd = pollfds s ! nat idx in
        c_assert (pfd_fd pfd = fd ch \<or> pfd_fd pfd = - fd ch - 1) (
          Inr (s\<lparr>pollfds := (pollfds s)[nat idx :=
                  \<lparr>pfd_fd = (if isNoneEvent ch then - fd ch - 1 else fd ch),
                   pfd_events = ucast (events ch), pfd_revents = 0\<rparr>]\<rparr>))))))"

definition pp_removeChannel :: "chan_id \<Rightarrow> pp_state \<Rightarrow> pp_state result" where
  "pp_removeChannel c s =
     (let ch = pp_chans s c; idx = index ch in
      c_assert (pp_channels s (fd ch) \<noteq> None) (c_assert (pp_channels s (fd ch) = Some c) (
      c_assert (isNoneEvent ch) (
      c_assert (0 \<le> idx \<and> idx < int (length (pollfds s))) (
      let pfd = pollfds s ! nat idx in
      c_assert (pfd_fd pfd = - fd ch - 1 \<and> scast (pfd_events pfd) = events ch) (
      let s1 = s\<lparr>pp_channels := (pp_channels s)(fd ch := None)\<rparr> in
      if nat idx = length (pollfds s) - 1
      then Inr (s1\<lparr>pollfds := butlast (pollfds s)\<rparr>)
      else
        let back = pfd_fd (last (pollfds s));
            channelAtEnd = (if back < 0 then - back - 1 else back);
            swapped = (pollfds s)[nat idx := last (pollfds s), length (pollfds s) - 1 := pfd]
        in case pp_channels s1 channelAtEnd of
             None \<Rightarrow> Inl UseAfterFree
           | Some d \<Rightarrow> Inr (pp_upd_chan d (\<lambda>ch. ch\<lparr>index := idx\<rparr>) (s1\<lparr>pollfds := butlast swapped\<rparr>))))))))"

definition pp_hasChannel :: "pp_state \<Rightarrow> chan_id \<Rightarrow> bool" where
  "pp_hasChannel s c \<longleftrightarrow> pp_channels s (fd (pp_chans s c)) = Some c"

text \<open>\<open>fillActiveChannels\<close>: the loop over \<open>pollfds_\<close> that stops after \<open>numEvents\<close> hits.\<close>

fun pp_fillActiveChannels :: "pollfd list \<Rightarrow> nat \<Rightarrow> pp_state \<Rightarrow> chan_id list result" where
  "pp_fillActiveChannels [] n s = Inr []"
| "pp_fillActiveChannels (pfd # pfds) n s =
     (if n = 0 then Inr []
      else if sint (pfd_revents pfd) > 0
      then (case pp_channels s (pfd_fd pfd) of
              None \<Rightarrow> Inl AssertFailed
            | Some c \<Rightarrow> c_assert (fd (pp_chans s c) = pfd_fd pfd) (
                rbind (pp_fillActiveChannels pfds (n - 1) s) (\<lambda>cs. Inr (c # cs))))
      else pp_fillActiveChannels pfds n s)"

text \<open>\<open>poll(2)\<close> stores one \<open>revents\<close> per entry; the result counts the entries it set.\<close>

definition pp_poll :: "16 word wait_result \<Rightarrow> pp_state \<Rightarrow> (chan_id list \<times> pp_state) result" where
  "pp_poll wr s =
     (case wr of
        WaitErr e \<Rightarrow> Inr ([], s)
      | WaitOk rs \<Rightarrow>
          let fds = map2 (\<lambda>pfd r. pfd\<lparr>pfd_revents := r\<rparr>) (pollfds s) rs;
              s' = s\<lparr>pollfds := fds\<rparr>; n = length (filter (\<lambda>r. r \<noteq> 0) rs)
          in if 0 < n then rbind (pp_fillActiveChannels fds n s') (\<lambda>cs. Inr (cs, s')) else Inr ([], s'))"

definition pp_set_events :: "32 word \<Rightarrow> chan_id \<Rightarrow> pp_state \<Rightarrow> pp_state result" where
  "pp_set_events ev c s = pp_updateChannel c (pp_upd_chan c (Channel_set_events ev) s)"

definition pp_remove :: "chan_id \<Rightarrow> pp_state \<Rightarrow> pp_state result" where
  "pp_remove c s =
     rbind (Channel_remove (pp_chans s c)) (\<lambda>ch. pp_removeChannel c (pp_upd_chan c (\<lambda>_. ch) s))"

section \<open>Invariants and views\<close>

definition ep_fresh :: "'k ep_state \<Rightarrow> chan_id \<Rightarrow> bool" where
  "ep_fresh s c \<longleftrightarrow> index (ep_chans s c) = kNew \<and> ep_channels s (fd (ep_chans s c)) = None"

definition ep_view :: "'k ep_state \<Rightarrow> watch_set" where
  "ep_view s n =
     (case ep_channels s n of
        None \<Rightarrow> None
      | Some c \<Rightarrow> if index (ep_chans s c) = kAdded then Some (events (ep_chans s c), c) else None)"

definition ep_wf :: "'k ep_state \<Rightarrow> bool" where
  "ep_wf s \<longleftrightarrow>
     (\<forall>n c. ep_channels s n = Some c \<longrightarrow>
        fd (ep_chans s c) = n \<and> index (ep_chans s c) \<in> {kAdded, kDeleted}) \<and>
     (\<forall>c. index (ep_chans s c) \<noteq> kNew \<longrightarrow> ep_channels s (fd (ep_chans s c)) = Some c)"

definition ep_inv :: "('k \<Rightarrow> watch_set) \<Rightarrow> 'k ep_state \<Rightarrow> bool" where
  "ep_inv interest s \<longleftrightarrow> ep_wf s \<and> interest (ep_kern s) = ep_view s"

definition pp_fresh :: "pp_state \<Rightarrow> chan_id \<Rightarrow> bool" where
  "pp_fresh s c \<longleftrightarrow> index (pp_chans s c) < 0 \<and> 0 \<le> fd (pp_chans s c) \<and>
     pp_channels s (fd (pp_chans s c)) = None"

text \<open>The descriptor an entry is about: a negated entry is ignored by \<open>poll(2)\<close>.\<close>

definition pfd_target :: "pollfd \<Rightarrow> int" where
  "pfd_target pfd = (if pfd_fd pfd < 0 then - pfd_fd pfd - 1 else pfd_fd pfd)"

definition pp_slot :: "pp_state \<Rightarrow> chan_id \<Rightarrow> pollfd" where
  "pp_slot s c = pollfds s ! nat (index (pp_chans s c))"

definition pp_view :: "pp_state \<Rightarrow> watch_set" where
  "pp_view s n =
     (case pp_channels s n of
        None \<Rightarrow> None
      | Some c \<Rightarrow> if pfd_fd (pp_slot s c) = n then Some (events (pp_chans s c), c) else None)"

definition pp_chan_ok :: "pp_state \<Rightarrow> int \<Rightarrow> chan_id \<Rightarrow> bool" where
  "pp_chan_ok s n c \<longleftrightarrow> fd (pp_chans s c) = n \<and> 0 \<le> n \<and> 0 \<le> index (pp_chans s c) \<and>
     index (pp_chans s c) < int (length (pollfds s)) \<and> pfd_target (pp_slot s c) = n \<and>
     pfd_events (pp_slot s c) = ucast (events (pp_chans s c))"

definition pp_inv :: "pp_state \<Rightarrow> bool" where
  "pp_inv s \<longleftrightarrow>
     (\<forall>n c. pp_channels s n = Some c \<longrightarrow> pp_chan_ok s n c) \<and>
     (\<forall>i < length (pollfds s). \<exists>c. pp_channels s (pfd_target (pollfds s ! i)) = Some c \<and>
        index (pp_chans s c) = int i)"

text \<open>The entry of a channel in an \<open>EPollPoller\<close>'s interest list after one more mask.\<close>

fun mask_step :: "32 word option \<Rightarrow> 32 word \<Rightarrow> 32 word option" where
  "mask_step None ev = Some ev"
| "mask_step (Some m) ev = (if ev = 0 then None else Some ev)"

text \<open>A reference instance of \<open>epoll_ctl\<close>, after its manual page: \<open>EEXIST\<close> and \<open>ENOENT\<close> fail.\<close>

fun ref_epoll_ctl :: "watch_set epoll_ctl" where
  "ref_epoll_ctl k EPOLL_CTL_ADD n e = (if k n = None then (0, k(n \<mapsto> e)) else (- 1, k))"
| "ref_epoll_ctl k EPOLL_CTL_MOD n e = (if k n = None then (- 1, k) else (0, k(n \<mapsto> e)))"
| "ref_epoll_ctl k EPOLL_CTL_DEL n e = (if k n = None then (- 1, k) else (0, k(n := None)))"

section \<open>The contract of a poller\<close>

locale poller =
  fixes inv :: "'s \<Rightarrow> bool" and chan :: "'s \<Rightarrow> chan_id \<Rightarrow> Channel" and has :: "'s \<Rightarrow> chan_id \<Rightarrow> bool"
    and fresh :: "'s \<Rightarrow> chan_id \<Rightarrow> bool" and watched :: "'s \<Rightarrow> watch_set"
    and set_events :: "32 word \<Rightarrow> chan_id \<Rightarrow> 's \<Rightarrow> 's result" and remove :: "chan_id \<Rightarrow> 's \<Rightarrow> 's result"
  assumes watch:
      "inv s \<Longrightarrow> fresh s c \<or> has s c \<Longrightarrow> ev \<noteq> 0 \<Longrightarrow>
         \<exists>s'. set_events ev c s = Inr s' \<and> inv s' \<and> has s' = (has s)(c := True) \<and>
           fd (chan s' c) = fd (chan s c) \<and> events (chan s' c) = ev \<and>
           watched s' = (watched s)(fd (chan s c) \<mapsto> (ev, c))"
    and unwatch:
      "inv s \<Longrightarrow> has s c \<Longrightarrow> watched s (fd (chan s c)) \<noteq> None \<Longrightarrow>
         \<exists>s'. set_events 0 c s = Inr s' \<and> inv s' \<and> has s' = has s \<and>
           fd (chan s' c) = fd (chan s c) \<and> events (chan s' c) = 0 \<and>
           watched s' = (watched s)(fd (chan s c) := None)"
    and remove:
      "inv s \<Longrightarrow> has s c \<Longrightarrow> watched s (fd (chan s c)) = None \<Longrightarrow> events (chan s c) = 0 \<Longrightarrow>
         \<exists>s'. remove c s = Inr s' \<and> inv s' \<and> has s' = (has s)(c := False) \<and> watched s' = watched s"
    and fresh_unwatched: "inv s \<Longrightarrow> fresh s c \<Longrightarrow> watched s (fd (chan s c)) = None \<and> \<not> has s c"
begin

text \<open>Any number of mask changes, none of them empty, on a channel that is new or known.\<close>

lemma watch_many:
  assumes "inv s" and "fresh s c \<or> has s c" and "\<forall>ev \<in> set evs. ev \<noteq> 0" and "evs \<noteq> []"
  shows "\<exists>s'. rfold (\<lambda>ev. set_events ev c) evs s = Inr s' \<and> inv s' \<and> has s' = (has s)(c := True) \<and>
    fd (chan s' c) = fd (chan s c) \<and> watched s' = (watched s)(fd (chan s c) \<mapsto> (last evs, c))"
  using assms
proof (induction evs arbitrary: s)
  case (Cons ev evs)
  from Cons.prems watch [of s c ev] obtain s1
    where s1: "set_events ev c s = Inr s1" "inv s1" "has s1 = (has s)(c := True)"
      "fd (chan s1 c) = fd (chan s c)" "watched s1 = (watched s)(fd (chan s c) \<mapsto> (ev, c))" by auto
  show ?case
  proof (cases "evs = []")
    case True
    with s1 show ?thesis by (simp del: fun_upd_apply)
  next
    case False
    have "has s1 c" by (simp add: s1(3))
    then have "fresh s1 c \<or> has s1 c" and "\<forall>ev\<in>set evs. ev \<noteq> 0"
      using Cons.prems(3) by simp_all
    from Cons.IH [OF s1(2) this False] obtain s2
      where "rfold (\<lambda>ev. set_events ev c) evs s1 = Inr s2 \<and> inv s2 \<and> has s2 = (has s1)(c := True) \<and>
        fd (chan s2 c) = fd (chan s1 c) \<and> watched s2 = (watched s1)(fd (chan s1 c) \<mapsto> (last evs, c))"
      by blast
    with s1 False show ?thesis by (simp del: fun_upd_apply)
  qed
qed simp

text \<open>
  The life of a registration: mask changes, \<open>disableAll\<close>, \<open>remove\<close>. It never fails, and it
  leaves the watched set as it found it.
\<close>

lemma lifecycle_inv:
  assumes "inv s" and "fresh s c" and "\<forall>ev \<in> set evs. ev \<noteq> 0" and "evs \<noteq> []"
  shows "\<exists>s1 s2 s3. rfold (\<lambda>ev. set_events ev c) evs s = Inr s1 \<and> inv s1 \<and>
    watched s1 = (watched s)(fd (chan s c) \<mapsto> (last evs, c)) \<and> set_events 0 c s1 = Inr s2 \<and> inv s2 \<and>
    has s2 c \<and> remove c s2 = Inr s3 \<and> inv s3 \<and> watched s3 = watched s \<and> has s3 = has s"
proof -
  from watch_many [OF assms(1) _ assms(3,4)] assms(2) obtain s1
    where s1: "rfold (\<lambda>ev. set_events ev c) evs s = Inr s1" "inv s1" "has s1 = (has s)(c := True)"
      "fd (chan s1 c) = fd (chan s c)" "watched s1 = (watched s)(fd (chan s c) \<mapsto> (last evs, c))" by blast
  from unwatch [of s1 c] s1 obtain s2
    where s2: "set_events 0 c s1 = Inr s2" "inv s2" "has s2 = has s1" "fd (chan s2 c) = fd (chan s c)"
      "events (chan s2 c) = 0" "watched s2 = (watched s1)(fd (chan s c) := None)" by auto
  from remove [of s2 c] s1 s2 obtain s3
    where s3: "remove c s2 = Inr s3" "inv s3" "has s3 = (has s2)(c := False)" "watched s3 = watched s2"
    by auto
  have "watched s3 = watched s" and "has s3 = has s"
    using fresh_unwatched [OF assms(1,2)] s1 s2 s3 by (auto simp: fun_upd_idem)
  moreover have "has s2 c" using s1 s2 by simp
  ultimately show ?thesis using s1 s2 s3 by blast
qed

end

section \<open>EPollPoller keeps the contract\<close>

text \<open>What \<^verbatim>\<open>epoll_ctl(2)\<close> documents of an epoll instance with the interest list \<open>interest\<close>.\<close>

locale epoll_kernel =
  fixes ectl :: "'k epoll_ctl" and interest :: "'k \<Rightarrow> watch_set"
  assumes ctl_add:
      "interest k n = None \<Longrightarrow>
         \<exists>k'. ectl k EPOLL_CTL_ADD n e = (0, k') \<and> interest k' = (interest k)(n \<mapsto> e)"
    and ctl_mod:
      "interest k n \<noteq> None \<Longrightarrow>
         \<exists>k'. ectl k EPOLL_CTL_MOD n e = (0, k') \<and> interest k' = (interest k)(n \<mapsto> e)"
    and ctl_del:
      "interest k n \<noteq> None \<Longrightarrow>
         \<exists>k'. ectl k EPOLL_CTL_DEL n e = (0, k') \<and> interest k' = (interest k)(n := None)"
begin

lemma update_ok:
  assumes "op = EPOLL_CTL_ADD \<longleftrightarrow> interest (ep_kern s) (fd (ep_chans s c)) = None"
  shows "\<exists>k'. ep_update ectl op c s = Inr (s\<lparr>ep_kern := k'\<rparr>) \<and>
    interest k' = (interest (ep_kern s))(fd (ep_chans s c) :=
      (if op = EPOLL_CTL_DEL then None else Some (events (ep_chans s c), c)))"
  using assms ctl_add [of "ep_kern s" "fd (ep_chans s c)" "(events (ep_chans s c), c)"]
    ctl_mod [of "ep_kern s" "fd (ep_chans s c)" "(events (ep_chans s c), c)"]
    ctl_del [of "ep_kern s" "fd (ep_chans s c)" "(events (ep_chans s c), c)"]
  by (cases op) (auto simp: ep_update_def)

end

interpretation ref_kernel: epoll_kernel ref_epoll_ctl "\<lambda>k. k"
  by unfold_locales auto

lemmas ep_index_defs = kNew_def kAdded_def kDeleted_def

lemmas ep_simps = ep_upd_chan_def Channel_set_events_def isNoneEvent_def kNoneEvent_def Let_def


lemma set_index_idem: "index ch = i \<Longrightarrow> ch\<lparr>events := e, addedToLoop := b, index := i\<rparr> = ch\<lparr>events := e, addedToLoop := b\<rparr>"
  by (cases ch) simp

text \<open>Every operation replaces the entry of one channel; this is its effect on the three views.\<close>

lemma ep_entry:
  assumes wf: "ep_wf s" and slot: "ep_channels s (fd (ep_chans s c)) \<in> {None, Some c}"
    and t: "ep_channels t = (ep_channels s)(fd (ep_chans s c) := (if index ch = kNew then None else Some c))"
      "ep_chans t = (ep_chans s)(c := ch)"
    and ch: "fd ch = fd (ep_chans s c)" "index ch \<in> {kNew, kAdded, kDeleted}"
  shows "ep_wf t" and "ep_hasChannel t = (ep_hasChannel s)(c := (index ch \<noteq> kNew))"
    and "ep_view t = (ep_view s)(fd (ep_chans s c) :=
      (if index ch = kAdded then Some (events ch, c) else None))"
proof -
  have known: "fd (ep_chans s d) = n \<and> (index (ep_chans s d) = kAdded \<or> index (ep_chans s d) = kDeleted)"
    if "ep_channels s n = Some d" for n d
    using wf that by (auto simp: ep_wf_def)
  have regd: "ep_channels s (fd (ep_chans s d)) = Some d" if "index (ep_chans s d) \<noteq> kNew" for d
    using wf that by (auto simp: ep_wf_def)
  have new: "kAdded \<noteq> kNew" "kDeleted \<noteq> kNew" by (simp_all add: ep_index_defs)
  show "ep_wf t"
    unfolding ep_wf_def
  proof (intro conjI allI impI)
    fix n d assume a: "ep_channels t n = Some d"
    show "fd (ep_chans t d) = n" and "index (ep_chans t d) \<in> {kAdded, kDeleted}"
      using a t ch slot known [of n d] by (auto split: if_splits)
  next
    fix d assume a: "index (ep_chans t d) \<noteq> kNew"
    show "ep_channels t (fd (ep_chans t d)) = Some d"
    proof (cases "d = c")
      case False
      then have "ep_channels s (fd (ep_chans s d)) = Some d" using a t by (simp add: regd)
      then show ?thesis using False t slot by auto
    qed (use a t ch in auto)
  qed
  show "ep_hasChannel t = (ep_hasChannel s)(c := (index ch \<noteq> kNew))"
  proof
    fix d
    show "ep_hasChannel t d = ((ep_hasChannel s)(c := (index ch \<noteq> kNew))) d"
      using t ch slot by (cases "d = c") (auto simp: ep_hasChannel_def)
  qed
  show "ep_view t = (ep_view s)(fd (ep_chans s c) := (if index ch = kAdded then Some (events ch, c) else None))"
  proof
    fix n
    show "ep_view t n = ((ep_view s)(fd (ep_chans s c) :=
        (if index ch = kAdded then Some (events ch, c) else None))) n"
    proof (cases "n = fd (ep_chans s c)")
      case True
      then show ?thesis using t new by (auto simp: ep_view_def)
    next
      case False
      then have "ep_channels s n \<noteq> Some c" using known [of n c] by auto
      then show ?thesis using False t by (auto simp: ep_view_def split: option.split)
    qed
  qed
qed

lemma ep_wf_known:
  "ep_wf s \<Longrightarrow> ep_channels s n = Some c \<Longrightarrow>
     fd (ep_chans s c) = n \<and> (index (ep_chans s c) = kAdded \<or> index (ep_chans s c) = kDeleted)"
  by (auto simp: ep_wf_def)

context epoll_kernel
begin

lemma ep_watch:
  assumes inv: "ep_inv interest s" and reg: "ep_fresh s c \<or> ep_hasChannel s c"
    and ev: "ev \<noteq> 0 \<or> ep_view s (fd (ep_chans s c)) = None"
  shows "\<exists>s'. ep_set_events ectl ev c s = Inr s' \<and> ep_inv interest s' \<and>
    ep_hasChannel s' = (ep_hasChannel s)(c := True) \<and> fd (ep_chans s' c) = fd (ep_chans s c) \<and>
    events (ep_chans s' c) = ev \<and> ep_view s' = (ep_view s)(fd (ep_chans s c) \<mapsto> (ev, c))"
proof -
  let ?n = "fd (ep_chans s c)"
  have wf: "ep_wf s" and int: "interest (ep_kern s) = ep_view s"
    using inv by (simp_all add: ep_inv_def)
  let ?op = "if index (ep_chans s c) = kAdded then EPOLL_CTL_MOD else EPOLL_CTL_ADD"
  define s1 where "s1 = ep_upd_chan c (\<lambda>ch. ch\<lparr>events := ev, addedToLoop := True, index := kAdded\<rparr>)
    (s\<lparr>ep_channels := (ep_channels s)(?n \<mapsto> c)\<rparr>)"
  have chan: "fd (ep_chans s1 c) = ?n" "events (ep_chans s1 c) = ev" "ep_kern s1 = ep_kern s"
    by (simp_all add: s1_def ep_upd_chan_def)
  have idx: "index (ep_chans s c) = kNew \<and> ep_channels s ?n = None \<or>
    index (ep_chans s c) \<in> {kAdded, kDeleted} \<and> ep_channels s ?n = Some c"
    using ep_wf_known [of s ?n c] wf reg by (auto simp: ep_fresh_def ep_hasChannel_def)
  have view: "ep_view s ?n = None \<longleftrightarrow> ?op = EPOLL_CTL_ADD"
    using idx by (auto simp: ep_view_def ep_index_defs)
  have call: "ep_set_events ectl ev c s = ep_update ectl ?op c s1"
  proof (cases "index (ep_chans s c) = kNew")
    case False
    then have "ep_channels s ?n = Some c" using idx by auto
    then have upd: "(ep_channels s)(?n \<mapsto> c) = ep_channels s" by auto
    have "ev \<noteq> 0" if "index (ep_chans s c) = kAdded" using ev view that by auto
    with False idx show ?thesis
      unfolding upd s1_def
      by (auto simp: ep_set_events_def ep_updateChannel_def ep_simps ep_index_defs set_index_idem)
  qed (use idx in \<open>auto simp: s1_def ep_set_events_def ep_updateChannel_def ep_simps ep_index_defs\<close>)
  from update_ok [of ?op s1 c] int view chan obtain k
    where k: "ep_update ectl ?op c s1 = Inr (s1\<lparr>ep_kern := k\<rparr>)"
      "interest k = (ep_view s)(?n \<mapsto> (ev, c))" by (auto split: if_splits)
  let ?t = "s1\<lparr>ep_kern := k\<rparr>"
  have t: "ep_channels ?t = (ep_channels s)(?n := Some c)" "ep_chans ?t = (ep_chans s)(c := ep_chans s1 c)"
    "index (ep_chans s1 c) = kAdded" "kAdded \<noteq> kNew"
    by (simp_all add: s1_def ep_upd_chan_def ep_index_defs)
  have slot: "ep_channels s ?n \<in> {None, Some c}" using idx by auto
  note entry = ep_entry [OF wf slot, of ?t "ep_chans s1 c"]
  show ?thesis
    using entry t chan call k by (simp del: fun_upd_apply add: ep_inv_def)
qed

lemma ep_unwatch:
  assumes inv: "ep_inv interest s" and has: "ep_hasChannel s c" and w: "ep_view s (fd (ep_chans s c)) \<noteq> None"
  shows "\<exists>s'. ep_set_events ectl 0 c s = Inr s' \<and> ep_inv interest s' \<and> ep_hasChannel s' = ep_hasChannel s \<and>
    fd (ep_chans s' c) = fd (ep_chans s c) \<and> events (ep_chans s' c) = 0 \<and>
    ep_view s' = (ep_view s)(fd (ep_chans s c) := None)"
proof -
  let ?n = "fd (ep_chans s c)"
  have wf: "ep_wf s" and int: "interest (ep_kern s) = ep_view s"
    using inv by (simp_all add: ep_inv_def)
  define s1 where "s1 = ep_upd_chan c (Channel_set_events 0) s"
  have chan: "fd (ep_chans s1 c) = ?n" "events (ep_chans s1 c) = 0" "ep_kern s1 = ep_kern s"
    by (simp_all add: s1_def ep_simps)
  have idx: "index (ep_chans s c) = kAdded" "ep_channels s ?n = Some c"
    using has w by (auto simp: ep_hasChannel_def ep_view_def split: if_splits)
  from update_ok [of EPOLL_CTL_DEL s1 c] int w chan obtain k
    where k: "ep_update ectl EPOLL_CTL_DEL c s1 = Inr (s1\<lparr>ep_kern := k\<rparr>)"
      "interest k = (ep_view s)(?n := None)" by auto
  let ?t = "ep_upd_chan c (\<lambda>ch. ch\<lparr>index := kDeleted\<rparr>) (s1\<lparr>ep_kern := k\<rparr>)"
  have call: "ep_set_events ectl 0 c s = Inr ?t"
    using k(1) idx by (simp add: ep_set_events_def ep_updateChannel_def ep_simps ep_index_defs s1_def)
  have t: "ep_channels ?t = (ep_channels s)(?n := Some c)"
    "ep_chans ?t = (ep_chans s)(c := ep_chans ?t c)" "ep_kern ?t = k"
    "index (ep_chans ?t c) = kDeleted" "kDeleted \<noteq> kNew" "kDeleted \<noteq> kAdded"
    "fd (ep_chans ?t c) = ?n" "events (ep_chans ?t c) = 0"
    using idx by (auto simp: s1_def ep_simps ep_index_defs)
  have slot: "ep_channels s ?n \<in> {None, Some c}" using idx by auto
  have "(ep_hasChannel s)(c := True) = ep_hasChannel s" using has by (simp add: fun_upd_idem_iff)
  with ep_entry [OF wf slot, of ?t "ep_chans ?t c"] t call k(2) show ?thesis
    by (simp del: fun_upd_apply add: ep_inv_def)
qed

lemma ep_removed_any:
  assumes inv: "ep_inv interest s" and has: "ep_hasChannel s c" and ev: "events (ep_chans s c) = 0"
  shows "\<exists>s'. ep_remove ectl c s = Inr s' \<and> ep_inv interest s' \<and>
    ep_hasChannel s' = (ep_hasChannel s)(c := False) \<and> ep_view s' = (ep_view s)(fd (ep_chans s c) := None)"
proof -
  let ?n = "fd (ep_chans s c)"
  have wf: "ep_wf s" and int: "interest (ep_kern s) = ep_view s"
    using inv by (simp_all add: ep_inv_def)
  have chan: "ep_channels s ?n = Some c" using has by (simp add: ep_hasChannel_def)
  have idx: "index (ep_chans s c) = kAdded \<or> index (ep_chans s c) = kDeleted"
    using ep_wf_known [OF wf chan] by simp
  define s1 where "s1 = (ep_upd_chan c (\<lambda>ch. ch\<lparr>addedToLoop := False\<rparr>) s)
    \<lparr>ep_channels := (ep_channels s)(?n := None)\<rparr>"
  have s1: "fd (ep_chans s1 c) = ?n" "ep_kern s1 = ep_kern s" by (simp_all add: s1_def ep_upd_chan_def)
  obtain k s2 where k: "interest k = (ep_view s)(?n := None)"
    "(if index (ep_chans s c) = kAdded then ep_update ectl EPOLL_CTL_DEL c s1 else Inr s1) = Inr s2"
    and s2: "s2 = s1\<lparr>ep_kern := k\<rparr>"
  proof (cases "index (ep_chans s c) = kAdded")
    case True
    then have "ep_view s ?n \<noteq> None" using chan by (simp add: ep_view_def)
    with update_ok [of EPOLL_CTL_DEL s1 c] int s1 True that show thesis by auto
  next
    case False
    then have "interest (ep_kern s) = (ep_view s)(?n := None)" using int chan by (auto simp: ep_view_def)
    moreover have "s1 = s1\<lparr>ep_kern := ep_kern s\<rparr>" using s1(2) by simp
    ultimately show thesis using that False by auto
  qed
  let ?t = "ep_upd_chan c (\<lambda>ch. ch\<lparr>index := kNew\<rparr>) s2"
  have call: "ep_remove ectl c s = Inr ?t"
    using chan idx ev k(2)
    by (auto simp: ep_remove_def ep_removeChannel_def Channel_remove_def ep_simps s1_def)
  have t: "ep_channels ?t = (ep_channels s)(?n := None)" "ep_chans ?t = (ep_chans s)(c := ep_chans ?t c)"
    "ep_kern ?t = k" "index (ep_chans ?t c) = kNew" "kNew \<noteq> kAdded" "fd (ep_chans ?t c) = ?n"
    by (simp_all add: s2 s1_def ep_simps ep_index_defs)
  have slot: "ep_channels s ?n \<in> {None, Some c}" using chan by simp
  from ep_entry [OF wf slot, of ?t "ep_chans ?t c"] t call k(1) show ?thesis
    by (simp del: fun_upd_apply add: ep_inv_def)
qed

lemma ep_removed:
  assumes "ep_inv interest s" and "ep_hasChannel s c" and "ep_view s (fd (ep_chans s c)) = None"
    and "events (ep_chans s c) = 0"
  shows "\<exists>s'. ep_remove ectl c s = Inr s' \<and> ep_inv interest s' \<and>
    ep_hasChannel s' = (ep_hasChannel s)(c := False) \<and> ep_view s' = ep_view s"
proof -
  have "(ep_view s)(fd (ep_chans s c) := None) = ep_view s" using assms(3) by auto
  with ep_removed_any [OF assms(1,2,4)] show ?thesis by simp
qed

text \<open>
  Any sequence of masks: what a channel's entry in the kernel becomes. An empty mask takes a
  registered channel out; on one that is not registered it is added with that mask, like any other.
\<close>

lemma ep_masks:
  assumes "ep_inv interest s" and "ep_fresh s c \<or> ep_hasChannel s c" and "evs \<noteq> []"
  shows "\<exists>s'. rfold (\<lambda>ev. ep_set_events ectl ev c) evs s = Inr s' \<and> ep_inv interest s' \<and>
    ep_hasChannel s' c \<and> fd (ep_chans s' c) = fd (ep_chans s c) \<and> events (ep_chans s' c) = last evs \<and>
    ep_view s' = (ep_view s)(fd (ep_chans s c) :=
      map_option (\<lambda>m. (m, c)) (foldl mask_step (map_option fst (ep_view s (fd (ep_chans s c)))) evs))"
  using assms
proof (induction evs arbitrary: s)
  case (Cons ev evs)
  let ?n = "fd (ep_chans s c)"
  obtain s1 where s1: "ep_set_events ectl ev c s = Inr s1" "ep_inv interest s1" "ep_hasChannel s1 c"
    "fd (ep_chans s1 c) = ?n" "events (ep_chans s1 c) = ev"
    "ep_view s1 = (ep_view s)(?n := map_option (\<lambda>m. (m, c)) (mask_step (map_option fst (ep_view s ?n)) ev))"
  proof (cases "ev \<noteq> 0 \<or> ep_view s ?n = None")
    case True
    then have "mask_step (map_option fst (ep_view s ?n)) ev = Some ev" by (cases "ep_view s ?n") auto
    with ep_watch [OF Cons.prems(1,2) True] that show thesis by auto
  next
    case False
    then have "ep_hasChannel s c" using Cons.prems(2) by (auto simp: ep_fresh_def ep_view_def)
    moreover have "mask_step (map_option fst (ep_view s ?n)) ev = None" using False by auto
    ultimately show thesis using ep_unwatch [OF Cons.prems(1), of c] False that by auto
  qed
  show ?case
  proof (cases "evs = []")
    case True
    with s1 show ?thesis by (simp del: fun_upd_apply)
  next
    case False
    have "map_option fst (ep_view s1 ?n) = mask_step (map_option fst (ep_view s ?n)) ev"
      by (cases "mask_step (map_option fst (ep_view s ?n)) ev") (simp_all add: s1(6))
    with Cons.IH [OF s1(2) disjI2 [OF s1(3)] False] s1 False show ?thesis by (simp del: fun_upd_apply)
  qed
qed simp

end

sublocale epoll_kernel \<subseteq> ep: poller "ep_inv interest" ep_chans ep_hasChannel ep_fresh ep_view
    "ep_set_events ectl" "ep_remove ectl"
proof unfold_locales
  fix s :: "'k ep_state" and c
  show "ep_inv interest s \<Longrightarrow> ep_fresh s c \<Longrightarrow> ep_view s (fd (ep_chans s c)) = None \<and> \<not> ep_hasChannel s c"
    by (simp add: ep_fresh_def ep_view_def ep_hasChannel_def)
qed (use ep_watch ep_unwatch ep_removed in blast)+

context epoll_kernel
begin

lemmas ep_lifecycle = ep.lifecycle_inv

end

section \<open>PollPoller keeps the contract\<close>

lemma pp_inv_known: "pp_inv s \<Longrightarrow> pp_channels s n = Some c \<Longrightarrow> pp_chan_ok s n c"
  by (simp add: pp_inv_def)

lemma pp_inv_slot:
  "pp_inv s \<Longrightarrow> i < length (pollfds s) \<Longrightarrow>
     \<exists>c. pp_channels s (pfd_target (pollfds s ! i)) = Some c \<and> index (pp_chans s c) = int i"
  by (simp add: pp_inv_def)

text \<open>Two registered channels never share an entry of \<open>pollfds_\<close>.\<close>

lemma pp_inv_inj:
  assumes "pp_inv s" "pp_channels s n = Some c" "pp_channels s m = Some d"
    "index (pp_chans s c) = index (pp_chans s d)"
  shows "n = m"
proof -
  from assms(1,2) have "pp_chan_ok s n c" by (rule pp_inv_known)
  moreover from assms(1,3) have "pp_chan_ok s m d" by (rule pp_inv_known)
  ultimately show ?thesis using assms(4) by (simp add: pp_chan_ok_def pp_slot_def)
qed

text \<open>Entering or changing the entry of a channel.\<close>

lemma pp_entry:
  assumes inv: "pp_inv s"
    and slot: "pp_channels s (fd ch) = None \<and> i = length (pollfds s) \<or>
      pp_channels s (fd ch) = Some c \<and> int i = index (pp_chans s c)"
    and t: "pp_channels t = (pp_channels s)(fd ch \<mapsto> c)" "pp_chans t = (pp_chans s)(c := ch)"
      "length (pollfds t) = max (length (pollfds s)) (Suc i)"
      "\<And>j. j < length (pollfds t) \<Longrightarrow> pollfds t ! j = (if j = i then pfd else pollfds s ! j)"
    and ch: "fd ch = fd (pp_chans s c)" "0 \<le> fd ch" "index ch = int i"
    and pfd: "pfd_target pfd = fd ch" "pfd_events pfd = ucast (events ch)"
  shows "pp_inv t" and "pp_hasChannel t = (pp_hasChannel s)(c := True)"
    and "pp_view t = (pp_view s)(fd ch := (if pfd_fd pfd = fd ch then Some (events ch, c) else None))"
proof -
  have other: "pp_chan_ok s n d \<and> d \<noteq> c \<and> index (pp_chans s d) \<noteq> int i"
    if "pp_channels s n = Some d" "n \<noteq> fd ch" for n d
  proof -
    from inv that(1) have ok: "pp_chan_ok s n d" by (rule pp_inv_known)
    then have "d \<noteq> c" using that(2) ch(1) by (auto simp: pp_chan_ok_def)
    moreover have "index (pp_chans s d) \<noteq> int i"
      using slot ok that pp_inv_inj [OF inv that(1), of "fd ch" c] by (auto simp: pp_chan_ok_def)
    ultimately show ?thesis using ok by simp
  qed
  have slot_t: "pp_slot t c = pfd" using t ch by (simp add: pp_slot_def)
  have slot_other: "pp_slot t d = pp_slot s d \<and> index (pp_chans s d) < int (length (pollfds t))"
    if "pp_channels s n = Some d" "n \<noteq> fd ch" for n d
    using other [OF that] t by (auto simp: pp_slot_def pp_chan_ok_def nat_less_iff)
  show "pp_inv t"
    unfolding pp_inv_def
  proof (intro conjI allI impI)
    fix n d assume "pp_channels t n = Some d"
    then consider "n = fd ch" "d = c" | "n \<noteq> fd ch" "pp_channels s n = Some d"
      using t(1) by (auto split: if_splits)
    then show "pp_chan_ok t n d"
    proof cases
      case 1
      then show ?thesis using t ch pfd slot_t by (simp add: pp_chan_ok_def)
    next
      case 2
      then show ?thesis using other [OF 2(2,1)] slot_other [OF 2(2,1)] t(2) by (simp add: pp_chan_ok_def)
    qed
  next
    fix j assume j: "j < length (pollfds t)"
    show "\<exists>d. pp_channels t (pfd_target (pollfds t ! j)) = Some d \<and> index (pp_chans t d) = int j"
    proof (cases "j = i")
      case True
      then show ?thesis using j t ch pfd by simp
    next
      case False
      then have "j < length (pollfds s)" using j t(3) slot inv pp_inv_known [OF inv, of "fd ch" c]
        by (auto simp: pp_chan_ok_def max_def split: if_splits)
      from pp_inv_slot [OF inv this] obtain d
        where d: "pp_channels s (pfd_target (pollfds s ! j)) = Some d" "index (pp_chans s d) = int j" by blast
      have "pfd_target (pollfds s ! j) \<noteq> fd ch"
        using d False slot by auto
      with d other [OF d(1)] j t False show ?thesis by auto
    qed
  qed
  show "pp_hasChannel t = (pp_hasChannel s)(c := True)"
  proof
    fix d show "pp_hasChannel t d = ((pp_hasChannel s)(c := True)) d"
      using t ch slot by (cases "d = c") (auto simp: pp_hasChannel_def)
  qed
  show "pp_view t = (pp_view s)(fd ch := (if pfd_fd pfd = fd ch then Some (events ch, c) else None))"
  proof
    fix n
    show "pp_view t n =
      ((pp_view s)(fd ch := (if pfd_fd pfd = fd ch then Some (events ch, c) else None))) n"
    proof (cases "n = fd ch")
      case True
      then show ?thesis using t slot_t by (simp add: pp_view_def)
    next
      case False
      then show ?thesis
        using t other slot_other by (cases "pp_channels s n") (auto simp: pp_view_def)
    qed
  qed
qed

text \<open>Removing a channel moves the last entry into the hole.\<close>

lemma pp_drop:
  assumes inv: "pp_inv s" and c: "pp_channels s n = Some c" "index (pp_chans s c) = int i"
    and off: "pp_view s n = None"
    and t: "pp_channels t = (pp_channels s)(n := None)" "length (pollfds t) = length (pollfds s) - 1"
      "\<And>j. j < length (pollfds t) \<Longrightarrow>
         pollfds t ! j = pollfds s ! (if j = i then length (pollfds s) - 1 else j)"
      "\<And>d. fd (pp_chans t d) = fd (pp_chans s d) \<and> events (pp_chans t d) = events (pp_chans s d)"
      "\<And>m d. pp_channels s m = Some d \<Longrightarrow> m \<noteq> n \<Longrightarrow> index (pp_chans t d) =
         (if index (pp_chans s d) = int (length (pollfds s) - 1) then int i else index (pp_chans s d))"
  shows "pp_inv t" and "pp_hasChannel t = (pp_hasChannel s)(c := False)" and "pp_view t = pp_view s"
proof -
  let ?l = "length (pollfds s) - 1"
  have okc: "pp_chan_ok s n c" using inv c(1) by (rule pp_inv_known)
  then have i: "i < length (pollfds s)" "pfd_target (pollfds s ! i) = n" "fd (pp_chans s c) = n"
    using c by (simp_all add: pp_chan_ok_def pp_slot_def)
  have other: "pp_chan_ok s m d \<and> index (pp_chans s d) \<noteq> int i"
    if "pp_channels s m = Some d" "m \<noteq> n" for m d
    using pp_inv_known [OF inv that(1)] pp_inv_inj [OF inv that(1) c(1)] that(2) c(2) by auto
  have slot: "pp_slot t d = pp_slot s d \<and> 0 \<le> index (pp_chans t d) \<and>
      index (pp_chans t d) < int (length (pollfds t))"
    if "pp_channels s m = Some d" "m \<noteq> n" for m d
  proof (cases "index (pp_chans s d) = int ?l")
    case True
    then have "i < ?l" using other [OF that] i(1) by auto
    moreover have "nat (index (pp_chans s d)) = ?l" using True by simp
    ultimately show ?thesis using True t(2) t(3) [of i] t(5) [OF that] by (auto simp: pp_slot_def)
  next
    case False
    then have "nat (index (pp_chans s d)) < length (pollfds t)" "nat (index (pp_chans s d)) \<noteq> i"
      using other [OF that] t(2) by (auto simp: pp_chan_ok_def)
    then show ?thesis
      using False t(3) [of "nat (index (pp_chans s d))"] t(5) [OF that] other [OF that]
      by (auto simp: pp_slot_def pp_chan_ok_def)
  qed
  show "pp_inv t"
    unfolding pp_inv_def
  proof (intro conjI allI impI)
    fix m d assume "pp_channels t m = Some d"
    then have "pp_channels s m = Some d" "m \<noteq> n" using t(1) by (auto split: if_splits)
    from other [OF this] slot [OF this] t(4) show "pp_chan_ok t m d" by (simp add: pp_chan_ok_def)
  next
    fix j assume j: "j < length (pollfds t)"
    let ?k = "if j = i then ?l else j"
    have "?k < length (pollfds s)" using j t(2) by auto
    from pp_inv_slot [OF inv this] obtain d
      where d: "pp_channels s (pfd_target (pollfds s ! ?k)) = Some d" "index (pp_chans s d) = int ?k" by blast
    have "?k \<noteq> i" using j t(2) by auto
    have ne: "pfd_target (pollfds s ! ?k) \<noteq> n"
    proof
      assume "pfd_target (pollfds s ! ?k) = n"
      then have "d = c" using d(1) c(1) by simp
      then show False using d(2) c(2) \<open>?k \<noteq> i\<close> by (simp split: if_splits)
    qed
    have "index (pp_chans t d) = int j" using t(5) [OF d(1) ne] d(2) j t(2) by (auto split: if_splits)
    then show "\<exists>d. pp_channels t (pfd_target (pollfds t ! j)) = Some d \<and> index (pp_chans t d) = int j"
      using d(1) ne t(1) t(3) [OF j] by auto
  qed
  show "pp_hasChannel t = (pp_hasChannel s)(c := False)"
  proof
    fix d show "pp_hasChannel t d = ((pp_hasChannel s)(c := False)) d"
      using t(1,4) c(1) i(3) by (cases "d = c") (auto simp: pp_hasChannel_def)
  qed
  show "pp_view t = pp_view s"
  proof
    fix m show "pp_view t m = pp_view s m"
      using off t(1,4) slot [of m] by (cases "m = n"; cases "pp_channels s m") (simp_all add: pp_view_def)
  qed
qed

text \<open>A new mask for a registered channel: an empty one negates the descriptor.\<close>

lemma pp_reset:
  assumes inv: "pp_inv s" and has: "pp_hasChannel s c"
  shows "\<exists>s'. pp_set_events ev c s = Inr s' \<and> pp_inv s' \<and> pp_hasChannel s' = pp_hasChannel s \<and>
    fd (pp_chans s' c) = fd (pp_chans s c) \<and> events (pp_chans s' c) = ev \<and>
    pp_view s' = (pp_view s)(fd (pp_chans s c) := (if ev = 0 then None else Some (ev, c)))"
proof -
  let ?n = "fd (pp_chans s c)" and ?i = "nat (index (pp_chans s c))"
  let ?ch = "Channel_set_events ev (pp_chans s c)"
  let ?pfd = "\<lparr>pfd_fd = (if ev = 0 then - ?n - 1 else ?n), pfd_events = ucast ev, pfd_revents = 0\<rparr>"
  let ?t = "s\<lparr>pp_chans := (pp_chans s)(c := ?ch), pollfds := (pollfds s)[?i := ?pfd]\<rparr>"
  have reg: "pp_channels s ?n = Some c" using has by (simp add: pp_hasChannel_def)
  have ok: "pp_chan_ok s ?n c" using inv reg by (rule pp_inv_known)
  then have i: "0 \<le> index (pp_chans s c)" "?i < length (pollfds s)" "0 \<le> ?n"
    "pfd_fd (pollfds s ! ?i) = ?n \<or> pfd_fd (pollfds s ! ?i) = - ?n - 1"
    by (auto simp: pp_chan_ok_def pp_slot_def pfd_target_def split: if_splits)
  have call: "pp_set_events ev c s = Inr ?t"
    using reg i by (simp add: pp_set_events_def pp_updateChannel_def pp_upd_chan_def isNoneEvent_def
        kNoneEvent_def Channel_set_events_def c_assert_holds Let_def nat_less_iff)
  have "pp_inv ?t" "pp_hasChannel ?t = (pp_hasChannel s)(c := True)"
    "pp_view ?t = (pp_view s)(fd ?ch := (if pfd_fd ?pfd = fd ?ch then Some (events ?ch, c) else None))"
    by (rule pp_entry [OF inv, where i = ?i and pfd = ?pfd and ch = ?ch and t = ?t and c = c];
        use reg i in \<open>auto simp: Channel_set_events_def pfd_target_def nth_list_update\<close>)+
  moreover have "(pp_hasChannel s)(c := True) = pp_hasChannel s" using has by (simp add: fun_upd_idem_iff)
  ultimately show ?thesis
    using call i(3) by (auto simp add: Channel_set_events_def fun_upd_same simp del: fun_upd_apply)
qed

lemma pp_watch:
  assumes inv: "pp_inv s" and reg: "pp_fresh s c \<or> pp_hasChannel s c" and ev: "ev \<noteq> 0"
  shows "\<exists>s'. pp_set_events ev c s = Inr s' \<and> pp_inv s' \<and> pp_hasChannel s' = (pp_hasChannel s)(c := True) \<and>
    fd (pp_chans s' c) = fd (pp_chans s c) \<and> events (pp_chans s' c) = ev \<and>
    pp_view s' = (pp_view s)(fd (pp_chans s c) \<mapsto> (ev, c))"
proof (cases "pp_fresh s c")
  case True
  let ?n = "fd (pp_chans s c)"
  let ?ch = "Channel_set_events ev (pp_chans s c)\<lparr>index := int (length (pollfds s))\<rparr>"
  let ?pfd = "\<lparr>pfd_fd = ?n, pfd_events = ucast ev, pfd_revents = 0\<rparr>"
  let ?t = "s\<lparr>pp_chans := (pp_chans s)(c := ?ch), pp_channels := (pp_channels s)(?n \<mapsto> c),
    pollfds := pollfds s @ [?pfd]\<rparr>"
  have call: "pp_set_events ev c s = Inr ?t"
    using True by (simp add: pp_set_events_def pp_updateChannel_def pp_upd_chan_def pp_fresh_def
        Channel_set_events_def Let_def)
  have "pp_inv ?t" "pp_hasChannel ?t = (pp_hasChannel s)(c := True)"
    "pp_view ?t = (pp_view s)(fd ?ch := (if pfd_fd ?pfd = fd ?ch then Some (events ?ch, c) else None))"
    by (rule pp_entry [OF inv, where i = "length (pollfds s)" and pfd = ?pfd and ch = ?ch and t = ?t];
        use True in \<open>simp add: pp_fresh_def Channel_set_events_def nth_append pfd_target_def\<close>)+
  with call show ?thesis by (auto simp: Channel_set_events_def fun_upd_same simp del: fun_upd_apply)
next
  case False
  then have has: "pp_hasChannel s c" using reg by simp
  then have "pp_hasChannel s = (pp_hasChannel s)(c := True)" by (simp add: fun_upd_idem)
  with pp_reset [OF inv has, of ev] ev show ?thesis by (simp del: fun_upd_apply)
qed

lemma pp_removed:
  assumes inv: "pp_inv s" and has: "pp_hasChannel s c" and off: "pp_view s (fd (pp_chans s c)) = None"
    and ev: "events (pp_chans s c) = 0"
  shows "\<exists>s'. pp_remove c s = Inr s' \<and> pp_inv s' \<and> pp_hasChannel s' = (pp_hasChannel s)(c := False) \<and>
    pp_view s' = pp_view s"
proof -
  let ?n = "fd (pp_chans s c)" and ?i = "nat (index (pp_chans s c))" and ?l = "length (pollfds s) - 1"
  let ?s1 = "s\<lparr>pp_chans := (pp_chans s)(c := (pp_chans s c)\<lparr>addedToLoop := False\<rparr>),
    pp_channels := (pp_channels s)(?n := None)\<rparr>"
  have reg: "pp_channels s ?n = Some c" using has by (simp add: pp_hasChannel_def)
  have ok: "pp_chan_ok s ?n c" using inv reg by (rule pp_inv_known)
  then have i: "index (pp_chans s c) = int ?i" "?i < length (pollfds s)" "0 \<le> ?n"
    "pfd_events (pollfds s ! ?i) = 0" "pfd_target (pollfds s ! ?i) = ?n"
    using ev by (auto simp: pp_chan_ok_def pp_slot_def nat_less_iff)
  have neg: "pfd_fd (pollfds s ! ?i) = - ?n - 1"
    using off reg i(5) by (auto simp: pp_view_def pp_slot_def pfd_target_def split: if_splits)
  note call = pp_remove_def Channel_remove_def pp_removeChannel_def pp_upd_chan_def isNoneEvent_def
    kNoneEvent_def c_assert_holds Let_def
  show ?thesis
  proof (cases "?i = ?l")
    case True
    let ?t = "?s1\<lparr>pollfds := butlast (pollfds s)\<rparr>"
    have "pollfds s \<noteq> []" using i(2) by auto
    then have "pp_remove c s = Inr ?t"
      using reg i neg ev True by (simp add: call)
    moreover have "index (pp_chans s d) \<noteq> int ?l" if "pp_channels s m = Some d" "m \<noteq> ?n" for m d
      using pp_inv_inj [OF inv that(1) reg] that(2) i(1) True by auto
    then have "pp_inv ?t" "pp_hasChannel ?t = (pp_hasChannel s)(c := False)" "pp_view ?t = pp_view s"
      by (intro pp_drop [OF inv reg i(1) off];
          use True i(2) in \<open>auto simp: nth_butlast\<close>)+
    ultimately show ?thesis by blast
  next
    case False
    have "?l < length (pollfds s)" using i(2) by linarith
    from pp_inv_slot [OF inv this] obtain d
      where d: "pp_channels s (pfd_target (pollfds s ! ?l)) = Some d" "index (pp_chans s d) = int ?l" by blast
    have dc: "d \<noteq> c" using d(2) i(1) False by auto
    then have dn: "pfd_target (pollfds s ! ?l) \<noteq> ?n" using d(1) reg by auto
    let ?t = "pp_upd_chan d (\<lambda>ch. ch\<lparr>index := int ?i\<rparr>) (?s1\<lparr>pollfds :=
      butlast ((pollfds s)[?i := last (pollfds s), ?l := pollfds s ! ?i])\<rparr>)"
    have "pollfds s \<noteq> []" using i(2) by auto
    then have lst: "last (pollfds s) = pollfds s ! ?l" by (rule last_conv_nth)
    have "pp_remove c s = Inr ?t"
      using reg i neg ev False d dn dc lst by (simp add: call pfd_target_def split: if_splits)
    moreover have "index (pp_chans s e) = int ?l \<longleftrightarrow> e = d" if "pp_channels s m = Some e" "m \<noteq> ?n" for m e
      using pp_inv_inj [OF inv that(1) d(1)] that(1) d by auto
    then have "pp_inv ?t" "pp_hasChannel ?t = (pp_hasChannel s)(c := False)" "pp_view ?t = pp_view s"
      by (intro pp_drop [OF inv reg i(1) off];
          use False i(2) d dc lst in \<open>auto simp: pp_upd_chan_def nth_butlast nth_list_update\<close>)+
    ultimately show ?thesis by blast
  qed
qed

interpretation pp: poller pp_inv pp_chans pp_hasChannel pp_fresh pp_view pp_set_events pp_remove
proof unfold_locales
  fix s c
  show "pp_inv s \<Longrightarrow> pp_hasChannel s c \<Longrightarrow> pp_view s (fd (pp_chans s c)) \<noteq> None \<Longrightarrow>
    \<exists>s'. pp_set_events 0 c s = Inr s' \<and> pp_inv s' \<and> pp_hasChannel s' = pp_hasChannel s \<and>
      fd (pp_chans s' c) = fd (pp_chans s c) \<and> events (pp_chans s' c) = 0 \<and>
      pp_view s' = (pp_view s)(fd (pp_chans s c) := None)"
    using pp_reset [of s c 0] by simp
  show "pp_inv s \<Longrightarrow> pp_fresh s c \<Longrightarrow> pp_view s (fd (pp_chans s c)) = None \<and> \<not> pp_hasChannel s c"
    by (simp add: pp_fresh_def pp_view_def pp_hasChannel_def)
qed (use pp_watch pp_removed in blast)+

section \<open>Properties\<close>

text \<open>\<open>removeChannel\<close> of \<open>PollPoller\<close> does not touch the index of the channel it removes.\<close>

lemma pp_remove_index:
  assumes inv: "pp_inv s" and rem: "pp_remove c s = Inr s'"
  shows "index (pp_chans s' c) = index (pp_chans s c) \<and> fd (pp_chans s' c) = fd (pp_chans s c) \<and>
    pp_channels s' (fd (pp_chans s c)) = None"
proof -
  have other: "d \<noteq> c" if "((pp_channels s)(fd (pp_chans s c) := None)) m = Some d" for m d
    using that pp_inv_known [OF inv, of m d] by (auto simp: pp_chan_ok_def split: if_splits)
  show ?thesis
    using rem other
    by (auto simp: pp_remove_def Channel_remove_def pp_removeChannel_def pp_upd_chan_def result_simps Let_def
        simp del: fun_upd_apply split: if_splits option.splits)
      (auto simp: fun_upd_apply)
qed

lemma pp_register_stale:
  assumes "0 \<le> index (pp_chans s c)" "pp_channels s (fd (pp_chans s c)) = None"
  shows "pp_set_events ev c s = Inl AssertFailed"
  using assms by (simp add: pp_set_events_def pp_updateChannel_def pp_upd_chan_def Channel_set_events_def Let_def)

lemma ep_remove_fresh:
  assumes "ep_wf s" "ep_remove ectl c s = Inr s'"
  shows "ep_fresh s' c"
  using assms(2)
  by (auto simp: ep_remove_def ep_removeChannel_def Channel_remove_def ep_fresh_def ep_update_def
      ep_upd_chan_def result_simps Let_def split: if_splits prod.splits)

lemma ep_fill_ok:
  assumes "\<forall>(c, ev) \<in> set es. ep_hasChannel s c"
  shows "\<exists>s'. ep_fillActiveChannels es s = Inr (map fst es, s') \<and> ep_channels s' = ep_channels s \<and>
    ep_kern s' = ep_kern s \<and> ep_events_size s' = ep_events_size s \<and>
    (\<forall>c. ep_chans s' c = (ep_chans s c)\<lparr>revents := (case map_of (rev es) c of None \<Rightarrow> revents (ep_chans s c) | Some ev \<Rightarrow> ev)\<rparr>)"
  using assms
proof (induction es arbitrary: s)
  case (Cons e es)
  obtain c ev where e: "e = (c, ev)" by fastforce
  let ?s = "ep_upd_chan c (set_revents ev) s"
  have "\<forall>(d, ev) \<in> set es. ep_hasChannel ?s d"
    using Cons.prems by (auto simp: ep_hasChannel_def ep_upd_chan_def set_revents_def)
  from Cons.IH [OF this] obtain s' where
    s': "ep_fillActiveChannels es ?s = Inr (map fst es, s')" "ep_channels s' = ep_channels s"
      "ep_kern s' = ep_kern s" "ep_events_size s' = ep_events_size s"
      "\<forall>d. ep_chans s' d = (ep_chans ?s d)\<lparr>revents := (case map_of (rev es) d of None \<Rightarrow> revents (ep_chans ?s d) | Some ev \<Rightarrow> ev)\<rparr>"
    by (auto simp: ep_upd_chan_def)
  have "ep_channels s (fd (ep_chans s c)) = Some c"
    using Cons.prems e by (auto simp: ep_hasChannel_def)
  with s' show ?case
    by (auto simp: e ep_upd_chan_def set_revents_def map_add_def split: option.split)
qed simp

text \<open>
  Property C14. A channel that is new to an \<open>EPollPoller\<close> goes through any non-empty sequence of mask
  changes, disabled and enabled again any number of times, without an assertion or a fatal
  \<open>epoll_ctl\<close>, and the kernel watches it exactly as the sequence says: with the last mask, or not at
  all after an empty mask on a watched channel (an empty mask on one that is not watched adds it
  with that mask). If the last mask is empty, \<open>remove\<close> succeeds, the kernel watches what it watched
  before and the channel can be registered again; otherwise \<open>remove\<close> fails its assertion. This holds
  over every kernel with the documented behaviour of \<open>epoll_ctl\<close>.
\<close>

theorem epoll_lifecycle:
  assumes "epoll_kernel ectl interest" and "ep_inv interest s" and "ep_fresh s c" and "evs \<noteq> []"
  shows "\<exists>s1. rfold (\<lambda>ev. ep_set_events ectl ev c) evs s = Inr s1 \<and> ep_inv interest s1 \<and>
    interest (ep_kern s1) = (interest (ep_kern s))(fd (ep_chans s c) :=
      map_option (\<lambda>m. (m, c)) (foldl mask_step None evs)) \<and>
    (if last evs = 0
     then \<exists>s2. ep_remove ectl c s1 = Inr s2 \<and> ep_inv interest s2 \<and>
       interest (ep_kern s2) = interest (ep_kern s) \<and> ep_fresh s2 c
     else ep_remove ectl c s1 = Inl AssertFailed)"
proof -
  have none: "ep_view s (fd (ep_chans s c)) = None" using assms(3) by (simp add: ep_fresh_def ep_view_def)
  from epoll_kernel.ep_masks [OF assms(1,2) disjI1 [OF assms(3)] assms(4)] none obtain s1
    where s1: "rfold (\<lambda>ev. ep_set_events ectl ev c) evs s = Inr s1" "ep_inv interest s1" "ep_hasChannel s1 c"
      "fd (ep_chans s1 c) = fd (ep_chans s c)" "events (ep_chans s1 c) = last evs"
      "ep_view s1 = (ep_view s)(fd (ep_chans s c) := map_option (\<lambda>m. (m, c)) (foldl mask_step None evs))"
    by (auto simp del: fun_upd_apply)
  have restored: "(ep_view s1)(fd (ep_chans s c) := None) = ep_view s" using none by (auto simp: s1(6))
  have "\<exists>s2. ep_remove ectl c s1 = Inr s2 \<and> ep_inv interest s2 \<and> interest (ep_kern s2) = interest (ep_kern s) \<and>
      ep_fresh s2 c" if "last evs = 0"
  proof -
    from epoll_kernel.ep_removed_any [OF assms(1) s1(2,3)] that s1(4,5) restored obtain s2
      where s2: "ep_remove ectl c s1 = Inr s2" "ep_inv interest s2" "ep_view s2 = ep_view s" by auto
    moreover have "ep_fresh s2 c" using s1(2) s2(1) by (intro ep_remove_fresh) (auto simp: ep_inv_def)
    ultimately show ?thesis using assms(2) by (auto simp: ep_inv_def)
  qed
  moreover have "ep_remove ectl c s1 = Inl AssertFailed" if "last evs \<noteq> 0"
    using that s1(5) by (simp add: ep_remove_def Channel_remove_def isNoneEvent_def kNoneEvent_def)
  ultimately show ?thesis using s1(1,2,6) assms(2) by (simp add: ep_inv_def del: fun_upd_apply)
qed

text \<open>An \<open>EPollPoller\<close> without channels, whose channel \<open>c\<close> stands for descriptor \<open>c\<close>.\<close>

definition ep_empty :: "watch_set ep_state" where
  "ep_empty = \<lparr>ep_chans = (\<lambda>c. Channel_ctor (int c)), ep_channels = (\<lambda>n. None),
     ep_events_size = kInitEventListSize, ep_kern = (\<lambda>n. None)\<rparr>"

definition pp_empty :: pp_state where
  "pp_empty = \<lparr>pp_chans = (\<lambda>c. Channel_ctor (int c)), pp_channels = (\<lambda>n. None), pollfds = []\<rparr>"

lemma ep_empty_inv: "ep_inv (\<lambda>k. k) ep_empty \<and> ep_fresh ep_empty c"
  by (auto simp: ep_inv_def ep_wf_def ep_empty_def ep_view_def ep_fresh_def Channel_ctor_def kNew_def fun_eq_iff)

lemma pp_empty_inv: "pp_inv pp_empty \<and> pp_fresh pp_empty c"
  by (simp add: pp_inv_def pp_empty_def pp_fresh_def Channel_ctor_def)

theorem epoll_lifecycle_witness:
  "\<exists>s1 s2. rfold (\<lambda>ev. ep_set_events ref_epoll_ctl ev 5) [3, 0, 7, 1, 0] ep_empty = Inr s1 \<and>
    ep_remove ref_epoll_ctl 5 s1 = Inr s2 \<and> ep_kern s2 = ep_kern ep_empty \<and> ep_fresh s2 5"
  using epoll_lifecycle [OF ref_kernel.epoll_kernel_axioms, of ep_empty 5 "[3, 0, 7, 1, 0]"] ep_empty_inv
  by (auto simp del: fun_upd_apply rfold.simps)

text \<open>
  Property C15. The same life of a registration in a \<open>PollPoller\<close> never fails and leaves the
  polled set as it found it; but \<open>removeChannel\<close> leaves the old index in the channel, so that
  registering the same \<open>Channel\<close> again always fails the assertion of \<open>updateChannel\<close>
  (\<open>EPollPoller\<close> resets the index and accepts it).
\<close>

theorem poll_lifecycle_stale_index:
  assumes "pp_inv s" and "pp_fresh s c" and "evs \<noteq> []" and "0 \<notin> set evs"
  shows "\<exists>s1 s2 s3. rfold (\<lambda>ev. pp_set_events ev c) evs s = Inr s1 \<and>
    pp_view s1 = (pp_view s)(fd (pp_chans s c) \<mapsto> (last evs, c)) \<and>
    pp_set_events 0 c s1 = Inr s2 \<and> pp_remove c s2 = Inr s3 \<and> pp_inv s3 \<and> pp_view s3 = pp_view s \<and>
    (\<forall>ev. pp_set_events ev c s3 = Inl AssertFailed)"
proof -
  have evs: "\<forall>ev \<in> set evs. ev \<noteq> 0" using assms(4) by auto
  from pp.lifecycle_inv [OF assms(1,2) evs assms(3)] obtain s1 s2 s3
    where s: "rfold (\<lambda>ev. pp_set_events ev c) evs s = Inr s1" "pp_inv s1"
      "pp_view s1 = (pp_view s)(fd (pp_chans s c) \<mapsto> (last evs, c))"
      "pp_set_events 0 c s1 = Inr s2" "pp_inv s2" "pp_hasChannel s2 c" "pp_remove c s2 = Inr s3"
      "pp_inv s3" "pp_view s3 = pp_view s" by blast
  have "0 \<le> index (pp_chans s2 c)"
    using s(6) pp_inv_known [OF s(5)] by (auto simp: pp_hasChannel_def pp_chan_ok_def)
  then have "pp_set_events ev c s3 = Inl AssertFailed" for ev
    using pp_remove_index [OF s(5,7)] by (intro pp_register_stale) simp_all
  with s show ?thesis by blast
qed

theorem poll_lifecycle_stale_index_witness:
  "\<exists>s1 s2 s3. rfold (\<lambda>ev. pp_set_events ev 5) [3, 7] pp_empty = Inr s1 \<and>
    pp_view s1 = (pp_view pp_empty)(fd (pp_chans pp_empty 5) \<mapsto> (last [3, 7], 5)) \<and>
    pp_set_events 0 5 s1 = Inr s2 \<and> pp_remove 5 s2 = Inr s3 \<and> pp_inv s3 \<and> pp_view s3 = pp_view pp_empty \<and>
    (\<forall>ev. pp_set_events ev 5 s3 = Inl AssertFailed)"
  using poll_lifecycle_stale_index [of pp_empty 5 "[3, 7]"] pp_empty_inv
  by (simp del: fun_upd_apply)

text \<open>
  When the kernel reports events for registered channels only, \<open>EPollPoller::poll\<close>
  returns exactly those channels in the kernel's order, stores in each the mask reported (the last
  one if a channel is reported twice), changes nothing else in the channels or the map, and
  doubles the event array exactly when the kernel filled it.
\<close>

lemma ep_poll_reports:
  assumes "\<forall>(c, ev) \<in> set es. ep_hasChannel s c" and "length es \<le> ep_events_size s"
  shows "\<exists>s'. ep_poll (WaitOk es) s = Inr (map fst es, s') \<and> ep_channels s' = ep_channels s \<and> ep_kern s' = ep_kern s \<and>
    ep_events_size s' = (if es \<noteq> [] \<and> length es = ep_events_size s then 2 else 1) * ep_events_size s \<and>
    (\<forall>c. ep_chans s' c = (ep_chans s c)\<lparr>revents :=
       (case map_of (rev es) c of None \<Rightarrow> revents (ep_chans s c) | Some ev \<Rightarrow> ev)\<rparr>)"
  using ep_fill_ok [OF assms(1)] assms(2)
  by (cases "es = []") (auto simp: ep_poll_def c_assert_holds)

lemma ep_poll_reports_witness:
  "\<exists>(s :: watch_set ep_state) s'. ep_hasChannel s 5 \<and> ep_poll (WaitOk [(5, 1)]) s = Inr ([5], s') \<and> revents (ep_chans s' 5) = 1"
proof -
  let ?s = "ep_empty\<lparr>ep_channels := (\<lambda>n. None)(5 \<mapsto> 5)\<rparr>"
  have "ep_hasChannel ?s 5" by (simp add: ep_hasChannel_def ep_empty_def Channel_ctor_def)
  moreover have "\<exists>s'. ep_poll (WaitOk [(5, 1)]) ?s = Inr ([5], s') \<and> revents (ep_chans s' 5) = 1"
    using ep_poll_reports [of "[(5, 1)]" ?s] \<open>ep_hasChannel ?s 5\<close>
    by (auto simp: ep_empty_def kInitEventListSize_def)
  ultimately show ?thesis by blast
qed

text \<open>
  \<open>PollPoller::poll\<close> never stores what \<open>poll(2)\<close> reported in a channel: whatever the
  kernel answers, every channel leaves the call with the \<open>revents_\<close> it had before, so a new
  channel dispatches no callback at all.
\<close>

lemma pp_poll_keeps_revents:
  assumes "pp_poll wr s = Inr (cs, s')"
  shows "pp_chans s' = pp_chans s \<and> dispatch (revents (Channel_ctor n)) = []"
  using assms
  by (auto simp: pp_poll_def result_simps Let_def Channel_ctor_def dispatch_def has_bits_def
      split: wait_result.splits if_splits)

lemma pp_poll_keeps_revents_witness:
  "\<exists>s s'. pp_poll (WaitOk [1]) s = Inr ([5], s') \<and> pp_chans s' = pp_chans s \<and>
     dispatch (revents (pp_chans s' 5)) = []"
proof -
  let ?s = "pp_empty\<lparr>pp_channels := (\<lambda>n. None)(5 \<mapsto> 5),
    pollfds := [\<lparr>pfd_fd = 5, pfd_events = 1, pfd_revents = 0\<rparr>]\<rparr>"
  let ?t = "?s\<lparr>pollfds := [\<lparr>pfd_fd = 5, pfd_events = 1, pfd_revents = 1\<rparr>]\<rparr>"
  have "pp_poll (WaitOk [1]) ?s = Inr ([5], ?t)"
    by (simp add: pp_poll_def pp_empty_def Channel_ctor_def)
  with pp_poll_keeps_revents [OF this, of 5] show ?thesis
    by (intro exI [of _ ?s] exI [of _ ?t]) (simp add: pp_empty_def)
qed

end
