(* ===== verification/NW_Text.thy ===== *)
theory NW_Text
  imports NW_Prelude
begin

text \<open>
  Text of the C library that several components use: decimal numbers as \<open>printf\<close> writes them,
  \<open>snprintf\<close> into a buffer of a given size, and reading a number back.
\<close>

section \<open>Printing\<close>

text \<open>\<open>%d\<close> and \<open>%u\<close> of \<open>snprintf\<close> on a non-negative number.\<close>

definition digit_char :: "nat \<Rightarrow> char" where
  "digit_char d = char_of (48 + d)"

fun dec :: "nat \<Rightarrow> string" where
  "dec n = (if n < 10 then [digit_char n] else dec (n div 10) @ [digit_char (n mod 10)])"

declare dec.simps [simp del]

definition dec_int :: "int \<Rightarrow> string" where
  "dec_int i = (if i < 0 then ''-'' @ dec (nat (- i)) else dec (nat i))"

text \<open>The text \<open>snprintf(buf, sz, ...)\<close> leaves in \<open>buf\<close>.\<close>

definition c_snprintf :: "nat \<Rightarrow> string \<Rightarrow> string" where
  "c_snprintf sz txt = take (sz - 1) txt"

section \<open>Reading\<close>

definition digit_val :: "char \<Rightarrow> nat" where
  "digit_val c = of_char c - 48"

definition read_nat :: "string \<Rightarrow> nat" where
  "read_nat cs = foldl (\<lambda>n c. n * 10 + digit_val c) 0 cs"

definition read_int :: "string \<Rightarrow> int" where
  "read_int cs = (case cs of c # cs' \<Rightarrow> if c = CHR ''-'' then - int (read_nat cs') else int (read_nat cs) | [] \<Rightarrow> 0)"

section \<open>Lemmas\<close>

lemma dec_length: "n < 10 ^ Suc k \<Longrightarrow> length (dec n) \<le> Suc k"
proof (induction k arbitrary: n)
  case (Suc k)
  show ?case
  proof (cases "n < 10")
    case False
    have "n div 10 < 10 ^ Suc k" using Suc.prems by (simp add: less_mult_imp_div_less mult.commute)
    from Suc.IH [OF this] False show ?thesis by (subst dec.simps) simp
  qed (simp add: dec.simps)
qed (simp add: dec.simps)

lemma digit_char_inj: "a < 10 \<Longrightarrow> b < 10 \<Longrightarrow> digit_char a = digit_char b \<longleftrightarrow> a = b"
  by (simp add: digit_char_def char_of_eq_iff take_bit_eq_mod)

lemma digit_char_eval:
  "digit_char 0 = CHR ''0''" "digit_char (Suc 0) = CHR ''1''" "digit_char 2 = CHR ''2''" "digit_char 3 = CHR ''3''"
  "digit_char 4 = CHR ''4''" "digit_char 5 = CHR ''5''" "digit_char 6 = CHR ''6''" "digit_char 7 = CHR ''7''"
  "digit_char 8 = CHR ''8''" "digit_char 9 = CHR ''9''"
  by code_simp+

lemma dec_nonempty [simp]: "dec n \<noteq> []" "[] \<noteq> dec n"
  by (subst dec.simps, simp)+

lemma dec_digits: "set (dec n) \<subseteq> digit_char ` {..<10}"
proof (induction n rule: dec.induct)
  case (1 n)
  then show ?case by (subst dec.simps) (auto simp: image_iff)
qed

lemma dec_inj: "dec m = dec n \<Longrightarrow> m = n"
proof (induction m arbitrary: n rule: dec.induct)
  case (1 m)
  have m: "dec m = (if m < 10 then [digit_char m] else dec (m div 10) @ [digit_char (m mod 10)])"
    and n: "dec n = (if n < 10 then [digit_char n] else dec (n div 10) @ [digit_char (n mod 10)])"
    by (subst dec.simps, rule refl)+
  show ?case
  proof (cases "m < 10")
    case True
    with "1.prems" m n show ?thesis by (auto simp: digit_char_inj split: if_splits)
  next
    case False
    with "1.prems" m n have "\<not> n < 10" by (auto split: if_splits)
    with False "1.prems" m n have "dec (m div 10) = dec (n div 10)" "digit_char (m mod 10) = digit_char (n mod 10)"
      by auto
    with "1.IH" [OF False] have "m div 10 = n div 10" "m mod 10 = n mod 10"
      by (auto simp: digit_char_inj)
    then show ?thesis by (metis div_mult_mod_eq)
  qed
qed

lemma digit_val_char [simp]: "d < 10 \<Longrightarrow> digit_val (digit_char d) = d"
  by (simp add: digit_val_def digit_char_def)

lemma read_nat_dec: "read_nat (dec n) = n"
proof (induction n rule: dec.induct)
  case (1 n)
  show ?case
  proof (cases "n < 10")
    case True
    then show ?thesis by (subst dec.simps) (simp add: read_nat_def)
  next
    case False
    then have "read_nat (dec n) = read_nat (dec (n div 10)) * 10 + n mod 10"
      by (subst dec.simps) (simp add: read_nat_def)
    with 1 [OF False] show ?thesis by simp
  qed
qed

lemma dec_no_sign: "CHR ''-'' \<notin> set (dec n)"
proof
  assume "CHR ''-'' \<in> set (dec n)"
  with dec_digits [of n] obtain d where "d < 10" "CHR ''-'' = digit_char d" by auto
  then have "of_char CHR ''-'' = (of_char (digit_char d) :: nat)" by simp
  with \<open>d < 10\<close> show False by (simp add: digit_char_def)
qed

lemma read_int_dec_int: "read_int (dec_int i) = i"
proof (cases "i < 0")
  case True
  then show ?thesis by (simp add: read_int_def dec_int_def read_nat_dec)
next
  case False
  obtain c cs where c: "dec (nat i) = c # cs" by (cases "dec (nat i)") auto
  then have "c \<noteq> CHR ''-''" using dec_no_sign [of "nat i"] by auto
  with False c read_nat_dec [of "nat i"] show ?thesis by (simp add: read_int_def dec_int_def)
qed

lemma dec_int_length: "\<bar>i\<bar> < 10 ^ Suc k \<Longrightarrow> length (dec_int i) \<le> Suc k + (if i < 0 then 1 else 0)"
  using dec_length [of "nat \<bar>i\<bar>" k] by (auto simp: dec_int_def nat_less_iff)

end
