(* ===== verification/NW_Reactor.thy ===== *)
theory NW_Reactor
  imports NW_Poller NW_Text
begin

unbundle bit_operations_syntax

text \<open>
  The reactor: \<^verbatim>\<open>networker/net/EventLoop.cpp\<close> composed with \<open>EPollPoller\<close> and the channels it owns.

  \<open>reactor\<close> holds the members of \<open>EventLoop\<close> that the dispatch of events uses and the state of the
  poller, in which the channels live. A callback is a parameter: \<open>user c cb s\<close> is the list of
  operations on channels (\<open>chan_op\<close>) that the callback \<open>cb\<close> of channel \<open>c\<close> performs in the state
  \<open>s\<close>. \<open>rx_round\<close> is one round of \<open>loop()\<close> up to \<open>doPendingFunctors\<close>. \<open>rx_ran\<close> and \<open>rx_calls\<close> are
  history: the callbacks run and the operations they performed.

  The abstract specification of a registration is the automaton \<open>reg_step\<close> on \<open>reg\<close>: a channel is
  absent from the poller, parked (known to it, unknown to the kernel) or watched with a mask.
  \<open>spec_legal\<close> is the protocol: what a callback may do to which channel.
\<close>

section \<open>State\<close>

datatype chan_op = EnableReading | DisableReading | EnableWriting | DisableWriting | DisableAll | Remove

record 'k reactor =
  rx_threadId :: int
  rx_owned :: "chan_id \<Rightarrow> bool"
  rx_ep :: "'k ep_state"
  activeChannels :: "chan_id list"
  currentActiveChannel :: "chan_id option"
  rx_eventHandling :: bool
  rx_iteration :: nat
  rx_ran :: "(chan_id \<times> chan_cb) list"
  rx_calls :: "(chan_op \<times> chan_id) list"

abbreviation rx_chan :: "'k reactor \<Rightarrow> chan_id \<Rightarrow> Channel" where
  "rx_chan s c \<equiv> ep_chans (rx_ep s) c"

definition rx_upd_chan :: "chan_id \<Rightarrow> (Channel \<Rightarrow> Channel) \<Rightarrow> 'k reactor \<Rightarrow> 'k reactor" where
  "rx_upd_chan c f s = s\<lparr>rx_ep := ep_upd_chan c f (rx_ep s)\<rparr>"

section \<open>Operations\<close>

definition rx_updateChannel :: "'k epoll_ctl \<Rightarrow> int \<Rightarrow> chan_id \<Rightarrow> 'k reactor \<Rightarrow> 'k reactor result" where
  "rx_updateChannel ectl tid c s =
     c_assert (rx_owned s c) (assertInLoopThread (tid = rx_threadId s) (
       rbind (ep_updateChannel ectl c (rx_ep s)) (\<lambda>e. Inr (s\<lparr>rx_ep := e\<rparr>))))"

definition rx_removeChannel :: "'k epoll_ctl \<Rightarrow> int \<Rightarrow> chan_id \<Rightarrow> 'k reactor \<Rightarrow> 'k reactor result" where
  "rx_removeChannel ectl tid c s =
     c_assert (rx_owned s c) (assertInLoopThread (tid = rx_threadId s) (
       c_assert (rx_eventHandling s \<longrightarrow> currentActiveChannel s = Some c \<or> c \<notin> set (activeChannels s)) (
         rbind (ep_removeChannel ectl c (rx_ep s)) (\<lambda>e. Inr (s\<lparr>rx_ep := e\<rparr>)))))"

definition rx_hasChannel :: "int \<Rightarrow> chan_id \<Rightarrow> 'k reactor \<Rightarrow> bool result" where
  "rx_hasChannel tid c s =
     c_assert (rx_owned s c) (assertInLoopThread (tid = rx_threadId s) (Inr (ep_hasChannel (rx_ep s) c)))"

text \<open>The calls of a channel into its loop: a change of the mask and \<open>update\<close>, or \<open>remove\<close>.\<close>

fun change_events :: "chan_op \<Rightarrow> Channel \<Rightarrow> Channel" where
  "change_events EnableReading = enableReading"
| "change_events DisableReading = disableReading"
| "change_events EnableWriting = enableWriting"
| "change_events DisableWriting = disableWriting"
| "change_events DisableAll = disableAll"
| "change_events Remove = id"

definition rx_op :: "'k epoll_ctl \<Rightarrow> int \<Rightarrow> chan_op \<times> chan_id \<Rightarrow> 'k reactor \<Rightarrow> 'k reactor result" where
  "rx_op ectl tid = (\<lambda>(op, c) s.
     if op = Remove
     then rbind (Channel_remove (rx_chan s c)) (\<lambda>ch. rx_removeChannel ectl tid c (rx_upd_chan c (\<lambda>_. ch) s))
     else rx_updateChannel ectl tid c (rx_upd_chan c (change_events op) s))"

section \<open>One round of the loop\<close>

type_synonym 'k rx_user = "chan_id \<Rightarrow> chan_cb \<Rightarrow> 'k reactor \<Rightarrow> (chan_op \<times> chan_id) list"

definition rx_invoke :: "'k epoll_ctl \<Rightarrow> int \<Rightarrow> 'k rx_user \<Rightarrow> chan_id \<Rightarrow> chan_cb \<Rightarrow> 'k reactor \<Rightarrow> 'k reactor result" where
  "rx_invoke ectl tid user c cb s =
     rfold (rx_op ectl tid) (user c cb s)
       (s\<lparr>rx_ran := rx_ran s @ [(c, cb)], rx_calls := rx_calls s @ user c cb s\<rparr>)"

text \<open>\<open>alive c\<close>: the owner of a tied channel still exists at its turn. \<open>is_set c\<close>: the callbacks installed.\<close>

definition rx_handle :: "'k epoll_ctl \<Rightarrow> int \<Rightarrow> 'k rx_user \<Rightarrow> (chan_id \<Rightarrow> bool) \<Rightarrow> (chan_id \<Rightarrow> chan_cb \<Rightarrow> bool) \<Rightarrow>
    chan_id \<Rightarrow> 'k reactor \<Rightarrow> 'k reactor result" where
  "rx_handle ectl tid user alive is_set c s =
     handleEvent (alive c) (\<lambda>s. rx_chan s c) (rx_upd_chan c) (is_set c) (rx_invoke ectl tid user c)
       (s\<lparr>currentActiveChannel := Some c\<rparr>)"

definition rx_round :: "'k epoll_ctl \<Rightarrow> int \<Rightarrow> 'k rx_user \<Rightarrow> (chan_id \<Rightarrow> bool) \<Rightarrow> (chan_id \<Rightarrow> chan_cb \<Rightarrow> bool) \<Rightarrow>
    (chan_id \<times> 32 word) wait_result \<Rightarrow> 'k reactor \<Rightarrow> 'k reactor result" where
  "rx_round ectl tid user alive is_set wr s =
     rbind (ep_poll wr (rx_ep s)) (\<lambda>(cs, e).
       rbind (rfold (rx_handle ectl tid user alive is_set) cs
               (s\<lparr>rx_ep := e, activeChannels := cs, rx_iteration := Suc (rx_iteration s), rx_eventHandling := True\<rparr>))
         (\<lambda>s'. Inr (s'\<lparr>currentActiveChannel := None, rx_eventHandling := False\<rparr>)))"

section \<open>Construction and destruction\<close>

text \<open>The loop's own channels: the timerfd of the timer queue and the eventfd.\<close>

definition rx_timer :: chan_id where "rx_timer = 0"

definition rx_wakeup :: chan_id where "rx_wakeup = 1"

definition rx_start :: "int \<Rightarrow> 'k \<Rightarrow> (chan_id \<Rightarrow> int) \<Rightarrow> (chan_id \<Rightarrow> bool) \<Rightarrow> 'k reactor" where
  "rx_start tid k fdof own = \<lparr>rx_threadId = tid, rx_owned = own,
     rx_ep = \<lparr>ep_chans = (\<lambda>c. Channel_ctor (fdof c)), ep_channels = (\<lambda>_. None), ep_events_size = kInitEventListSize, ep_kern = k\<rparr>,
     activeChannels = [], currentActiveChannel = None, rx_eventHandling = False, rx_iteration = 0, rx_ran = [], rx_calls = []\<rparr>"

text \<open>
  The constructor: the poller, the timer queue with its channel, the eventfd with its channel, the
  test for another loop of this thread. \<open>k\<close> is the new epoll instance, \<open>fdof\<close> the descriptor each
  channel of this loop has or will be constructed with.
\<close>

definition EventLoop_construct :: "'k epoll_ctl \<Rightarrow> int \<Rightarrow> bool \<Rightarrow> 'k \<Rightarrow> (chan_id \<Rightarrow> int) \<Rightarrow> (chan_id \<Rightarrow> bool) \<Rightarrow> 'k reactor result" where
  "EventLoop_construct ectl tid other k fdof own =
     (if fdof rx_timer < 0 then Inl Fatal
      else rbind (rx_op ectl tid (EnableReading, rx_timer) (rx_start tid k fdof own)) (\<lambda>s.
        if fdof rx_wakeup < 0 then Inl Fatal
        else if other then Inl Fatal
        else rx_op ectl tid (EnableReading, rx_wakeup) s))"

text \<open>A channel of the loop is disabled, removed and destroyed.\<close>

definition retire_channel :: "'k epoll_ctl \<Rightarrow> int \<Rightarrow> chan_id \<Rightarrow> 'k reactor \<Rightarrow> 'k reactor result" where
  "retire_channel ectl tid c s =
     rbind (rfold (rx_op ectl tid) [(DisableAll, c), (Remove, c)] s) (\<lambda>s1.
     rbind (Channel_dtor (tid = rx_threadId s1) (ep_hasChannel (rx_ep s1) c) (rx_chan s1 c)) (\<lambda>_. Inr s1))"

definition EventLoop_destruct :: "'k epoll_ctl \<Rightarrow> int \<Rightarrow> 'k reactor \<Rightarrow> 'k reactor result" where
  "EventLoop_destruct ectl tid s =
     rbind (retire_channel ectl tid rx_wakeup s) (retire_channel ectl tid rx_timer)"

section \<open>Trace output\<close>

definition flag_text :: "32 word \<Rightarrow> 32 word \<Rightarrow> string \<Rightarrow> string" where
  "flag_text ev m word = (if has_bits ev m then word else [])"

definition eventsToString :: "int \<Rightarrow> 32 word \<Rightarrow> string" where
  "eventsToString n ev = dec_int n @ '': '' @ flag_text ev POLLIN ''IN '' @ flag_text ev POLLPRI ''PRI '' @ flag_text ev POLLOUT ''OUT '' @
     flag_text ev POLLHUP ''HUP '' @ flag_text ev POLLRDHUP ''RDHUP '' @ flag_text ev POLLERR ''ERR '' @ flag_text ev POLLNVAL ''NVAL ''"

definition reventsToString :: "Channel \<Rightarrow> string" where
  "reventsToString ch = eventsToString (fd ch) (revents ch)"

text \<open>The trace lines, one for each active channel.\<close>

definition printActiveChannels :: "'k reactor \<Rightarrow> string list" where
  "printActiveChannels s = map (\<lambda>c. ''{ '' @ reventsToString (rx_chan s c) @ '' }'') (activeChannels s)"

section \<open>Specification\<close>

datatype reg = Absent | Parked | Watched "32 word"

fun reg_mask :: "reg \<Rightarrow> 32 word" where
  "reg_mask (Watched m) = m"
| "reg_mask _ = 0"

fun op_mask :: "chan_op \<Rightarrow> 32 word \<Rightarrow> 32 word" where
  "op_mask EnableReading m = m OR kReadEvent"
| "op_mask DisableReading m = m AND NOT kReadEvent"
| "op_mask EnableWriting m = m OR kWriteEvent"
| "op_mask DisableWriting m = m AND NOT kWriteEvent"
| "op_mask _ m = 0"

fun reg_set :: "32 word \<Rightarrow> reg \<Rightarrow> reg" where
  "reg_set ev (Watched m) = (if ev = 0 then Parked else Watched ev)"
| "reg_set ev _ = Watched ev"

definition reg_step :: "chan_op \<Rightarrow> reg \<Rightarrow> reg" where
  "reg_step op r = (if op = Remove then Absent else reg_set (op_mask op (reg_mask r)) r)"

type_synonym regs = "chan_id \<Rightarrow> reg"

definition spec_op :: "chan_op \<times> chan_id \<Rightarrow> regs \<Rightarrow> regs" where
  "spec_op x r = r(snd x := reg_step (fst x) (r (snd x)))"

text \<open>\<open>own\<close>: the channels of this loop, \<open>fdof\<close>: their descriptors, \<open>removable\<close>: not waiting for its turn.\<close>

definition spec_legal :: "(chan_id \<Rightarrow> bool) \<Rightarrow> (chan_id \<Rightarrow> int) \<Rightarrow> (chan_id \<Rightarrow> bool) \<Rightarrow> regs \<Rightarrow> chan_op \<times> chan_id \<Rightarrow> bool" where
  "spec_legal own fdof removable r x \<longleftrightarrow> own (snd x) \<and>
     (if fst x = Remove then r (snd x) \<in> {Parked, Watched 0} \<and> removable (snd x)
      else r (snd x) \<noteq> Absent \<or> (\<forall>d. r d \<noteq> Absent \<longrightarrow> fdof d \<noteq> fdof (snd x)))"

fun legal_calls :: "(chan_id \<Rightarrow> bool) \<Rightarrow> (chan_id \<Rightarrow> int) \<Rightarrow> (chan_id \<Rightarrow> bool) \<Rightarrow> (chan_op \<times> chan_id) list \<Rightarrow> regs \<Rightarrow> bool" where
  "legal_calls own fdof removable [] r \<longleftrightarrow> True"
| "legal_calls own fdof removable (x # xs) r \<longleftrightarrow>
     spec_legal own fdof removable r x \<and> legal_calls own fdof removable xs (spec_op x r)"

definition reg_of :: "Channel \<Rightarrow> reg" where
  "reg_of ch = (if index ch = kAdded then Watched (events ch) else if index ch = kDeleted then Parked else Absent)"

definition rx_regs :: "'k reactor \<Rightarrow> regs" where
  "rx_regs s c = reg_of (rx_chan s c)"

definition rx_fds :: "'k reactor \<Rightarrow> chan_id \<Rightarrow> int" where
  "rx_fds s c = fd (rx_chan s c)"

definition rx_removable :: "'k reactor \<Rightarrow> chan_id \<Rightarrow> bool" where
  "rx_removable s c \<longleftrightarrow> (rx_eventHandling s \<longrightarrow> currentActiveChannel s = Some c \<or> c \<notin> set (activeChannels s))"

definition rx_inv :: "('k \<Rightarrow> watch_set) \<Rightarrow> 'k reactor \<Rightarrow> bool" where
  "rx_inv interest s \<longleftrightarrow> ep_inv interest (rx_ep s) \<and>
     (\<forall>c. index (rx_chan s c) \<noteq> kAdded \<longrightarrow> events (rx_chan s c) = 0) \<and>
     (\<forall>c. rx_regs s c \<noteq> Absent \<longrightarrow> rx_owned s c) \<and> (\<forall>c. addedToLoop (rx_chan s c) \<longleftrightarrow> rx_regs s c \<noteq> Absent)"

text \<open>The channels that are in the middle of \<open>handleEvent\<close>.\<close>

definition rx_flags :: "'k reactor \<Rightarrow> chan_id \<Rightarrow> bool" where
  "rx_flags s c = eventHandling (rx_chan s c)"

text \<open>What no operation changes.\<close>

definition chan_same :: "Channel \<Rightarrow> Channel \<Rightarrow> bool" where
  "chan_same a b \<longleftrightarrow> fd a = fd b \<and> revents a = revents b \<and> tied a = tied b"

definition rx_frame :: "'k reactor \<Rightarrow> 'k reactor \<Rightarrow> bool" where
  "rx_frame s t \<longleftrightarrow> rx_threadId s = rx_threadId t \<and> rx_owned s = rx_owned t \<and> activeChannels s = activeChannels t \<and>
     rx_eventHandling s = rx_eventHandling t \<and> rx_iteration s = rx_iteration t \<and>
     ep_events_size (rx_ep s) = ep_events_size (rx_ep t) \<and> (\<forall>c. chan_same (rx_chan s c) (rx_chan t c))"

definition rx_same :: "'k reactor \<Rightarrow> 'k reactor \<Rightarrow> bool" where
  "rx_same s t \<longleftrightarrow> rx_frame s t \<and> currentActiveChannel s = currentActiveChannel t \<and> rx_ran s = rx_ran t \<and> rx_calls s = rx_calls t \<and>
     rx_flags s = rx_flags t"

text \<open>
  The callbacks follow the protocol: called in a consistent reactor with their channel the current
  one, they perform operations that are legal one after the other.
\<close>

definition rx_user_ok :: "('k \<Rightarrow> watch_set) \<Rightarrow> 'k rx_user \<Rightarrow> bool" where
  "rx_user_ok interest user \<longleftrightarrow> (\<forall>s c cb. rx_inv interest s \<and> rx_eventHandling s \<and> currentActiveChannel s = Some c \<longrightarrow>
     legal_calls (rx_owned s) (rx_fds s) (rx_removable s) (user c cb s) (rx_regs s))"

fun wr_events :: "'e wait_result \<Rightarrow> 'e list" where
  "wr_events (WaitErr e) = []"
| "wr_events (WaitOk es) = es"

text \<open>What \<^verbatim>\<open>epoll_wait(2)\<close> may report: descriptors it was asked to watch, each once, as many as fit.\<close>

definition epoll_report :: "('k \<Rightarrow> watch_set) \<Rightarrow> 'k reactor \<Rightarrow> (chan_id \<times> 32 word) list \<Rightarrow> bool" where
  "epoll_report interest s es \<longleftrightarrow> distinct (map fst es) \<and> length es \<le> ep_events_size (rx_ep s) \<and>
     (\<forall>(c, ev) \<in> set es. \<exists>m. interest (ep_kern (rx_ep s)) (rx_fds s c) = Some (m, c))"

text \<open>The callbacks a channel runs for the events \<open>ev\<close>.\<close>

definition rx_cbs :: "(chan_id \<Rightarrow> bool) \<Rightarrow> (chan_id \<Rightarrow> chan_cb \<Rightarrow> bool) \<Rightarrow> Channel \<Rightarrow> chan_id \<Rightarrow> 32 word \<Rightarrow> (chan_id \<times> chan_cb) list" where
  "rx_cbs alive is_set ch c ev = map (Pair c) (if tied ch \<and> \<not> alive c then [] else filter (is_set c) (dispatch ev))"

text \<open>
  From \<open>s\<close> to \<open>t\<close> the callbacks \<open>cbs\<close> were run, their operations took the registrations from
  those of \<open>s\<close> to those of \<open>t\<close>, and no channel of \<open>A\<close> was removed.
\<close>

definition rx_evolves :: "('k \<Rightarrow> watch_set) \<Rightarrow> chan_id set \<Rightarrow> 'k reactor \<Rightarrow> 'k reactor \<Rightarrow> (chan_id \<times> chan_cb) list \<Rightarrow> bool" where
  "rx_evolves interest A s t cbs \<longleftrightarrow> rx_inv interest t \<and> rx_frame s t \<and> rx_ran t = rx_ran s @ cbs \<and>
     (\<exists>calls. rx_calls t = rx_calls s @ calls \<and> rx_regs t = fold spec_op calls (rx_regs s)) \<and>
     (\<forall>d \<in> A. rx_regs s d \<noteq> Absent \<longrightarrow> rx_regs t d \<noteq> Absent)"

section \<open>Runs\<close>

definition rx_init :: "'k epoll_ctl \<Rightarrow> ('k \<Rightarrow> watch_set) \<Rightarrow> 'k reactor \<Rightarrow> bool" where
  "rx_init ectl interest s \<longleftrightarrow> (\<exists>tid k fdof own. EventLoop_construct ectl tid False k fdof own = Inr s \<and> interest k = (\<lambda>_. None))"

text \<open>Between rounds the loop thread may call operations on channels (functors do); a round follows the protocol.\<close>

inductive rx_step :: "'k epoll_ctl \<Rightarrow> ('k \<Rightarrow> watch_set) \<Rightarrow> 'k reactor \<Rightarrow> 'k reactor \<Rightarrow> bool" for ectl interest where
  rx_call: "rx_op ectl (rx_threadId s) x s = Inr s' \<Longrightarrow> rx_step ectl interest s s'"
| rx_loop: "rx_user_ok interest user \<Longrightarrow> epoll_report interest s (wr_events wr) \<Longrightarrow>
    rx_round ectl (rx_threadId s) user alive is_set wr s = Inr s' \<Longrightarrow> rx_step ectl interest s s'"

inductive_cases rx_stepE: "rx_step ectl interest s s'"

definition rx_idle :: "('k \<Rightarrow> watch_set) \<Rightarrow> 'k reactor \<Rightarrow> bool" where
  "rx_idle interest s \<longleftrightarrow> rx_inv interest s \<and> \<not> rx_eventHandling s \<and> currentActiveChannel s = None \<and> rx_flags s = (\<lambda>_. False)"

text \<open>Callbacks that follow the protocol: reading starts writing, closing removes the channel.\<close>

definition demo_user :: "'k rx_user" where
  "demo_user c cb s =
     (if rx_regs s c = Absent then []
      else case cb of ReadCallback \<Rightarrow> [(EnableWriting, c)] | CloseCallback \<Rightarrow> [(DisableAll, c), (Remove, c)] | _ \<Rightarrow> [])"

section \<open>The poller under one operation\<close>

lemma reg_of_cases: "index ch \<in> {kNew, kAdded, kDeleted} \<Longrightarrow> (reg_of ch = Absent \<longleftrightarrow> index ch = kNew)"
  by (auto simp: reg_of_def ep_index_defs)

lemma ep_wf_index: "ep_wf e \<Longrightarrow> index (ep_chans e c) \<in> {kNew, kAdded, kDeleted}"
  unfolding ep_wf_def by (metis insert_iff)

lemma rbind_return [simp]: "rbind m Inr = m"
  by (cases m) simp_all

lemma new_index: "kAdded \<noteq> kNew" "kDeleted \<noteq> kNew" "kAdded \<noteq> kDeleted"
  by (simp_all add: ep_index_defs)

lemma ep_wf_absent:
  assumes "ep_wf e"
  shows "reg_of (ep_chans e c) = Absent \<longleftrightarrow> ep_channels e (fd (ep_chans e c)) \<noteq> Some c"
proof -
  have "index (ep_chans e c) \<noteq> kNew \<longleftrightarrow> ep_channels e (fd (ep_chans e c)) = Some c"
    using assms ep_wf_known [OF assms, of "fd (ep_chans e c)" c] new_index unfolding ep_wf_def by metis
  then show ?thesis using reg_of_cases [OF ep_wf_index [OF assms, of c]] by blast
qed

text \<open>No registered channel has the descriptor: the map of the poller has no entry for it.\<close>

lemma ep_wf_free:
  assumes "ep_wf e"
  shows "(\<forall>d. reg_of (ep_chans e d) \<noteq> Absent \<longrightarrow> fd (ep_chans e d) \<noteq> n) \<longleftrightarrow> ep_channels e n = None"
  using assms ep_wf_absent [OF assms] ep_wf_known [OF assms] by (metis option.exhaust option.distinct(1))

context epoll_kernel
begin

lemma ep_set_effect:
  fixes ev :: "32 word"
  assumes inv: "ep_inv interest e" and ch: "ch = ep_chans e c"
    and reg: "reg_of ch \<noteq> Absent \<or> ep_channels e (fd ch) = None"
  defines "ch' \<equiv> ch\<lparr>events := ev, addedToLoop := True, index := (if index ch = kAdded \<and> ev = 0 then kDeleted else kAdded)\<rparr>"
  shows "\<exists>e'. ep_set_events ectl ev c e = Inr e' \<and> ep_inv interest e' \<and> ep_chans e' = (ep_chans e)(c := ch') \<and>
    ep_events_size e' = ep_events_size e"
proof -
  let ?n = "fd ch" and ?del = "index ch = kAdded \<and> ev = 0"
  have wf: "ep_wf e" and int: "interest (ep_kern e) = ep_view e"
    using inv by (simp_all add: ep_inv_def)
  let ?op = "if index ch = kAdded then if ev = 0 then EPOLL_CTL_DEL else EPOLL_CTL_MOD else EPOLL_CTL_ADD"
  define s1 where "s1 = ep_upd_chan c (\<lambda>ch. ch\<lparr>events := ev, addedToLoop := True, index := kAdded\<rparr>)
    (e\<lparr>ep_channels := (ep_channels e)(?n \<mapsto> c)\<rparr>)"
  have chan: "fd (ep_chans s1 c) = ?n" "events (ep_chans s1 c) = ev" "ep_kern s1 = ep_kern e"
    by (simp_all add: s1_def ep_upd_chan_def ch)
  have idx: "index ch = kNew \<and> ep_channels e ?n = None \<or> index ch \<in> {kAdded, kDeleted} \<and> ep_channels e ?n = Some c"
    using ep_wf_index [OF wf, of c] ep_wf_absent [OF wf, of c] reg reg_of_cases [of ch] by (auto simp: ch)
  have view: "ep_view e ?n = None \<longleftrightarrow> ?op = EPOLL_CTL_ADD"
    using idx by (auto simp: ep_view_def ep_index_defs ch)
  let ?fin = "\<lambda>t. if ?del then ep_upd_chan c (\<lambda>ch. ch\<lparr>index := kDeleted\<rparr>) t else t"
  have call: "ep_set_events ectl ev c e = rbind (ep_update ectl ?op c s1) (\<lambda>t. Inr (?fin t))"
  proof (cases "index ch = kNew")
    case False
    then have has: "ep_channels e ?n = Some c" using idx by auto
    then have "(ep_channels e)(fd (ep_chans e c) \<mapsto> c) = ep_channels e" by (auto simp: ch)
    then have upd: "e\<lparr>ep_channels := (ep_channels e)(fd (ep_chans e c) \<mapsto> c)\<rparr> = e" by simp
    consider "index (ep_chans e c) = kAdded" "ev = 0" | "index (ep_chans e c) = kAdded" "ev \<noteq> 0" | "index (ep_chans e c) = kDeleted"
      using False idx by (auto simp: ch)
    then show ?thesis
      using has unfolding s1_def ch upd
      by cases (simp_all add: ep_set_events_def ep_updateChannel_def ep_simps set_index_idem rbind_return new_index new_index [symmetric])
  qed (use idx in \<open>auto simp: s1_def ch ep_set_events_def ep_updateChannel_def ep_simps rbind_return new_index new_index [symmetric]\<close>)
  from update_ok [of ?op s1 c] int view chan obtain k
    where k: "ep_update ectl ?op c s1 = Inr (s1\<lparr>ep_kern := k\<rparr>)"
      "interest k = (ep_view e)(?n := (if ?del then None else Some (ev, c)))" by (auto simp del: fun_upd_apply split: if_splits)
  let ?t = "?fin (s1\<lparr>ep_kern := k\<rparr>)"
  have t: "ep_channels ?t = (ep_channels e)(?n := Some c)" "ep_chans ?t = (ep_chans e)(c := ch')" "ep_kern ?t = k"
    "ep_events_size ?t = ep_events_size e"
    "index ch' \<noteq> kNew" "index ch' \<in> {kNew, kAdded, kDeleted}" "index ch' = kAdded \<longleftrightarrow> \<not> ?del" "fd ch' = ?n" "events ch' = ev"
    by (auto simp: s1_def ch'_def ep_upd_chan_def ep_index_defs ch)
  have slot: "ep_channels e (fd (ep_chans e c)) \<in> {None, Some c}" using idx by (auto simp: ch)
  have t': "ep_channels ?t = (ep_channels e)(fd (ep_chans e c) := (if index ch' = kNew then None else Some c))" "fd ch' = fd (ep_chans e c)"
    using t(1,5,8) by (simp_all add: ch)
  note entry = ep_entry(1,3) [OF wf slot t'(1) t(2) t'(2) t(6)]
  have "ep_inv interest ?t"
    using entry k(2) t(3,7,9) by (simp add: ep_inv_def ch)
  then show ?thesis using call k(1) t(2,4) by auto
qed

lemma ep_remove_effect:
  assumes inv: "ep_inv interest e" and ch: "ch = ep_chans e c"
    and reg: "reg_of ch \<noteq> Absent" "events ch = 0"
  shows "\<exists>e'. ep_remove ectl c e = Inr e' \<and> ep_inv interest e' \<and>
    ep_chans e' = (ep_chans e)(c := ch\<lparr>addedToLoop := False, index := kNew\<rparr>) \<and> ep_events_size e' = ep_events_size e"
proof -
  let ?n = "fd ch" and ?ch = "ch\<lparr>addedToLoop := False, index := kNew\<rparr>"
  have wf: "ep_wf e" and int: "interest (ep_kern e) = ep_view e"
    using inv by (simp_all add: ep_inv_def)
  have idx: "index ch \<in> {kAdded, kDeleted}" "ep_channels e ?n = Some c"
    using ep_wf_index [OF wf, of c] ep_wf_absent [OF wf, of c] reg(1) reg_of_cases [of ch] by (auto simp: ch)
  define s1 where "s1 = (ep_upd_chan c (\<lambda>_. ch\<lparr>addedToLoop := False\<rparr>) e)\<lparr>ep_channels := (ep_channels e)(?n := None)\<rparr>"
  have chan: "fd (ep_chans s1 c) = ?n" "ep_kern s1 = ep_kern e"
    by (simp_all add: s1_def ep_upd_chan_def)
  have view: "ep_view e ?n \<noteq> None \<longleftrightarrow> index ch = kAdded" using idx by (auto simp: ep_view_def ch)
  obtain k where k: "(if index ch = kAdded then ep_update ectl EPOLL_CTL_DEL c s1 else Inr s1) = Inr (s1\<lparr>ep_kern := k\<rparr>)"
      "interest k = (ep_view e)(?n := None)"
  proof (cases "index ch = kAdded")
    case True
    with update_ok [of EPOLL_CTL_DEL s1 c] int view chan that show ?thesis by auto
  next
    case False
    then have "ep_view e ?n = None" using view by blast
    then have "(ep_view e)(?n := None) = ep_view e" by (rule fun_upd_idem)
    with False int chan that [of "ep_kern e"] show ?thesis by (simp add: s1_def ep_upd_chan_def)
  qed
  let ?t = "ep_upd_chan c (\<lambda>ch. ch\<lparr>index := kNew\<rparr>) (s1\<lparr>ep_kern := k\<rparr>)"
  have body: "ep_remove ectl c e =
      rbind (if index ch = kAdded then ep_update ectl EPOLL_CTL_DEL c s1 else Inr s1) (\<lambda>t. Inr (ep_upd_chan c (\<lambda>ch. ch\<lparr>index := kNew\<rparr>) t))"
    using idx reg(2) by (simp add: ep_remove_def ep_removeChannel_def Channel_remove_def s1_def ep_simps ch c_assert_def)
  have call: "ep_remove ectl c e = Inr ?t" unfolding body k(1) by simp
  have t: "ep_channels ?t = (ep_channels e)(?n := None)" "ep_chans ?t = (ep_chans e)(c := ?ch)" "ep_kern ?t = k"
    "ep_events_size ?t = ep_events_size e"
    by (simp_all add: s1_def ep_upd_chan_def)
  have slot: "ep_channels e (fd (ep_chans e c)) \<in> {None, Some c}" using idx by (simp add: ch)
  have t': "ep_channels ?t = (ep_channels e)(fd (ep_chans e c) := (if index ?ch = kNew then None else Some c))"
    "fd ?ch = fd (ep_chans e c)" "index ?ch \<in> {kNew, kAdded, kDeleted}"
    using t(1) by (simp_all add: ch)
  note entry = ep_entry(1,3) [OF wf slot t'(1) t(2) t'(2,3)]
  have "ep_inv interest ?t" using entry k(2) t(3) by (simp add: ep_inv_def ch ep_index_defs)
  then show ?thesis using call t(2,4) by auto
qed

end

section \<open>One operation of the reactor\<close>

lemma change_events_mask: "op \<noteq> Remove \<Longrightarrow> change_events op ch = Channel_set_events (op_mask op (events ch)) ch"
  by (cases op) (simp_all add: channel_ops kNoneEvent_def)

lemma rx_op_set:
  "op \<noteq> Remove \<Longrightarrow> rx_op ectl tid (op, c) s =
     c_assert (rx_owned s c) (assertInLoopThread (tid = rx_threadId s) (
       rbind (ep_set_events ectl (op_mask op (events (rx_chan s c))) c (rx_ep s)) (\<lambda>e. Inr (s\<lparr>rx_ep := e\<rparr>))))"
  by (simp add: rx_op_def rx_updateChannel_def rx_upd_chan_def ep_set_events_def ep_upd_chan_def change_events_mask)

lemma rx_op_remove:
  "tid = rx_threadId s \<Longrightarrow> rx_op ectl tid (Remove, c) s =
     c_assert (events (rx_chan s c) = 0 \<and> rx_owned s c \<and> rx_removable s c) (
       rbind (ep_remove ectl c (rx_ep s)) (\<lambda>e. Inr (s\<lparr>rx_ep := e\<rparr>)))"
  by (auto simp: rx_op_def rx_removeChannel_def rx_upd_chan_def ep_remove_def Channel_remove_def isNoneEvent_def kNoneEvent_def
      assertInLoopThread_def rx_removable_def c_assert_def)

lemma rx_mask: "rx_inv interest s \<Longrightarrow> reg_mask (rx_regs s c) = events (rx_chan s c)"
  by (auto simp: rx_inv_def rx_regs_def reg_of_def)

lemma reg_of_set:
  "reg_of (ch\<lparr>events := ev, addedToLoop := b, index := (if index ch = kAdded \<and> ev = 0 then kDeleted else kAdded)\<rparr>) = reg_set ev (reg_of ch)"
  using new_index by (auto simp: reg_of_def)

text \<open>Replacing the channel of an owned id keeps the invariant, if the poller does and an unwatched channel has no mask.\<close>

lemma rx_inv_replace:
  assumes "rx_inv interest s" "ep_inv interest e" "ep_chans e = (ep_chans (rx_ep s))(c := ch)" "rx_owned s c"
    "index ch \<noteq> kAdded \<longrightarrow> events ch = 0" "chan_same (rx_chan s c) ch" "eventHandling ch = eventHandling (rx_chan s c)"
    "addedToLoop ch \<longleftrightarrow> reg_of ch \<noteq> Absent" "ep_events_size e = ep_events_size (rx_ep s)"
  shows "rx_inv interest (s\<lparr>rx_ep := e\<rparr>)" and "rx_regs (s\<lparr>rx_ep := e\<rparr>) = (rx_regs s)(c := reg_of ch)" and "rx_same s (s\<lparr>rx_ep := e\<rparr>)"
proof -
  show regs: "rx_regs (s\<lparr>rx_ep := e\<rparr>) = (rx_regs s)(c := reg_of ch)"
    by (rule ext) (simp add: rx_regs_def assms(3))
  have "\<forall>d. rx_regs (s\<lparr>rx_ep := e\<rparr>) d \<noteq> Absent \<longrightarrow> rx_owned s d"
    unfolding regs using assms(1,4) by (simp add: rx_inv_def)
  moreover have "\<forall>d. addedToLoop (ep_chans e d) \<longleftrightarrow> rx_regs (s\<lparr>rx_ep := e\<rparr>) d \<noteq> Absent"
    unfolding regs using assms(1,3,8) by (simp add: rx_inv_def)
  ultimately show "rx_inv interest (s\<lparr>rx_ep := e\<rparr>)"
    using assms(1-3,5) by (simp add: rx_inv_def)
  show "rx_same s (s\<lparr>rx_ep := e\<rparr>)"
    using assms(3,6,7,9) by (auto simp: rx_same_def rx_frame_def chan_same_def rx_flags_def fun_eq_iff)
qed

context epoll_kernel
begin

lemma rx_set_ok:
  assumes inv: "rx_inv interest s" and tid: "tid = rx_threadId s" and op: "op \<noteq> Remove"
    and legal: "spec_legal (rx_owned s) (rx_fds s) (rx_removable s) (rx_regs s) (op, c)"
  shows "\<exists>s'. rx_op ectl tid (op, c) s = Inr s' \<and> rx_inv interest s' \<and> rx_regs s' = spec_op (op, c) (rx_regs s) \<and> rx_same s s'"
proof -
  let ?ch = "rx_chan s c" and ?ev = "op_mask op (events (rx_chan s c))"
  let ?ch' = "?ch\<lparr>events := ?ev, addedToLoop := True, index := (if index ?ch = kAdded \<and> ?ev = 0 then kDeleted else kAdded)\<rparr>"
  have ep: "ep_inv interest (rx_ep s)" and wf: "ep_wf (rx_ep s)" using inv by (simp_all add: rx_inv_def ep_inv_def)
  have own: "rx_owned s c" using legal by (simp add: spec_legal_def)
  have "reg_of ?ch \<noteq> Absent \<or> ep_channels (rx_ep s) (fd ?ch) = None"
    using legal op ep_wf_free [OF wf, of "fd ?ch"] by (simp add: spec_legal_def rx_regs_def rx_fds_def)
  from ep_set_effect [OF ep refl this, of ?ev] obtain e
    where e: "ep_set_events ectl ?ev c (rx_ep s) = Inr e" "ep_inv interest e" "ep_chans e = (ep_chans (rx_ep s))(c := ?ch')"
      "ep_events_size e = ep_events_size (rx_ep s)" by blast
  have mask: "index ?ch' \<noteq> kAdded \<longrightarrow> events ?ch' = 0" and same: "chan_same ?ch ?ch'" "eventHandling ?ch' = eventHandling ?ch"
    by (simp_all add: chan_same_def)
  have "reg_set ?ev (reg_of ?ch) \<noteq> Absent" by (cases "reg_of ?ch") simp_all
  then have added: "addedToLoop ?ch' \<longleftrightarrow> reg_of ?ch' \<noteq> Absent" unfolding reg_of_set by simp
  note upd = rx_inv_replace [OF inv e(2,3) own mask same added e(4)]
  have "rx_regs (s\<lparr>rx_ep := e\<rparr>) = spec_op (op, c) (rx_regs s)"
    unfolding upd(2) reg_of_set spec_op_def reg_step_def using op rx_mask [OF inv, of c] by (simp add: rx_regs_def)
  with upd e(1) own tid show ?thesis
    by (simp add: rx_op_set [OF op] assertInLoopThread_def c_assert_holds)
qed

lemma rx_remove_ok:
  assumes inv: "rx_inv interest s" and tid: "tid = rx_threadId s"
    and legal: "spec_legal (rx_owned s) (rx_fds s) (rx_removable s) (rx_regs s) (Remove, c)"
  shows "\<exists>s'. rx_op ectl tid (Remove, c) s = Inr s' \<and> rx_inv interest s' \<and> rx_regs s' = spec_op (Remove, c) (rx_regs s) \<and> rx_same s s'"
proof -
  let ?ch = "rx_chan s c"
  let ?ch' = "?ch\<lparr>addedToLoop := False, index := kNew\<rparr>"
  have ep: "ep_inv interest (rx_ep s)" using inv by (simp add: rx_inv_def)
  have own: "rx_owned s c" "rx_removable s c" "rx_regs s c \<in> {Parked, Watched 0}"
    using legal by (simp_all add: spec_legal_def)
  then have ev: "events ?ch = 0" "reg_of ?ch \<noteq> Absent" using rx_mask [OF inv, of c] by (auto simp: rx_regs_def)
  from ep_remove_effect [OF ep refl ev(2,1)] obtain e
    where e: "ep_remove ectl c (rx_ep s) = Inr e" "ep_inv interest e" "ep_chans e = (ep_chans (rx_ep s))(c := ?ch')"
      "ep_events_size e = ep_events_size (rx_ep s)" by blast
  have mask: "index ?ch' \<noteq> kAdded \<longrightarrow> events ?ch' = 0" and same: "chan_same ?ch ?ch'" "eventHandling ?ch' = eventHandling ?ch"
    using ev by (simp_all add: chan_same_def)
  have absent: "reg_of ?ch' = Absent" using new_index by (simp add: reg_of_def)
  then have "addedToLoop ?ch' \<longleftrightarrow> reg_of ?ch' \<noteq> Absent" by simp
  note upd = rx_inv_replace [OF inv e(2,3) own(1) mask same this e(4)]
  from absent upd(2) have "rx_regs (s\<lparr>rx_ep := e\<rparr>) = spec_op (Remove, c) (rx_regs s)" by (simp add: spec_op_def reg_step_def)
  with upd e(1) own ev tid show ?thesis by (simp add: rx_op_remove c_assert_holds)
qed

lemma rx_op_ok:
  "rx_inv interest s \<Longrightarrow> tid = rx_threadId s \<Longrightarrow> spec_legal (rx_owned s) (rx_fds s) (rx_removable s) (rx_regs s) x \<Longrightarrow>
     \<exists>s'. rx_op ectl tid x s = Inr s' \<and> rx_inv interest s' \<and> rx_regs s' = spec_op x (rx_regs s) \<and> rx_same s s'"
  using rx_set_ok rx_remove_ok by (cases x; cases "fst x = Remove") fastforce+

text \<open>An operation the protocol forbids fails an assertion: it never corrupts the poller.\<close>

lemma rx_op_illegal:
  assumes inv: "rx_inv interest s" and tid: "tid = rx_threadId s"
    and bad: "\<not> spec_legal (rx_owned s) (rx_fds s) (rx_removable s) (rx_regs s) (op, c)"
  shows "rx_op ectl tid (op, c) s = Inl AssertFailed"
proof (cases "op = Remove")
  case True
  let ?ch = "rx_chan s c"
  have wf: "ep_wf (rx_ep s)" using inv by (simp add: rx_inv_def ep_inv_def)
  have "\<not> rx_owned s c \<or> \<not> rx_removable s c \<or> rx_regs s c \<notin> {Parked, Watched 0}"
    using bad True by (auto simp: spec_legal_def)
  moreover have "reg_of ?ch = Absent \<longrightarrow> ep_remove ectl c (rx_ep s) = Inl AssertFailed \<or> events ?ch \<noteq> 0"
    using ep_wf_absent [OF wf, of c]
    by (auto simp: ep_remove_def ep_removeChannel_def Channel_remove_def ep_simps c_assert_def)
  moreover have "rx_regs s c \<notin> {Parked, Watched 0} \<longrightarrow> reg_of ?ch = Absent \<or> events ?ch \<noteq> 0"
    by (auto simp: rx_regs_def reg_of_def)
  ultimately show ?thesis
    unfolding True rx_op_remove [OF tid] by (auto simp: c_assert_def)
next
  case False
  have wf: "ep_wf (rx_ep s)" using inv by (simp add: rx_inv_def ep_inv_def)
  consider "\<not> rx_owned s c" | "rx_owned s c" "rx_regs s c = Absent" "ep_channels (rx_ep s) (fd (rx_chan s c)) \<noteq> None"
    using bad False ep_wf_free [OF wf, of "fd (rx_chan s c)"] by (auto simp: spec_legal_def rx_regs_def rx_fds_def)
  then show ?thesis
  proof cases
    case 2
    then have "index (rx_chan s c) = kNew"
      using reg_of_cases [OF ep_wf_index [OF wf, of c]] by (simp add: rx_regs_def)
    then have "ep_set_events ectl ev c (rx_ep s) = Inl AssertFailed" for ev
      using 2 by (simp add: ep_set_events_def ep_updateChannel_def ep_simps)
    with 2 tid show ?thesis by (simp add: rx_op_set [OF False] assertInLoopThread_def c_assert_def)
  qed (simp add: rx_op_set [OF False])
qed

end

section \<open>Sequences of operations\<close>

lemma rx_frame_refl [simp]: "rx_frame s s"
  by (simp add: rx_frame_def chan_same_def)

lemma rx_frame_trans: "rx_frame s t \<Longrightarrow> rx_frame t u \<Longrightarrow> rx_frame s u"
  by (simp add: rx_frame_def chan_same_def)

lemma rx_same_trans: "rx_same s t \<Longrightarrow> rx_same t u \<Longrightarrow> rx_same s u"
  using rx_frame_trans by (fastforce simp: rx_same_def)

lemma rx_frame_fds: "rx_frame s t \<Longrightarrow> rx_fds t = rx_fds s \<and> rx_owned t = rx_owned s"
  by (auto simp: rx_frame_def rx_fds_def chan_same_def)

lemma rx_same_removable: "rx_same s t \<Longrightarrow> rx_removable t = rx_removable s"
  by (auto simp: rx_same_def rx_frame_def rx_removable_def)

lemma legal_calls_keep:
  "legal_calls own fdof removable xs r \<Longrightarrow> \<not> removable d \<Longrightarrow> r d \<noteq> Absent \<Longrightarrow> fold spec_op xs r d \<noteq> Absent"
proof (induction xs arbitrary: r)
  case (Cons x xs)
  have "reg_set ev q \<noteq> Absent" for ev q by (cases q) auto
  then have "spec_op x r d \<noteq> Absent" using Cons.prems by (auto simp: spec_op_def reg_step_def spec_legal_def)
  with Cons show ?case by simp
qed simp

lemma rx_evolves_refl: "rx_inv interest s \<Longrightarrow> rx_evolves interest A s s []"
  by (simp add: rx_evolves_def)

lemma rx_evolves_trans:
  assumes "rx_evolves interest A s t xs" "rx_evolves interest A' t u ys" "B \<subseteq> A" "B \<subseteq> A'"
  shows "rx_evolves interest B s u (xs @ ys)"
proof -
  from assms(1,2) obtain cs ds where "rx_calls t = rx_calls s @ cs" "rx_regs t = fold spec_op cs (rx_regs s)"
    "rx_calls u = rx_calls t @ ds" "rx_regs u = fold spec_op ds (rx_regs t)" by (auto simp: rx_evolves_def)
  then have "\<exists>calls. rx_calls u = rx_calls s @ calls \<and> rx_regs u = fold spec_op calls (rx_regs s)"
    by (intro exI [of _ "cs @ ds"]) simp
  with assms show ?thesis by (auto simp: rx_evolves_def intro: rx_frame_trans)
qed

text \<open>Fields of a channel the poller does not look at.\<close>

lemma ep_inv_cong:
  assumes "ep_channels e' = ep_channels e" "ep_kern e' = ep_kern e"
    and "\<And>c. fd (ep_chans e' c) = fd (ep_chans e c) \<and> index (ep_chans e' c) = index (ep_chans e c) \<and> events (ep_chans e' c) = events (ep_chans e c)"
  shows "ep_inv interest e' \<longleftrightarrow> ep_inv interest e"
proof -
  have "ep_view e' = ep_view e" using assms by (intro ext) (simp add: ep_view_def split: option.split)
  moreover have "ep_wf e' = ep_wf e" using assms by (simp add: ep_wf_def)
  ultimately show ?thesis using assms(2) by (simp add: ep_inv_def)
qed

lemma rx_inv_cong:
  assumes "ep_channels (rx_ep t) = ep_channels (rx_ep s)" "ep_kern (rx_ep t) = ep_kern (rx_ep s)" "rx_owned t = rx_owned s"
    and "\<And>c. addedToLoop (rx_chan t c) = addedToLoop (rx_chan s c) \<and> fd (rx_chan t c) = fd (rx_chan s c) \<and> index (rx_chan t c) = index (rx_chan s c) \<and> events (rx_chan t c) = events (rx_chan s c)"
  shows "rx_inv interest t \<longleftrightarrow> rx_inv interest s" and "rx_regs t = rx_regs s"
proof -
  show "rx_regs t = rx_regs s" using assms(4) by (intro ext) (simp add: rx_regs_def reg_of_def)
  then show "rx_inv interest t \<longleftrightarrow> rx_inv interest s"
    using assms ep_inv_cong [of "rx_ep t" "rx_ep s" interest] by (simp add: rx_inv_def)
qed

lemma rx_handling_flag:
  assumes "rx_inv interest s"
  shows "rx_evolves interest A s (rx_upd_chan c (\<lambda>ch. ch\<lparr>eventHandling := b\<rparr>) s) []"
proof -
  let ?t = "rx_upd_chan c (\<lambda>ch. ch\<lparr>eventHandling := b\<rparr>) s"
  have "rx_inv interest ?t = rx_inv interest s" "rx_regs ?t = rx_regs s"
    by (rule rx_inv_cong; simp add: rx_upd_chan_def ep_upd_chan_def)+
  moreover have "rx_frame s ?t" by (simp add: rx_frame_def rx_upd_chan_def ep_upd_chan_def chan_same_def)
  ultimately show ?thesis using assms by (simp add: rx_evolves_def rx_upd_chan_def)
qed

lemma rx_flags_upd: "rx_flags (rx_upd_chan c (\<lambda>ch. ch\<lparr>eventHandling := b\<rparr>) s) = (rx_flags s)(c := b)"
  by (rule ext) (simp add: rx_flags_def rx_upd_chan_def ep_upd_chan_def)

lemma rx_upd_chan_simps [simp]:
  "currentActiveChannel (rx_upd_chan c f s) = currentActiveChannel s" "rx_eventHandling (rx_upd_chan c f s) = rx_eventHandling s"
  "rx_threadId (rx_upd_chan c f s) = rx_threadId s"
  by (simp_all add: rx_upd_chan_def)

lemma rx_regs_fields [simp]:
  "rx_regs (s\<lparr>rx_ran := r, rx_calls := q\<rparr>) = rx_regs s" "rx_regs (s\<lparr>currentActiveChannel := p\<rparr>) = rx_regs s"
  "rx_inv interest (s\<lparr>rx_ran := r, rx_calls := q\<rparr>) = rx_inv interest s"
  "rx_inv interest (s\<lparr>currentActiveChannel := p\<rparr>) = rx_inv interest s"
  "rx_fds (s\<lparr>rx_ran := r, rx_calls := q\<rparr>) = rx_fds s" "rx_removable (s\<lparr>rx_ran := r, rx_calls := q\<rparr>) = rx_removable s"
  "rx_flags (s\<lparr>rx_ran := r, rx_calls := q\<rparr>) = rx_flags s" "rx_flags (s\<lparr>currentActiveChannel := p\<rparr>) = rx_flags s"
  by (auto simp: rx_flags_def rx_regs_def rx_inv_def rx_fds_def rx_removable_def)

context epoll_kernel
begin

lemma rx_calls_ok:
  assumes "rx_inv interest s" "tid = rx_threadId s" "legal_calls (rx_owned s) (rx_fds s) (rx_removable s) xs (rx_regs s)"
  shows "\<exists>s'. rfold (rx_op ectl tid) xs s = Inr s' \<and> rx_inv interest s' \<and> rx_regs s' = fold spec_op xs (rx_regs s) \<and> rx_same s s'"
  using assms
proof (induction xs arbitrary: s)
  case Nil
  then show ?case by (simp add: rx_same_def)
next
  case (Cons x xs)
  from Cons.prems rx_op_ok [of s tid x] obtain t
    where t: "rx_op ectl tid x s = Inr t" "rx_inv interest t" "rx_regs t = spec_op x (rx_regs s)" "rx_same s t" by auto
  have fr: "rx_frame s t" using t(4) by (simp add: rx_same_def)
  have "tid = rx_threadId t" "legal_calls (rx_owned t) (rx_fds t) (rx_removable t) xs (rx_regs t)"
    using Cons.prems t(3) rx_frame_fds [OF fr] rx_same_removable [OF t(4)] fr by (simp_all add: rx_frame_def)
  from Cons.IH [OF t(2) this] obtain u
    where "rfold (rx_op ectl tid) xs t = Inr u" "rx_inv interest u" "rx_regs u = fold spec_op xs (rx_regs t)" "rx_same t u" by blast
  with t rx_same_trans [OF t(4)] show ?case by auto
qed

lemma rx_invoke_ok:
  assumes inv: "rx_inv interest s" and tid: "tid = rx_threadId s" and user: "rx_user_ok interest user"
    and cur: "rx_eventHandling s" "currentActiveChannel s = Some c"
  shows "\<exists>s'. rx_invoke ectl tid user c cb s = Inr s' \<and> currentActiveChannel s' = Some c \<and> rx_flags s' = rx_flags s \<and>
    rx_evolves interest (set (activeChannels s) - {c}) s s' [(c, cb)]"
proof -
  let ?xs = "user c cb s"
  let ?s = "s\<lparr>rx_ran := rx_ran s @ [(c, cb)], rx_calls := rx_calls s @ ?xs\<rparr>"
  have legal: "legal_calls (rx_owned s) (rx_fds s) (rx_removable s) ?xs (rx_regs s)"
    using user inv cur by (simp add: rx_user_ok_def)
  from rx_calls_ok [of ?s tid ?xs] legal inv tid obtain t
    where t: "rfold (rx_op ectl tid) ?xs ?s = Inr t" "rx_inv interest t" "rx_regs t = fold spec_op ?xs (rx_regs s)" "rx_same ?s t" by auto
  have "rx_regs t d \<noteq> Absent" if "d \<in> set (activeChannels s) - {c}" "rx_regs s d \<noteq> Absent" for d
    using legal_calls_keep [OF legal, of d] that cur unfolding t(3) by (auto simp: rx_removable_def)
  moreover have "rx_frame s t" using t(4) by (simp add: rx_same_def rx_frame_def)
  moreover have "\<exists>calls. rx_calls t = rx_calls s @ calls \<and> rx_regs t = fold spec_op calls (rx_regs s)"
    using t(3,4) by (intro exI [of _ ?xs]) (simp add: rx_same_def)
  ultimately have "rx_evolves interest (set (activeChannels s) - {c}) s t [(c, cb)]"
    using t(2,4) by (simp add: rx_evolves_def rx_same_def)
  then show ?thesis using t(1,4) cur by (simp add: rx_invoke_def rx_same_def)
qed

lemma rx_invokes_ok:
  assumes "rx_inv interest s" "tid = rx_threadId s" "rx_user_ok interest user" "rx_eventHandling s" "currentActiveChannel s = Some c"
  shows "\<exists>s'. rfold (rx_invoke ectl tid user c) cbs s = Inr s' \<and> currentActiveChannel s' = Some c \<and> rx_flags s' = rx_flags s \<and>
    rx_evolves interest (set (activeChannels s) - {c}) s s' (map (Pair c) cbs)"
  using assms
proof (induction cbs arbitrary: s)
  case (Cons cb cbs)
  from rx_invoke_ok [OF Cons.prems, of cb] obtain t
    where t: "rx_invoke ectl tid user c cb s = Inr t" "currentActiveChannel t = Some c" "rx_flags t = rx_flags s"
      "rx_evolves interest (set (activeChannels s) - {c}) s t [(c, cb)]" by blast
  have "rx_inv interest t" "tid = rx_threadId t" "rx_eventHandling t" "activeChannels t = activeChannels s"
    using t(4) Cons.prems by (auto simp: rx_evolves_def rx_frame_def)
  with Cons.IH [of t] Cons.prems(3) t(2) obtain u
    where u: "rfold (rx_invoke ectl tid user c) cbs t = Inr u" "currentActiveChannel u = Some c" "rx_flags u = rx_flags t"
      "rx_evolves interest (set (activeChannels s) - {c}) t u (map (Pair c) cbs)" by auto
  then show ?case using t(1,3) u(3) rx_evolves_trans [OF t(4) u(4)] by simp
qed (simp add: rx_evolves_refl)

lemma rx_handle_ok:
  assumes inv: "rx_inv interest s" and tid: "tid = rx_threadId s" and user: "rx_user_ok interest user" and h: "rx_eventHandling s"
    and f: "\<not> rx_flags s c"
  shows "\<exists>s'. rx_handle ectl tid user alive is_set c s = Inr s' \<and> rx_flags s' = rx_flags s \<and>
    rx_evolves interest (set (activeChannels s) - {c}) (s\<lparr>currentActiveChannel := Some c\<rparr>) s'
      (rx_cbs alive is_set (rx_chan s c) c (revents (rx_chan s c)))"
proof -
  let ?s = "s\<lparr>currentActiveChannel := Some c\<rparr>" and ?A = "set (activeChannels s) - {c}"
  let ?t = "rx_upd_chan c (\<lambda>ch. ch\<lparr>eventHandling := True\<rparr>) ?s"
  let ?cbs = "filter (is_set c) (dispatch (revents (rx_chan s c)))"
  have flag: "rx_evolves interest ?A ?s ?t []" by (rule rx_handling_flag) (simp add: inv)
  have "rx_inv interest ?t" "activeChannels ?t = activeChannels s"
    using flag by (auto simp: rx_evolves_def rx_frame_def)
  with rx_invokes_ok [of ?t tid user c ?cbs] tid user h obtain u
    where u: "rfold (rx_invoke ectl tid user c) ?cbs ?t = Inr u" "rx_evolves interest ?A ?t u (map (Pair c) ?cbs)"
      "rx_flags u = rx_flags ?t" by auto
  have "rx_inv interest u" using u(2) by (simp add: rx_evolves_def)
  from rx_handling_flag [OF this, of ?A c False] rx_evolves_trans [OF rx_evolves_trans [OF flag u(2) order_refl order_refl]]
  have "rx_evolves interest ?A ?s (rx_upd_chan c (\<lambda>ch. ch\<lparr>eventHandling := False\<rparr>) u) (map (Pair c) ?cbs)" by fastforce
  moreover have "rx_flags (rx_upd_chan c (\<lambda>ch. ch\<lparr>eventHandling := False\<rparr>) u) = rx_flags s"
    using u(3) f by (simp add: rx_flags_upd fun_upd_idem)
  moreover have "rx_evolves interest ?A ?s ?s []" by (rule rx_evolves_refl) (simp add: inv)
  ultimately show ?thesis
    using u(1) by (auto simp: rx_handle_def handleEvent_def handleEventWithGuard_def rx_cbs_def)
qed

end

section \<open>Rounds\<close>

lemma rx_evolves_current [simp]:
  "rx_evolves interest A (s\<lparr>currentActiveChannel := p\<rparr>) t cbs = rx_evolves interest A s t cbs"
  by (simp add: rx_evolves_def rx_frame_def)

lemma rx_frame_cbs:
  "rx_frame s t \<Longrightarrow> rx_cbs alive is_set (rx_chan t c) c (revents (rx_chan t c)) = rx_cbs alive is_set (rx_chan s c) c (revents (rx_chan s c))"
  by (simp add: rx_frame_def chan_same_def rx_cbs_def)

lemma rx_kernel_exact:
  assumes "rx_inv interest s"
  shows "interest (ep_kern (rx_ep s)) (rx_fds s c) = Some (m, c) \<longleftrightarrow> rx_regs s c = Watched m"
proof -
  have wf: "ep_wf (rx_ep s)" and "interest (ep_kern (rx_ep s)) = ep_view (rx_ep s)"
    using assms by (simp_all add: rx_inv_def ep_inv_def)
  with ep_wf_absent [OF wf, of c] show ?thesis
    by (auto simp: ep_view_def rx_fds_def rx_regs_def reg_of_def split: option.split if_splits)
qed

lemma rx_poll_ok:
  assumes inv: "rx_inv interest s" and rep: "epoll_report interest s (wr_events wr)"
  shows "\<exists>e. ep_poll wr (rx_ep s) = Inr (map fst (wr_events wr), e) \<and> ep_channels e = ep_channels (rx_ep s) \<and>
    ep_kern e = ep_kern (rx_ep s) \<and> (\<forall>c. \<exists>rv. ep_chans e c = (rx_chan s c)\<lparr>revents := rv\<rparr>) \<and>
    (\<forall>(c, ev) \<in> set (wr_events wr). revents (ep_chans e c) = ev)"
proof (cases wr)
  case (WaitErr n)
  have "\<exists>rv. rx_chan s c = (rx_chan s c)\<lparr>revents := rv\<rparr>" for c by (intro exI [of _ "revents (rx_chan s c)"]) simp
  with WaitErr show ?thesis by (simp add: ep_poll_def)
next
  case (WaitOk es)
  then have rep: "distinct (map fst es)" "length es \<le> ep_events_size (rx_ep s)"
      "\<forall>(c, ev) \<in> set es. \<exists>m. interest (ep_kern (rx_ep s)) (rx_fds s c) = Some (m, c)"
    using rep by (simp_all add: epoll_report_def)
  have wf: "ep_wf (rx_ep s)" using inv by (simp add: rx_inv_def ep_inv_def)
  have "ep_hasChannel (rx_ep s) c" if "interest (ep_kern (rx_ep s)) (rx_fds s c) = Some (m, c)" for c m
    using that ep_wf_absent [OF wf, of c] unfolding rx_kernel_exact [OF inv] by (simp add: ep_hasChannel_def rx_regs_def)
  with rep(3) have "\<forall>(c, ev) \<in> set es. ep_hasChannel (rx_ep s) c" by blast
  from ep_poll_reports [OF this rep(2)] obtain e
    where e: "ep_poll (WaitOk es) (rx_ep s) = Inr (map fst es, e)" "ep_channels e = ep_channels (rx_ep s)" "ep_kern e = ep_kern (rx_ep s)"
      "\<forall>c. ep_chans e c = (rx_chan s c)\<lparr>revents := (case map_of (rev es) c of None \<Rightarrow> revents (rx_chan s c) | Some ev \<Rightarrow> ev)\<rparr>" by blast
  have "map_of (rev es) c = Some ev" if "(c, ev) \<in> set es" for c ev
    using that rep(1) by (simp add: map_of_eq_Some_iff rev_map [symmetric])
  with e WaitOk show ?thesis by auto
qed

context epoll_kernel
begin

lemma rx_handles_ok:
  assumes "rx_inv interest s" "tid = rx_threadId s" "rx_user_ok interest user" "rx_eventHandling s" "rx_flags s = (\<lambda>_. False)"
  shows "\<exists>s'. rfold (rx_handle ectl tid user alive is_set) cs s = Inr s' \<and> rx_flags s' = (\<lambda>_. False) \<and>
    rx_evolves interest (set (activeChannels s) - set cs) s s'
      (concat (map (\<lambda>c. rx_cbs alive is_set (rx_chan s c) c (revents (rx_chan s c))) cs))"
  using assms
proof (induction cs arbitrary: s)
  case (Cons c cs)
  have "\<not> rx_flags s c" using Cons.prems by simp
  from rx_handle_ok [OF Cons.prems(1-4) this, of alive is_set] obtain t
    where t: "rx_handle ectl tid user alive is_set c s = Inr t" "rx_flags t = rx_flags s"
      "rx_evolves interest (set (activeChannels s) - {c}) s t (rx_cbs alive is_set (rx_chan s c) c (revents (rx_chan s c)))" by auto
  have fr: "rx_frame s t" and "rx_inv interest t" "tid = rx_threadId t" "rx_eventHandling t" "activeChannels t = activeChannels s"
    using t(3) Cons.prems by (auto simp: rx_evolves_def rx_frame_def)
  with Cons.IH [of t] Cons.prems(3,5) t(2) obtain u
    where u: "rfold (rx_handle ectl tid user alive is_set) cs t = Inr u" "rx_flags u = (\<lambda>_. False)"
      "rx_evolves interest (set (activeChannels s) - set cs) t u
        (concat (map (\<lambda>c. rx_cbs alive is_set (rx_chan s c) c (revents (rx_chan s c))) cs))" by (auto simp: rx_frame_cbs [OF fr])
  have "set (activeChannels s) - set (c # cs) \<subseteq> set (activeChannels s) - {c}"
    "set (activeChannels s) - set (c # cs) \<subseteq> set (activeChannels s) - set cs" by auto
  from rx_evolves_trans [OF t(3) u(3) this] show ?case using t(1) u(1,2) by simp
qed (simp add: rx_evolves_refl)

lemma rx_round_ok:
  assumes idle: "rx_idle interest s" and tid: "tid = rx_threadId s" and user: "rx_user_ok interest user"
    and rep: "epoll_report interest s (wr_events wr)"
  shows "\<exists>s' calls. rx_round ectl tid user alive is_set wr s = Inr s' \<and> rx_idle interest s' \<and>
    rx_iteration s' = Suc (rx_iteration s) \<and> rx_fds s' = rx_fds s \<and>
    rx_ran s' = rx_ran s @ concat (map (\<lambda>(c, ev). rx_cbs alive is_set (rx_chan s c) c ev) (wr_events wr)) \<and>
    rx_calls s' = rx_calls s @ calls \<and> rx_regs s' = fold spec_op calls (rx_regs s)"
proof -
  let ?es = "wr_events wr"
  have inv: "rx_inv interest s" using idle by (simp add: rx_idle_def)
  from rx_poll_ok [OF inv rep] obtain e
    where e: "ep_poll wr (rx_ep s) = Inr (map fst ?es, e)" "ep_channels e = ep_channels (rx_ep s)" "ep_kern e = ep_kern (rx_ep s)"
      "\<And>c. \<exists>rv. ep_chans e c = (rx_chan s c)\<lparr>revents := rv\<rparr>" "\<forall>(c, ev) \<in> set ?es. revents (ep_chans e c) = ev" by blast
  let ?t = "s\<lparr>rx_ep := e, activeChannels := map fst ?es, rx_iteration := Suc (rx_iteration s), rx_eventHandling := True\<rparr>"
  have fields: "fd (ep_chans e c) = fd (rx_chan s c) \<and> index (ep_chans e c) = index (rx_chan s c) \<and> events (ep_chans e c) = events (rx_chan s c) \<and>
      tied (ep_chans e c) = tied (rx_chan s c) \<and> addedToLoop (ep_chans e c) = addedToLoop (rx_chan s c) \<and> eventHandling (ep_chans e c) = eventHandling (rx_chan s c)" for c
    using e(4) [of c] by auto
  have t: "rx_inv interest ?t = rx_inv interest s" "rx_regs ?t = rx_regs s"
    by (rule rx_inv_cong; simp add: e fields)+
  have fl: "rx_flags ?t = (\<lambda>_. False)" "rx_fds ?t = rx_fds s"
    using idle fields by (auto simp: rx_idle_def rx_flags_def rx_fds_def fun_eq_iff)
  from rx_handles_ok [of ?t tid user alive is_set "map fst ?es"] t inv tid user fl obtain u
    where u: "rfold (rx_handle ectl tid user alive is_set) (map fst ?es) ?t = Inr u" "rx_flags u = (\<lambda>_. False)"
      "rx_evolves interest {} ?t u (concat (map (\<lambda>c. rx_cbs alive is_set (ep_chans e c) c (revents (ep_chans e c))) (map fst ?es)))" by auto
  have cbs: "map (\<lambda>c. rx_cbs alive is_set (ep_chans e c) c (revents (ep_chans e c))) (map fst ?es) =
      map (\<lambda>(c, ev). rx_cbs alive is_set (rx_chan s c) c ev) ?es"
    using e(5) fields by (auto simp: rx_cbs_def)
  from u(3) [unfolded cbs] t(2) obtain calls where c: "rx_calls u = rx_calls s @ calls" "rx_regs u = fold spec_op calls (rx_regs s)" "rx_inv interest u"
      "rx_ran u = rx_ran s @ concat (map (\<lambda>(c, ev). rx_cbs alive is_set (rx_chan s c) c ev) ?es)" "rx_frame ?t u"
    by (auto simp: rx_evolves_def)
  let ?u = "u\<lparr>currentActiveChannel := None, rx_eventHandling := False\<rparr>"
  have same: "rx_inv interest ?u = rx_inv interest u" "rx_regs ?u = rx_regs u" by (rule rx_inv_cong; simp)+
  have "rx_flags ?u = rx_flags u" "rx_fds ?u = rx_fds u" by (auto simp: rx_flags_def rx_fds_def fun_eq_iff)
  moreover have "rx_round ectl tid user alive is_set wr s = Inr ?u" using e(1) u(1) by (simp add: rx_round_def)
  moreover have "rx_iteration u = Suc (rx_iteration s)" "rx_fds u = rx_fds s"
    using c(5) rx_frame_fds [OF c(5)] fl(2) by (simp_all add: rx_frame_def)
  ultimately show ?thesis
    using same c u(2) by (intro exI [of _ ?u] exI [of _ calls]) (simp add: rx_idle_def)
qed

lemma rx_op_inv:
  assumes "rx_inv interest s" "rx_op ectl (rx_threadId s) x s = Inr s'"
  shows "rx_inv interest s' \<and> rx_regs s' = spec_op x (rx_regs s) \<and> rx_same s s'"
  using rx_op_ok [OF assms(1) refl, of x] rx_op_illegal [OF assms(1) refl, of "fst x" "snd x"] assms(2) by fastforce

end

section \<open>The life of a reactor\<close>

lemma rx_start_inv: "interest k = (\<lambda>_. None) \<Longrightarrow> rx_inv interest (rx_start tid k fdof own) \<and> rx_regs (rx_start tid k fdof own) = (\<lambda>_. Absent)"
  by (auto simp: rx_inv_def rx_start_def ep_inv_def ep_wf_def ep_view_def rx_regs_def reg_of_def Channel_ctor_def ep_index_defs fun_eq_iff)

lemma rx_start_idle: "currentActiveChannel (rx_start tid k fdof own) = None \<and> \<not> rx_eventHandling (rx_start tid k fdof own) \<and>
    rx_flags (rx_start tid k fdof own) = (\<lambda>_. False) \<and> rx_threadId (rx_start tid k fdof own) = tid \<and>
    rx_owned (rx_start tid k fdof own) = own \<and> rx_fds (rx_start tid k fdof own) = fdof \<and> rx_ran (rx_start tid k fdof own) = [] \<and>
    ep_events_size (rx_ep (rx_start tid k fdof own)) = kInitEventListSize"
  by (simp add: rx_start_def rx_flags_def rx_fds_def Channel_ctor_def fun_eq_iff)

lemma rx_idle_same: "rx_idle interest s \<Longrightarrow> rx_inv interest t \<Longrightarrow> rx_same s t \<Longrightarrow> rx_idle interest t"
  by (auto simp: rx_idle_def rx_same_def rx_frame_def)

context epoll_kernel
begin

lemma rx_construct_ok:
  assumes "interest k = (\<lambda>_. None)" "own rx_timer" "own rx_wakeup" "0 \<le> fdof rx_timer" "0 \<le> fdof rx_wakeup" "fdof rx_timer \<noteq> fdof rx_wakeup"
  shows "\<exists>s. EventLoop_construct ectl tid False k fdof own = Inr s \<and> rx_same (rx_start tid k fdof own) s \<and> rx_inv interest s \<and>
    rx_regs s = (\<lambda>_. Absent)(rx_timer := Watched kReadEvent, rx_wakeup := Watched kReadEvent)"
proof -
  let ?s = "rx_start tid k fdof own" and ?xs = "[(EnableReading, rx_timer), (EnableReading, rx_wakeup)]"
  note start = rx_start_inv [of interest k tid fdof own, OF assms(1)] rx_start_idle [of tid k fdof own]
  have "legal_calls own fdof (rx_removable ?s) ?xs (\<lambda>_. Absent)"
    using assms by (auto simp: spec_legal_def spec_op_def)
  with rx_calls_ok [of ?s tid ?xs] start obtain s
    where s: "rfold (rx_op ectl tid) ?xs ?s = Inr s" "rx_inv interest s" "rx_regs s = fold spec_op ?xs (\<lambda>_. Absent)" "rx_same ?s s" by auto
  moreover have "EventLoop_construct ectl tid False k fdof own = Inr s"
    using s(1) assms(4,5) by (auto simp: EventLoop_construct_def result_simps)
  moreover have "fold spec_op ?xs (\<lambda>_. Absent) = (\<lambda>_. Absent)(rx_timer := Watched kReadEvent, rx_wakeup := Watched kReadEvent)"
    by (simp add: spec_op_def reg_step_def rx_timer_def rx_wakeup_def)
  ultimately show ?thesis by auto
qed

lemma retire_ok:
  assumes idle: "rx_idle interest s" and reg: "rx_regs s c \<noteq> Absent"
  shows "\<exists>s'. retire_channel ectl (rx_threadId s) c s = Inr s' \<and> rx_idle interest s' \<and> rx_regs s' = (rx_regs s)(c := Absent) \<and> rx_same s s'"
proof -
  let ?xs = "[(DisableAll, c), (Remove, c)]"
  have inv: "rx_inv interest s" and own: "rx_owned s c" and rem: "rx_removable s c"
    using idle reg by (simp_all add: rx_idle_def rx_inv_def rx_removable_def)
  have "reg_set 0 r \<in> {Parked, Watched 0}" for r by (cases r) simp_all
  then have "legal_calls (rx_owned s) (rx_fds s) (rx_removable s) ?xs (rx_regs s)"
    using own rem reg by (simp add: spec_legal_def spec_op_def reg_step_def)
  from rx_calls_ok [OF inv refl this] obtain t
    where t: "rfold (rx_op ectl (rx_threadId s)) ?xs s = Inr t" "rx_inv interest t" "rx_regs t = fold spec_op ?xs (rx_regs s)" "rx_same s t" by blast
  have regs: "rx_regs t = (rx_regs s)(c := Absent)" using t(3) by (simp add: spec_op_def reg_step_def)
  have tidle: "rx_idle interest t" by (rule rx_idle_same [OF idle t(2,4)])
  have "ep_wf (rx_ep t)" using t(2) by (simp add: rx_inv_def ep_inv_def)
  then have "\<not> ep_hasChannel (rx_ep t) c" using ep_wf_absent [of "rx_ep t" c] fun_cong [OF regs, of c] by (simp add: ep_hasChannel_def rx_regs_def)
  moreover have "\<not> addedToLoop (rx_chan t c)" using t(2) regs by (simp add: rx_inv_def)
  moreover have "\<not> eventHandling (rx_chan t c)" using tidle by (auto simp: rx_idle_def rx_flags_def fun_eq_iff)
  ultimately have "retire_channel ectl (rx_threadId s) c s = Inr t"
    using t(1) by (simp add: retire_channel_def Channel_dtor_def c_assert_def)
  then show ?thesis using regs tidle t(4) by blast
qed

lemma rx_destruct_ok:
  assumes idle: "rx_idle interest s" and "rx_regs s rx_timer \<noteq> Absent" "rx_regs s rx_wakeup \<noteq> Absent"
  shows "\<exists>s'. EventLoop_destruct ectl (rx_threadId s) s = Inr s' \<and> rx_idle interest s' \<and>
    rx_regs s' = (rx_regs s)(rx_wakeup := Absent, rx_timer := Absent)"
proof -
  from retire_ok [OF idle assms(3)] obtain t where
    t: "retire_channel ectl (rx_threadId s) rx_wakeup s = Inr t" "rx_idle interest t" "rx_regs t = (rx_regs s)(rx_wakeup := Absent)" "rx_same s t" by blast
  have "rx_regs t rx_timer \<noteq> Absent" "rx_threadId t = rx_threadId s"
    using t(3,4) assms(2) by (simp_all add: rx_timer_def rx_wakeup_def rx_same_def rx_frame_def)
  with retire_ok [OF t(2), of rx_timer] t(1,3) show ?thesis by (auto simp: EventLoop_destruct_def)
qed

lemma rx_init_idle:
  assumes "rx_init ectl interest s"
  shows "rx_idle interest s"
proof -
  obtain tid k fdof own where c: "EventLoop_construct ectl tid False k fdof own = Inr s" and k: "interest k = (\<lambda>_. None)"
    using assms by (auto simp: rx_init_def)
  let ?s = "rx_start tid k fdof own"
  have start: "rx_inv interest ?s" "rx_idle interest ?s" "rx_threadId ?s = tid"
    using rx_start_inv [of interest k tid fdof own, OF k] rx_start_idle [of tid k fdof own] by (simp_all add: rx_idle_def)
  from c obtain t where t: "rx_op ectl tid (EnableReading, rx_timer) ?s = Inr t" "rx_op ectl tid (EnableReading, rx_wakeup) t = Inr s"
    by (auto simp: EventLoop_construct_def result_simps split: if_splits)
  from rx_op_inv [OF start(1), of "(EnableReading, rx_timer)" t] t(1) start(3) have t': "rx_inv interest t" "rx_same ?s t" by auto
  then have "rx_threadId t = tid" using start(3) by (simp add: rx_same_def rx_frame_def)
  with rx_op_inv [OF t'(1), of "(EnableReading, rx_wakeup)" s] t(2) have "rx_inv interest s" "rx_same t s" by auto
  with rx_idle_same [OF start(2)] t'(2) rx_same_trans show ?thesis by blast
qed

lemma rx_step_idle: "rx_idle interest s \<Longrightarrow> rx_step ectl interest s t \<Longrightarrow> rx_idle interest t"
proof (erule rx_stepE)
  fix x assume "rx_idle interest s" "rx_op ectl (rx_threadId s) x s = Inr t"
  then show ?thesis using rx_op_inv [of s x t] rx_idle_same by (auto simp: rx_idle_def)
next
  fix user wr alive is_set
  assume "rx_idle interest s" "rx_user_ok interest user" "epoll_report interest s (wr_events wr)"
    "rx_round ectl (rx_threadId s) user alive is_set wr s = Inr t"
  then show ?thesis using rx_round_ok [of s "rx_threadId s" user wr alive is_set] by auto
qed

end

sublocale epoll_kernel \<subseteq> rx: transition_system "rx_init ectl interest" "rx_step ectl interest" "rx_idle interest"
  by unfold_locales (use rx_init_idle rx_step_idle in blast)+

context epoll_kernel
begin

lemmas rx_reachable = rx.reachable_inv

text \<open>A channel that waits for its turn is still registered when its turn comes.\<close>

lemma dispatch_only_registered:
  assumes "rx_inv interest s" "rx_user_ok interest user" "rx_eventHandling s" "rx_flags s = (\<lambda>_. False)"
    and "activeChannels s = cs @ c # ds" "distinct (activeChannels s)" "rx_regs s c \<noteq> Absent"
  shows "\<exists>t. rfold (rx_handle ectl (rx_threadId s) user alive is_set) cs s = Inr t \<and> rx_regs t c \<noteq> Absent"
  using rx_handles_ok [OF assms(1) refl assms(2-4), of alive is_set cs] assms(5-7) by (fastforce simp: rx_evolves_def)

end

section \<open>Properties\<close>

text \<open>
  Property C8. One round of the loop, over every kernel that keeps the documentation of epoll: if the callbacks
  follow the protocol, no assertion fails and nothing is fatal; the callbacks run are exactly those
  the reported events call for, channel after channel in the order reported; the registrations
  change exactly as the operations of the callbacks say; and afterwards the kernel watches a
  descriptor with a mask exactly if its channel is registered with that mask.
\<close>

theorem reactor_round_refines:
  assumes "epoll_kernel ectl interest" "rx_idle interest s" "rx_user_ok interest user" "epoll_report interest s (wr_events wr)"
  shows "\<exists>s' calls. rx_round ectl (rx_threadId s) user alive is_set wr s = Inr s' \<and> rx_idle interest s' \<and>
    rx_iteration s' = Suc (rx_iteration s) \<and>
    rx_ran s' = rx_ran s @ concat (map (\<lambda>(c, ev). rx_cbs alive is_set (rx_chan s c) c ev) (wr_events wr)) \<and>
    rx_calls s' = rx_calls s @ calls \<and> rx_regs s' = fold spec_op calls (rx_regs s) \<and>
    (\<forall>c m. interest (ep_kern (rx_ep s')) (rx_fds s c) = Some (m, c) \<longleftrightarrow> rx_regs s' c = Watched m)"
proof -
  from epoll_kernel.rx_round_ok [OF assms(1,2) refl assms(3,4), of alive is_set] obtain s' calls
    where s': "rx_round ectl (rx_threadId s) user alive is_set wr s = Inr s'" "rx_idle interest s'" "rx_fds s' = rx_fds s"
      "rx_iteration s' = Suc (rx_iteration s)"
      "rx_ran s' = rx_ran s @ concat (map (\<lambda>(c, ev). rx_cbs alive is_set (rx_chan s c) c ev) (wr_events wr))"
      "rx_calls s' = rx_calls s @ calls" "rx_regs s' = fold spec_op calls (rx_regs s)" by blast
  then have "rx_inv interest s'" by (simp add: rx_idle_def)
  from rx_kernel_exact [OF this] s'(3) have "\<forall>c m. interest (ep_kern (rx_ep s')) (rx_fds s c) = Some (m, c) \<longleftrightarrow> rx_regs s' c = Watched m"
    by simp
  with s' show ?thesis by blast
qed

lemma demo_user_ok: "rx_user_ok interest demo_user"
proof -
  have "reg_set 0 r \<in> {Parked, Watched 0}" for r by (cases r) simp_all
  then show ?thesis
    by (auto simp: rx_user_ok_def demo_user_def rx_inv_def rx_removable_def spec_legal_def spec_op_def reg_step_def split: chan_cb.split)
qed

lemma demo_start:
  "\<exists>s. EventLoop_construct ref_epoll_ctl 7 False (\<lambda>_. None) (\<lambda>c. int c + 3) (\<lambda>_. True) = Inr s \<and> rx_idle (\<lambda>k. k) s \<and> rx_threadId s = 7 \<and>
     rx_ran s = [] \<and> rx_regs s rx_timer \<noteq> Absent \<and> rx_regs s rx_wakeup = Watched kReadEvent \<and> epoll_report (\<lambda>k. k) s [(rx_wakeup, POLLIN)]"
proof -
  let ?s = "rx_start 7 (\<lambda>_. None) (\<lambda>c. int c + 3) (\<lambda>_. True)"
  obtain s where s: "EventLoop_construct ref_epoll_ctl 7 False (\<lambda>_. None) (\<lambda>c. int c + 3) (\<lambda>_. True) = Inr s" "rx_same ?s s"
      "rx_inv (\<lambda>k. k) s" "rx_regs s = (\<lambda>_. Absent)(rx_timer := Watched kReadEvent, rx_wakeup := Watched kReadEvent)"
    using ref_kernel.rx_construct_ok [of "\<lambda>_. None" "\<lambda>_. True" "\<lambda>c. int c + 3" 7] by (auto simp: rx_timer_def rx_wakeup_def)
  have "rx_idle (\<lambda>k. k) s" using rx_start_idle [of 7 "\<lambda>_. None" "\<lambda>c. int c + 3" "\<lambda>_. True"] s(2,3)
    by (auto simp: rx_idle_def rx_same_def rx_frame_def)
  moreover have "rx_threadId s = 7 \<and> rx_ran s = [] \<and> ep_events_size (rx_ep s) = 26"
    using rx_start_idle [of 7 "\<lambda>_. None" "\<lambda>c. int c + 3" "\<lambda>_. True"] s(2) by (auto simp: rx_same_def rx_frame_def kInitEventListSize_def)
  ultimately show ?thesis
    using s rx_kernel_exact [OF s(3), of rx_wakeup kReadEvent] by (intro exI [of _ s]) (auto simp: epoll_report_def)
qed

theorem reactor_round_refines_witness:
  "\<exists>s s'. rx_regs s rx_wakeup = Watched kReadEvent \<and>
     rx_round ref_epoll_ctl 7 demo_user (\<lambda>_. True) (\<lambda>_ _. True) (WaitOk [(rx_wakeup, POLLIN)]) s = Inr s' \<and> rx_ran s' = [(rx_wakeup, ReadCallback)]"
proof -
  obtain s where s: "rx_idle (\<lambda>k. k) s" "rx_threadId s = 7" "rx_ran s = []" "rx_regs s rx_wakeup = Watched kReadEvent"
      "epoll_report (\<lambda>k. k) s (wr_events (WaitOk [(rx_wakeup, POLLIN)]))" using demo_start by auto
  have "dispatch POLLIN = [ReadCallback]" by (simp add: dispatch_def has_bits_def poll_flags)
  with reactor_round_refines [OF ref_kernel.epoll_kernel_axioms s(1) demo_user_ok s(5), of "\<lambda>_. True" "\<lambda>_ _. True"] s(2-4) show ?thesis
    by (auto simp: rx_cbs_def)
qed

text \<open>
  Property C9. From its construction on, whatever the loop thread registers, changes and removes between and in its
  rounds, the invariant of the reactor holds: only channels of the loop are registered, a channel
  knows whether it is, none is left in the middle of its events, and the kernel watches exactly the
  masks of the registered channels. While the two channels of the loop are registered its
  destruction succeeds and takes these two, and no other, out of the kernel.
\<close>

theorem reactor_life:
  assumes "epoll_kernel ectl interest" "rx_init ectl interest s0" "(rx_step ectl interest)\<^sup>*\<^sup>* s0 s"
  shows "rx_idle interest s \<and> (\<forall>c m. interest (ep_kern (rx_ep s)) (rx_fds s c) = Some (m, c) \<longleftrightarrow> rx_regs s c = Watched m) \<and>
    (rx_regs s rx_timer \<noteq> Absent \<and> rx_regs s rx_wakeup \<noteq> Absent \<longrightarrow>
      (\<exists>t. EventLoop_destruct ectl (rx_threadId s) s = Inr t \<and> rx_idle interest t \<and> rx_regs t = (rx_regs s)(rx_wakeup := Absent, rx_timer := Absent)))"
proof -
  have idle: "rx_idle interest s" by (rule epoll_kernel.rx_reachable [OF assms])
  then have "rx_inv interest s" by (simp add: rx_idle_def)
  with idle rx_kernel_exact epoll_kernel.rx_destruct_ok [OF assms(1) idle] show ?thesis by blast
qed

theorem reactor_life_witness:
  "\<exists>s t. EventLoop_construct ref_epoll_ctl 7 False (\<lambda>_. None) (\<lambda>c. int c + 3) (\<lambda>_. True) = Inr s \<and>
     EventLoop_destruct ref_epoll_ctl 7 s = Inr t \<and> rx_regs t rx_wakeup = Absent"
proof -
  obtain s where s: "EventLoop_construct ref_epoll_ctl 7 False (\<lambda>_. None) (\<lambda>c. int c + 3) (\<lambda>_. True) = Inr s" "rx_threadId s = 7"
      "rx_regs s rx_timer \<noteq> Absent" "rx_regs s rx_wakeup = Watched kReadEvent" using demo_start by auto
  have "rx_init ref_epoll_ctl (\<lambda>k. k) s" using s(1) by (auto simp: rx_init_def)
  from reactor_life [OF ref_kernel.epoll_kernel_axioms this rtranclp.rtrancl_refl] s show ?thesis
    by (auto simp: rx_timer_def rx_wakeup_def)
qed

text \<open>
  A callback that removes another channel which was reported in the same round fails the assertion
  of \<open>EventLoop::removeChannel\<close>, even if that channel is parked or has had its turn.
\<close>

lemma remove_other_active_asserts:
  assumes "epoll_kernel ectl interest" "rx_inv interest s" "rx_eventHandling s" "currentActiveChannel s = Some c" "d \<in> set (activeChannels s)" "d \<noteq> c"
  shows "rx_op ectl (rx_threadId s) (Remove, d) s = Inl AssertFailed"
  by (rule epoll_kernel.rx_op_illegal [OF assms(1,2) refl]) (use assms in \<open>simp add: spec_legal_def rx_removable_def\<close>)

text \<open>A second loop in one thread is fatal.\<close>

lemma second_loop_fatal: "isOK (EventLoop_construct ectl tid True k fdof own) = False"
  by (auto simp: EventLoop_construct_def isOK_def rbind_def split: sum.split)

text \<open>The trace of a channel shows its events: two masks have the same text only if they agree in all seven flags.\<close>

lemma flags_hd:
  "concat (map (\<lambda>(m, w). flag_text a m w) ms) = c # r \<Longrightarrow> \<forall>(m, w) \<in> set ms. w \<noteq> [] \<Longrightarrow> c \<in> (\<lambda>(m, w). hd w) ` set ms"
  by (induction ms) (auto simp: flag_text_def image_iff split: if_splits, metis list.sel(1) append_Cons list.exhaust)

lemma flags_inj:
  assumes "concat (map (\<lambda>(m, w). flag_text a m w) ms) = concat (map (\<lambda>(m, w). flag_text b m w) ms)"
    and "distinct (map (\<lambda>(m, w). hd w) ms)" "\<forall>(m, w) \<in> set ms. w \<noteq> []"
  shows "\<forall>(m, w) \<in> set ms. has_bits a m = has_bits b m"
  using assms
proof (induction ms)
  case (Cons x ms)
  obtain m c w where x: "x = (m, c # w)" using Cons.prems(3) by (cases x) (auto simp: neq_Nil_conv)
  have rest: "concat (map (\<lambda>(m, w). flag_text ev m w) ms) \<noteq> c # r" for ev r
    using flags_hd [of ev ms c r] Cons.prems(2,3) x by auto
  have "has_bits a m = has_bits b m \<and> concat (map (\<lambda>(m, w). flag_text a m w) ms) = concat (map (\<lambda>(m, w). flag_text b m w) ms)"
    using Cons.prems(1) rest [of a] rest [of b] by (auto simp: x flag_text_def split: if_splits dest: sym)
  with Cons x show ?case by auto
qed simp

lemma eventsToString_flags:
  assumes "eventsToString n a = eventsToString n b" "m \<in> {POLLIN, POLLPRI, POLLOUT, POLLHUP, POLLRDHUP, POLLERR, POLLNVAL}"
  shows "has_bits a m = has_bits b m"
proof -
  let ?ms = "[(POLLIN, ''IN ''), (POLLPRI, ''PRI ''), (POLLOUT, ''OUT ''), (POLLHUP, ''HUP ''), (POLLRDHUP, ''RDHUP ''), (POLLERR, ''ERR ''), (POLLNVAL, ''NVAL '')]"
  have "concat (map (\<lambda>(m, w). flag_text a m w) ?ms) = concat (map (\<lambda>(m, w). flag_text b m w) ?ms)"
    using assms(1) by (simp add: eventsToString_def)
  from flags_inj [OF this] assms(2) show ?thesis by auto
qed

end
