(* ===== verification/NW_TimerQueue.thy ===== *)
theory NW_TimerQueue
  imports NW_Prelude
begin

text \<open>
  \<^verbatim>\<open>networker/base/Timestamp.h\<close>, \<^verbatim>\<open>networker/net/Timer.h\<close>, \<^verbatim>\<open>Timer.cpp\<close>,
  \<^verbatim>\<open>TimerId.h\<close>, \<^verbatim>\<open>TimerQueue.h\<close> and \<^verbatim>\<open>TimerQueue.cpp\<close>.

  A \<open>Timer*\<close> is an address of the explicit heap, so that \<open>delete\<close>, a use after it and the reuse
  of an address are visible; \<open>new\<close> is the parameter \<open>alloc\<close>, of which the locale
  \<open>timer_alloc\<close> says that it returns an unused address or throws. A \<open>Timestamp\<close> is its number of
  microseconds, an \<open>int\<close> (the 64-bit range spans 292000 years either way). An interval, a
  \<open>double\<close> in the code, is the two observations the code makes of it. \<open>Timestamp::now()\<close> is the
  parameter \<open>tm\<close>, the sequence of clock readings, consumed in order. What a callback does to
  the queue is the parameter \<open>cb\<close>: the calls of \<open>addTimer\<close> and \<open>cancel\<close> it makes, which run
  at once because callbacks run in the loop thread.

  \<open>tq_inv\<close> is the invariant the comments of the header state (the two sets hold the same
  timers) with the heap facts that make it inductive; \<open>held\<close> are the timers that are alive but
  not queued (created by another thread and not yet inserted, or expired and being run).
\<close>

section \<open>Timestamps and timers\<close>

definition kMicroSecondsPerSecond :: int where "kMicroSecondsPerSecond = 1000 * 1000"

definition ts_valid :: "int \<Rightarrow> bool" where "ts_valid t \<longleftrightarrow> t > 0"

definition ts_invalid :: int where "ts_invalid = 0"

definition secondsSinceEpoch :: "int \<Rightarrow> int" where
  "secondsSinceEpoch t = c_div t kMicroSecondsPerSecond"

definition fromUnixTime :: "int \<Rightarrow> int \<Rightarrow> int" where
  "fromUnixTime t microseconds = t * kMicroSecondsPerSecond + microseconds"

text \<open>\<open>positive\<close> is \<open>interval > 0.0\<close>, \<open>micros\<close> is \<open>static_cast<int64_t>(interval * 1000000)\<close>.\<close>

record Interval =
  positive :: bool
  micros :: int

definition addTime :: "int \<Rightarrow> Interval \<Rightarrow> int" where
  "addTime timestamp seconds = timestamp + micros seconds"

record 'c Timer =
  callback :: 'c
  expiration :: int
  interval :: Interval
  repeats :: bool
  sequence :: int

record TimerId =
  timer_ptr :: nat
  id_sequence :: int

definition Timer_ctor :: "'c \<Rightarrow> int \<Rightarrow> Interval \<Rightarrow> int \<Rightarrow> 'c Timer" where
  "Timer_ctor cb when iv seq =
     \<lparr>callback = cb, expiration = when, interval = iv, repeats = positive iv, sequence = seq\<rparr>"

definition Timer_restart :: "int \<Rightarrow> 'c Timer \<Rightarrow> 'c Timer" where
  "Timer_restart now t =
     t\<lparr>expiration := (if repeats t then addTime now (interval t) else ts_invalid)\<rparr>"

section \<open>The queue\<close>

record 'c tq =
  heap :: "nat \<Rightarrow> 'c Timer option"
  numCreated :: int
  timers :: "(int \<times> nat) list"
  activeTimers :: "(nat \<times> int) list"
  callingExpiredTimers :: bool
  cancelingTimers :: "(nat \<times> int) list"
  armed :: "(int \<times> int) option"
  timerfd_count :: nat
  clock_reads :: nat

definition tq_empty :: "'c tq" where
  "tq_empty = \<lparr>heap = (\<lambda>a. None), numCreated = 0, timers = [], activeTimers = [],
     callingExpiredTimers = False, cancelingTimers = [], armed = None, timerfd_count = 0,
     clock_reads = 0\<rparr>"

definition deref :: "nat \<Rightarrow> 'c tq \<Rightarrow> ('c Timer \<Rightarrow> 'b result) \<Rightarrow> 'b result" where
  "deref a s k = (case heap s a of None \<Rightarrow> Inl UseAfterFree | Some t \<Rightarrow> k t)"

definition tq_delete :: "nat \<Rightarrow> 'c tq \<Rightarrow> 'c tq" where
  "tq_delete a s = s\<lparr>heap := (heap s)(a := None)\<rparr>"

text \<open>\<open>struct timespec\<close> is the pair of seconds and nanoseconds.\<close>

definition howMuchTimeFromNow :: "int \<Rightarrow> int \<Rightarrow> int \<times> int" where
  "howMuchTimeFromNow when now =
     (let m = when - now; microseconds = (if m < 100 then 100 else m)
      in (c_div microseconds kMicroSecondsPerSecond, c_mod microseconds kMicroSecondsPerSecond * 1000))"

definition readTimerfd :: "'c tq \<Rightarrow> 'c tq" where
  "readTimerfd s = s\<lparr>timerfd_count := 0\<rparr>"

definition resetTimerfd :: "(nat \<Rightarrow> int) \<Rightarrow> int \<Rightarrow> 'c tq \<Rightarrow> 'c tq" where
  "resetTimerfd tm exp s =
     s\<lparr>armed := Some (howMuchTimeFromNow exp (tm (clock_reads s))), timerfd_count := 0,
       clock_reads := Suc (clock_reads s)\<rparr>"

definition tq_insert :: "nat \<Rightarrow> 'c tq \<Rightarrow> (bool \<times> 'c tq) result" where
  "tq_insert timer s =
     c_assert (length (timers s) = length (activeTimers s)) (
     deref timer s (\<lambda>t.
       let when = expiration t;
           earliestChanged = (timers s = [] \<or> when > fst (hd (timers s)));
           (ts, ok1) = oset_insert (when, timer) (timers s)
       in c_assert ok1 (
          let (as, ok2) = oset_insert (timer, sequence t) (activeTimers s)
          in c_assert ok2 (c_assert (length ts = length as) (
               Inr (earliestChanged, s\<lparr>timers := ts, activeTimers := as\<rparr>))))))"

definition addTimerInLoop :: "(nat \<Rightarrow> int) \<Rightarrow> nat \<Rightarrow> 'c tq \<Rightarrow> 'c tq result" where
  "addTimerInLoop tm timer s =
     rbind (tq_insert timer s) (\<lambda>(earliestChanged, s1).
       if earliestChanged then deref timer s1 (\<lambda>t. Inr (resetTimerfd tm (expiration t) s1)) else Inr s1)"

text \<open>
  The three statements of \<open>addTimer\<close>. The first is the constructor of \<open>Timer\<close> at the address \<open>new\<close>
  gives; the second posts or runs \<open>addTimerInLoop\<close>; the third reads the sequence number through
  the pointer, only then. \<open>addTimer\<close> composes them as they run in the loop thread, where
  \<open>runInLoop\<close> is the call itself; from another thread each is a step of \<open>tq_step\<close> below.
\<close>

definition Timer_new ::
    "((nat \<Rightarrow> 'c Timer option) \<Rightarrow> nat option) \<Rightarrow> 'c \<Rightarrow> int \<Rightarrow> Interval \<Rightarrow> 'c tq \<Rightarrow> (nat \<times> 'c tq) result" where
  "Timer_new alloc c when iv s =
     (case alloc (heap s) of
        None \<Rightarrow> Inl BadAlloc
      | Some a \<Rightarrow>
          let n = numCreated s + 1
          in Inr (a,
                  s\<lparr>heap := (heap s)(a \<mapsto> Timer_ctor c when iv n), numCreated := n\<rparr>))"

definition timer_id :: "nat \<Rightarrow> 'c tq \<Rightarrow> TimerId result" where
  "timer_id timer s = deref timer s (\<lambda>t. Inr \<lparr>timer_ptr = timer, id_sequence = sequence t\<rparr>)"

definition addTimer ::
    "((nat \<Rightarrow> 'c Timer option) \<Rightarrow> nat option) \<Rightarrow> (nat \<Rightarrow> int) \<Rightarrow> 'c \<Rightarrow> int \<Rightarrow> Interval \<Rightarrow> 'c tq \<Rightarrow>
     (TimerId \<times> 'c tq) result" where
  "addTimer alloc tm c when iv s =
     rbind (Timer_new alloc c when iv s) (\<lambda>(timer, s1).
     rbind (addTimerInLoop tm timer s1) (\<lambda>s2.
     rbind (timer_id timer s2) (\<lambda>i. Inr (i, s2))))"

definition cancelInLoop :: "TimerId \<Rightarrow> 'c tq \<Rightarrow> 'c tq result" where
  "cancelInLoop i s =
     c_assert (length (timers s) = length (activeTimers s)) (
     let timer = (timer_ptr i, id_sequence i) in
     rbind
       (if timer \<in> set (activeTimers s)
        then deref (timer_ptr i) s (\<lambda>t.
               let (ts, n) = oset_erase (expiration t, timer_ptr i) (timers s)
               in c_assert (n = 1) (
                    Inr ((tq_delete (timer_ptr i) (s\<lparr>timers := ts\<rparr>))
                         \<lparr>activeTimers := fst (oset_erase timer (activeTimers s))\<rparr>)))
        else if callingExpiredTimers s
        then Inr (s\<lparr>cancelingTimers := fst (oset_insert timer (cancelingTimers s))\<rparr>)
        else Inr s)
       (\<lambda>s'. c_assert (length (timers s') = length (activeTimers s')) (Inr s')))"

text \<open>The loop of \<open>getExpired\<close> that removes the expired timers from \<open>activeTimers_\<close>.\<close>

definition erase_active :: "int \<times> nat \<Rightarrow> 'c tq \<Rightarrow> 'c tq result" where
  "erase_active it s =
     deref (snd it) s (\<lambda>t.
       let (as, n) = oset_erase (snd it, sequence t) (activeTimers s)
       in c_assert (n = 1) (Inr (s\<lparr>activeTimers := as\<rparr>)))"

definition getExpired :: "int \<Rightarrow> 'c tq \<Rightarrow> ((int \<times> nat) list \<times> 'c tq) result" where
  "getExpired now s =
     c_assert (length (timers s) = length (activeTimers s)) (
     let sentry = (now, 2 ^ 64 - 1 :: nat);
         expired = oset_below sentry (timers s); rest = oset_from sentry (timers s)
     in c_assert (rest = [] \<or> now < fst (hd rest)) (
        rbind (rfold erase_active expired (s\<lparr>timers := rest\<rparr>)) (\<lambda>s1.
          c_assert (length (timers s1) = length (activeTimers s1)) (Inr (expired, s1)))))"

text \<open>What a callback asks of the queue, in the loop thread.\<close>

datatype 'c timer_cmd = CmdAdd 'c int Interval | CmdCancel TimerId

fun exec_cmd ::
    "((nat \<Rightarrow> 'c Timer option) \<Rightarrow> nat option) \<Rightarrow> (nat \<Rightarrow> int) \<Rightarrow> 'c timer_cmd \<Rightarrow> 'c tq \<Rightarrow> 'c tq result" where
  "exec_cmd alloc tm (CmdAdd c when iv) s = rbind (addTimer alloc tm c when iv s) (\<lambda>(i, s'). Inr s')"
| "exec_cmd alloc tm (CmdCancel i) s = cancelInLoop i s"

definition Timer_run ::
    "((nat \<Rightarrow> 'c Timer option) \<Rightarrow> nat option) \<Rightarrow> (nat \<Rightarrow> int) \<Rightarrow> ('c \<Rightarrow> 'c timer_cmd list) \<Rightarrow>
     int \<times> nat \<Rightarrow> 'c tq \<Rightarrow> 'c tq result" where
  "Timer_run alloc tm cb it s = deref (snd it) s (\<lambda>t. rfold (exec_cmd alloc tm) (cb (callback t)) s)"

text \<open>One round of the loop of \<open>reset\<close>.\<close>

definition reset_one :: "int \<Rightarrow> int \<times> nat \<Rightarrow> 'c tq \<Rightarrow> 'c tq result" where
  "reset_one now it s =
     deref (snd it) s (\<lambda>t.
       if repeats t \<and> (snd it, sequence t) \<notin> set (cancelingTimers s)
       then rbind (tq_insert (snd it) (s\<lparr>heap := (heap s)(snd it \<mapsto> Timer_restart now t)\<rparr>))
              (\<lambda>(b, s'). Inr s')
       else Inr (tq_delete (snd it) s))"

definition tq_reset :: "(nat \<Rightarrow> int) \<Rightarrow> (int \<times> nat) list \<Rightarrow> int \<Rightarrow> 'c tq \<Rightarrow> 'c tq result" where
  "tq_reset tm expired now s =
     rbind (rfold (reset_one now) expired s) (\<lambda>s1.
     rbind (if timers s1 \<noteq> [] then deref (snd (hd (timers s1))) s1 (\<lambda>t. Inr (expiration t)) else Inr ts_invalid)
       (\<lambda>nextExpire. Inr (if ts_valid nextExpire then resetTimerfd tm nextExpire s1 else s1)))"

definition tq_handleRead ::
    "((nat \<Rightarrow> 'c Timer option) \<Rightarrow> nat option) \<Rightarrow> (nat \<Rightarrow> int) \<Rightarrow> ('c \<Rightarrow> 'c timer_cmd list) \<Rightarrow>
     'c tq \<Rightarrow> 'c tq result" where
  "tq_handleRead alloc tm cb s =
     (let now = tm (clock_reads s) in
      rbind (getExpired now (readTimerfd (s\<lparr>clock_reads := Suc (clock_reads s)\<rparr>))) (\<lambda>(expired, s1).
      rbind (rfold (Timer_run alloc tm cb) expired
               (s1\<lparr>callingExpiredTimers := True, cancelingTimers := []\<rparr>)) (\<lambda>s2.
      tq_reset tm expired now (s2\<lparr>callingExpiredTimers := False\<rparr>))))"

definition TimerQueue_dtor :: "'c tq \<Rightarrow> 'c tq" where
  "TimerQueue_dtor s = fold (\<lambda>e. tq_delete (snd e)) (timers s) (s\<lparr>armed := None\<rparr>)"

section \<open>Invariant\<close>

definition tq_inv :: "nat set \<Rightarrow> 'c tq \<Rightarrow> bool" where
  "tq_inv held s \<longleftrightarrow>
     strict_sorted (timers s) \<and> strict_sorted (activeTimers s) \<and>
     (\<forall>e \<in> set (timers s). \<exists>t. heap s (snd e) = Some t \<and> expiration t = fst e) \<and>
     set (activeTimers s) = (\<lambda>e. (snd e, sequence (the (heap s (snd e))))) ` set (timers s) \<and>
     dom (heap s) = held \<union> snd ` set (timers s) \<and> held \<inter> snd ` set (timers s) = {} \<and>
     (\<forall>a \<in> dom (heap s). a < 2 ^ 64 - 1 \<and> sequence (the (heap s a)) \<le> numCreated s)"

locale timer_alloc =
  fixes alloc :: "(nat \<Rightarrow> 'c Timer option) \<Rightarrow> nat option"
  assumes alloc_fresh: "alloc h = Some a \<Longrightarrow> h a = None \<and> 0 < a \<and> a < 2 ^ 64 - 1"

section \<open>Lemmas\<close>

lemma tq_inv_entry:
  "tq_inv H s \<Longrightarrow> (t, a) \<in> set (timers s) \<Longrightarrow> \<exists>tm. heap s a = Some tm \<and> expiration tm = t \<and> a \<notin> H"
  unfolding tq_inv_def by (metis disjoint_iff fst_conv image_eqI snd_conv)

lemma tq_inv_inj:
  "tq_inv H s \<Longrightarrow> (t, a) \<in> set (timers s) \<Longrightarrow> (t', a) \<in> set (timers s) \<Longrightarrow> t = t'"
  using tq_inv_entry [of H s] by (metis option.inject)

lemma tq_inv_heap: "tq_inv H s \<Longrightarrow> heap s b = Some t \<Longrightarrow> b < 2 ^ 64 - 1 \<and> sequence t \<le> numCreated s"
  unfolding tq_inv_def by (metis domI option.sel)

lemma tq_inv_active:
  "tq_inv H s \<Longrightarrow> (a, q) \<in> set (activeTimers s) \<longleftrightarrow>
     (\<exists>t. (expiration t, a) \<in> set (timers s) \<and> heap s a = Some t \<and> sequence t = q)"
  unfolding tq_inv_def by (fastforce simp: image_iff)

lemma tq_inv_held: "tq_inv H s \<Longrightarrow> a \<in> H \<Longrightarrow> \<exists>t. heap s a = Some t"
  unfolding tq_inv_def by blast

lemma tq_inv_inj_on: "tq_inv H s \<Longrightarrow> inj_on (\<lambda>e. (snd e, sequence (the (heap s (snd e))))) (set (timers s))"
  using tq_inv_inj [of H s] by (auto simp: inj_on_def)

lemma tq_inv_active_set:
  "tq_inv H s \<Longrightarrow> set (activeTimers s) = (\<lambda>e. (snd e, sequence (the (heap s (snd e))))) ` set (timers s)"
  by (simp only: tq_inv_def)

lemma active_iff:
  assumes "tq_inv H s"
  shows "(a, q) \<in> set (activeTimers s) \<longleftrightarrow> a \<in> snd ` set (timers s) \<and> q = sequence (the (heap s a))"
  unfolding tq_inv_active_set [OF assms] by (simp only: image_iff prod.inject) blast

lemma tq_inv_lengths:
  assumes "tq_inv H s"
  shows "length (timers s) = length (activeTimers s)"
proof -
  have "distinct (timers s)" "distinct (activeTimers s)"
    using assms by (simp_all only: tq_inv_def strict_sorted_iff)
  then have "length (timers s) = card (set (timers s))" "length (activeTimers s) = card (set (activeTimers s))"
    by (simp_all only: distinct_card)
  then show ?thesis
    using card_image [OF tq_inv_inj_on [OF assms]] by (simp add: tq_inv_active_set [OF assms])
qed

lemma oset_insert_new:
  "x \<notin> set xs \<Longrightarrow> oset_insert x xs = (insort x xs, True)"
  by (simp add: oset_insert_def)

lemma insort_strict_sorted: "strict_sorted xs \<Longrightarrow> x \<notin> set xs \<Longrightarrow> strict_sorted (insort x xs)"
  by (simp add: strict_sorted_iff sorted_insort distinct_insort)

lemma tq_insert_ok:
  assumes inv: "tq_inv H s" and a: "a \<in> H" "heap s a = Some t"
  defines "s' \<equiv> s\<lparr>timers := insort (expiration t, a) (timers s),
    activeTimers := insort (a, sequence t) (activeTimers s)\<rparr>"
  shows "tq_insert a s = Inr (timers s = [] \<or> expiration t > fst (hd (timers s)), s')"
    and "tq_inv (H - {a}) s'"
proof -
  have new: "(expiration t, a) \<notin> set (timers s)" "(a, sequence t) \<notin> set (activeTimers s)"
    "a \<notin> snd ` set (timers s)"
    using a tq_inv_entry [OF inv] tq_inv_active [OF inv] by fastforce+
  have len: "length (timers s) = length (activeTimers s)" using inv by (rule tq_inv_lengths)
  show "tq_insert a s = Inr (timers s = [] \<or> expiration t > fst (hd (timers s)), s')"
    using a new len by (simp add: tq_insert_def deref_def oset_insert_new Let_def s'_def c_assert_holds)
  have "set (timers s') = insert (expiration t, a) (set (timers s))"
    "set (activeTimers s') = insert (a, sequence t) (set (activeTimers s))" "heap s' = heap s"
    "numCreated s' = numCreated s"
    by (simp_all add: s'_def set_insort_key)
  moreover have "strict_sorted (timers s')" "strict_sorted (activeTimers s')"
    using inv new by (simp_all add: s'_def tq_inv_def insort_strict_sorted)
  ultimately show "tq_inv (H - {a}) s'"
    using inv a new(3) unfolding tq_inv_def by auto
qed

lemma Timer_new_ok:
  assumes inv: "tq_inv H s" and a: "alloc (heap s) = Some a" "heap s a = None" "a < 2 ^ 64 - 1"
  obtains s' where "Timer_new alloc c when iv s = Inr (a, s')"
    "tq_inv (insert a H) s'" "s' = s\<lparr>heap := (heap s)(a \<mapsto> Timer_ctor c when iv (numCreated s + 1)),
      numCreated := numCreated s + 1\<rparr>"
proof -
  let ?t = "Timer_ctor c when iv (numCreated s + 1)"
  let ?s = "s\<lparr>heap := (heap s)(a \<mapsto> ?t), numCreated := numCreated s + 1\<rparr>"
  have new: "a \<notin> snd ` set (timers s)" "a \<notin> H"
    using a(2) inv unfolding tq_inv_def by blast+
  then have "(\<lambda>e. (snd e, sequence (the (heap ?s (snd e))))) ` set (timers s) =
      (\<lambda>e. (snd e, sequence (the (heap s (snd e))))) ` set (timers s)"
    by (intro image_cong) auto
  moreover have "\<forall>e \<in> set (timers s). \<exists>t. heap ?s (snd e) = Some t \<and> expiration t = fst e"
    using inv new by (auto simp: tq_inv_def)
  moreover have "\<forall>b \<in> dom (heap ?s). b < 2 ^ 64 - 1 \<and> sequence (the (heap ?s b)) \<le> numCreated ?s"
    using tq_inv_heap [OF inv] a(3) by (auto simp: Timer_ctor_def split: if_splits) force
  ultimately have "tq_inv (insert a H) ?s"
    using inv new unfolding tq_inv_def by auto
  then show thesis using that [of ?s] a by (simp add: Timer_new_def Let_def)
qed

lemma cancelInLoop_ok:
  assumes inv: "tq_inv H s"
  shows "\<exists>s'. cancelInLoop i s = Inr s' \<and> tq_inv H s' \<and> callingExpiredTimers s' = callingExpiredTimers s \<and>
    numCreated s' = numCreated s \<and> armed s' = armed s \<and> (\<forall>a \<in> H. heap s' a = heap s a) \<and>
    set (timers s') = {(t, a) \<in> set (timers s). a \<noteq> timer_ptr i \<or> sequence (the (heap s a)) \<noteq> id_sequence i} \<and>
    set (cancelingTimers s) \<subseteq> set (cancelingTimers s')"
proof (cases "(timer_ptr i, id_sequence i) \<in> set (activeTimers s)")
  case False
  have "{(t, a) \<in> set (timers s). a \<noteq> timer_ptr i \<or> sequence (the (heap s a)) \<noteq> id_sequence i} = set (timers s)"
    using False tq_inv_active [OF inv] tq_inv_entry [OF inv] by fastforce
  moreover have "tq_inv H (s\<lparr>cancelingTimers := c\<rparr>)" for c
    using inv by (simp add: tq_inv_def)
  ultimately show ?thesis
    using False inv tq_inv_lengths [OF inv] by (auto simp: cancelInLoop_def c_assert_holds Let_def)
next
  case True
  let ?a = "timer_ptr i" and ?q = "id_sequence i"
  from True tq_inv_active [OF inv] obtain t
    where t: "(expiration t, ?a) \<in> set (timers s)" "heap s ?a = Some t" "sequence t = ?q" by auto
  let ?s = "(tq_delete ?a s)\<lparr>timers := remove1 (expiration t, ?a) (timers s),
    activeTimers := remove1 (?a, ?q) (activeTimers s)\<rparr>"
  have sorted: "sorted (timers s)" "distinct (timers s)" "sorted (activeTimers s)" "distinct (activeTimers s)"
    using inv by (simp_all add: tq_inv_def strict_sorted_iff)
  have call: "cancelInLoop i s = Inr ?s"
    using True t tq_inv_lengths [OF inv]
    by (simp add: cancelInLoop_def deref_def oset_erase_def tq_delete_def Let_def c_assert_holds length_remove1)
  have only: "e \<in> set (timers s) \<Longrightarrow> snd e = ?a \<longleftrightarrow> e = (expiration t, ?a)" for e
    using tq_inv_entry [OF inv, of "fst e" "snd e"] t(2) by (cases e) auto
  have ts: "set (timers ?s) = set (timers s) - {(expiration t, ?a)}" using sorted by simp
  have as: "set (activeTimers ?s) = set (activeTimers s) - {(?a, ?q)}" using sorted by simp
  have "tq_inv H ?s"
    unfolding tq_inv_def
  proof (intro conjI)
    show "strict_sorted (timers ?s)" "strict_sorted (activeTimers ?s)"
      using sorted by (simp_all add: strict_sorted_iff sorted_remove1)
    show "\<forall>e \<in> set (timers ?s). \<exists>t. heap ?s (snd e) = Some t \<and> expiration t = fst e"
      using inv only unfolding ts by (auto simp: tq_delete_def tq_inv_def)
    have "(\<lambda>e. (snd e, sequence (the (heap ?s (snd e))))) ` set (timers ?s) =
        (\<lambda>e. (snd e, sequence (the (heap s (snd e))))) ` set (timers ?s)"
      using only unfolding ts by (intro image_cong) (auto simp: tq_delete_def)
    also have "\<dots> = set (activeTimers s) - {(?a, ?q)}"
      unfolding ts tq_inv_active_set [OF inv]
      using t by (simp add: inj_on_image_set_diff [OF tq_inv_inj_on [OF inv]])
    finally show "set (activeTimers ?s) = (\<lambda>e. (snd e, sequence (the (heap ?s (snd e))))) ` set (timers ?s)"
      unfolding as by simp
    have sub: "snd ` set (timers ?s) = snd ` set (timers s) - {?a}"
    proof (intro set_eqI iffI)
      fix b assume "b \<in> snd ` set (timers s) - {?a}"
      then obtain e where "e \<in> set (timers s)" "b = snd e" "b \<noteq> ?a" by blast
      then show "b \<in> snd ` set (timers ?s)" unfolding ts using only [of e] by auto
    qed (use only ts in auto)
    have "?a \<notin> H" using tq_inv_entry [OF inv t(1)] by blast
    then show "dom (heap ?s) = H \<union> snd ` set (timers ?s)" "H \<inter> snd ` set (timers ?s) = {}"
      unfolding sub using inv by (auto simp: tq_delete_def tq_inv_def)
    show "\<forall>b \<in> dom (heap ?s). b < 2 ^ 64 - 1 \<and> sequence (the (heap ?s b)) \<le> numCreated ?s"
      using inv by (auto simp: tq_delete_def tq_inv_def)
  qed
  moreover have "?a \<notin> H" using tq_inv_entry [OF inv t(1)] by blast
  moreover have "set (timers ?s) = {(t, a) \<in> set (timers s). a \<noteq> ?a \<or> sequence (the (heap s a)) \<noteq> ?q}"
  proof (intro set_eqI)
    fix e
    show "e \<in> set (timers ?s) \<longleftrightarrow>
        e \<in> {(t, a) \<in> set (timers s). a \<noteq> ?a \<or> sequence (the (heap s a)) \<noteq> ?q}"
      unfolding ts using only [of e] t by (cases e) auto
  qed
  ultimately show ?thesis using call by (auto simp: tq_delete_def)
qed

lemma tq_inv_other_fields [simp]:
  "tq_inv H (s\<lparr>armed := ar\<rparr>) = tq_inv H s" "tq_inv H (s\<lparr>timerfd_count := n\<rparr>) = tq_inv H s"
  "tq_inv H (s\<lparr>clock_reads := m\<rparr>) = tq_inv H s" "tq_inv H (s\<lparr>callingExpiredTimers := b\<rparr>) = tq_inv H s"
  "tq_inv H (s\<lparr>cancelingTimers := c\<rparr>) = tq_inv H s"
  by (simp_all add: tq_inv_def)

lemma addTimerInLoop_ok:
  assumes inv: "tq_inv H s" and a: "a \<in> H" "heap s a = Some t"
  shows "\<exists>s'. addTimerInLoop tm a s = Inr s' \<and> tq_inv (H - {a}) s' \<and> heap s' = heap s \<and>
    timers s' = insort (expiration t, a) (timers s) \<and> numCreated s' = numCreated s \<and>
    callingExpiredTimers s' = callingExpiredTimers s \<and> cancelingTimers s' = cancelingTimers s \<and>
    armed s' = (if timers s = [] \<or> expiration t > fst (hd (timers s))
                then Some (howMuchTimeFromNow (expiration t) (tm (clock_reads s))) else armed s)"
  using tq_insert_ok [OF assms] a
  by (auto simp: addTimerInLoop_def deref_def resetTimerfd_def)

text \<open>What a call may do while timers are held: they stay as they are.\<close>

definition tq_frame :: "nat set \<Rightarrow> 'c tq \<Rightarrow> 'c tq \<Rightarrow> bool" where
  "tq_frame H s s' \<longleftrightarrow> (\<forall>a \<in> H. heap s' a = heap s a) \<and> callingExpiredTimers s' = callingExpiredTimers s \<and>
     numCreated s \<le> numCreated s' \<and> set (cancelingTimers s) \<subseteq> set (cancelingTimers s')"

definition tq_ok :: "nat set \<Rightarrow> 'c tq \<Rightarrow> 'c tq result \<Rightarrow> bool" where
  "tq_ok H s r \<longleftrightarrow> (case r of Inl e \<Rightarrow> e = BadAlloc | Inr s' \<Rightarrow> tq_inv H s' \<and> tq_frame H s s')"

lemma tq_frame_trans: "tq_frame H s s' \<Longrightarrow> tq_frame H s' s'' \<Longrightarrow> tq_frame H s s''"
  by (auto simp: tq_frame_def)

lemma tq_ok_rfold:
  assumes "\<And>x s. x \<in> set xs \<Longrightarrow> tq_inv H s \<Longrightarrow> tq_ok H s (f x s)" and "tq_inv H s"
  shows "tq_ok H s (rfold f xs s)"
  using assms
proof (induction xs arbitrary: s)
  case (Cons x xs)
  from Cons.prems(1) [of x s] Cons.prems(2) have x: "tq_ok H s (f x s)" by simp
  show ?case
  proof (cases "f x s")
    case (Inr s1)
    with x have s1: "tq_inv H s1" "tq_frame H s s1" by (auto simp: tq_ok_def)
    from Cons.IH [OF _ s1(1)] Cons.prems(1) have "tq_ok H s1 (rfold f xs s1)" by auto
    with Inr s1 show ?thesis by (auto simp: tq_ok_def intro: tq_frame_trans split: sum.splits)
  qed (use x in \<open>simp add: tq_ok_def\<close>)
qed (simp add: tq_ok_def tq_frame_def)

context timer_alloc
begin

lemma addTimer_ok:
  assumes inv: "tq_inv H s"
  shows "addTimer alloc tm c when iv s = Inl BadAlloc \<and> alloc (heap s) = None \<or>
    (\<exists>a s'. addTimer alloc tm c when iv s = Inr (\<lparr>timer_ptr = a, id_sequence = numCreated s + 1\<rparr>, s') \<and>
      tq_inv H s' \<and> tq_frame H s s' \<and> timers s' = insort (when, a) (timers s) \<and>
      heap s a = None \<and> heap s' = (heap s)(a \<mapsto> Timer_ctor c when iv (numCreated s + 1)) \<and> numCreated s' = numCreated s + 1 \<and>
      cancelingTimers s' = cancelingTimers s \<and>
      armed s' = (if timers s = [] \<or> when > fst (hd (timers s))
                  then Some (howMuchTimeFromNow when (tm (clock_reads s))) else armed s))"
proof (cases "alloc (heap s)")
  case None
  then show ?thesis by (simp add: addTimer_def Timer_new_def)
next
  case (Some a)
  note fresh = alloc_fresh [OF Some]
  let ?t = "Timer_ctor c when iv (numCreated s + 1)"
  have aH: "a \<notin> H" using inv fresh tq_inv_held by fastforce
  obtain s1 where s1: "Timer_new alloc c when iv s = Inr (a, s1)"
    "tq_inv (insert a H) s1" "s1 = s\<lparr>heap := (heap s)(a \<mapsto> ?t), numCreated := numCreated s + 1\<rparr>"
    using Timer_new_ok [of H s alloc a c "when" iv] inv Some fresh by blast
  then have "heap s1 a = Some ?t" by simp
  moreover have "expiration ?t = when" "sequence ?t = numCreated s + 1" by (simp_all add: Timer_ctor_def)
  ultimately obtain s2 where
    s2: "addTimerInLoop tm a s1 = Inr s2" "tq_inv (insert a H - {a}) s2" "heap s2 = heap s1"
      "timers s2 = insort (when, a) (timers s1)" "numCreated s2 = numCreated s1"
      "callingExpiredTimers s2 = callingExpiredTimers s1" "cancelingTimers s2 = cancelingTimers s1"
      "armed s2 = (if timers s1 = [] \<or> when > fst (hd (timers s1))
                then Some (howMuchTimeFromNow when (tm (clock_reads s1))) else armed s1)"
      "timer_id a s2 = Inr \<lparr>timer_ptr = a, id_sequence = numCreated s + 1\<rparr>"
    using addTimerInLoop_ok [OF s1(2), of a ?t tm] by (auto simp: timer_id_def deref_def)
  have "insert a H - {a} = H" using aH by simp
  with s1 s2 aH fresh show ?thesis by (auto simp: addTimer_def tq_frame_def)
qed

lemma exec_cmd_ok: "tq_inv H s \<Longrightarrow> tq_ok H s (exec_cmd alloc tm c s)"
proof (cases c)
  case (CmdAdd c' w iv)
  assume "tq_inv H s"
  from addTimer_ok [OF this, of tm c' w iv] CmdAdd show ?thesis
    by (elim disjE exE conjE) (simp_all add: tq_ok_def)
next
  case (CmdCancel i)
  assume "tq_inv H s"
  from cancelInLoop_ok [OF this, of i] CmdCancel show ?thesis
    by (elim exE conjE) (simp add: tq_ok_def tq_frame_def)
qed

lemma Timer_run_ok: "tq_inv H s \<Longrightarrow> snd it \<in> H \<Longrightarrow> tq_ok H s (Timer_run alloc tm cb it s)"
  using tq_inv_held [of H s "snd it"] tq_ok_rfold [of _ H "exec_cmd alloc tm" s] exec_cmd_ok [of H]
  by (auto simp: Timer_run_def deref_def)

end

text \<open>The removal loop of \<open>getExpired\<close>.\<close>

lemma erase_active_loop:
  assumes "distinct (activeTimers s)" "distinct (map snd es)"
    and "\<forall>e \<in> set es. \<exists>t. heap s (snd e) = Some t \<and> (snd e, sequence t) \<in> set (activeTimers s)"
  shows "rfold erase_active es s = Inr (s\<lparr>activeTimers :=
    filter (\<lambda>p. p \<notin> (\<lambda>e. (snd e, sequence (the (heap s (snd e))))) ` set es) (activeTimers s)\<rparr>)"
  using assms
proof (induction es arbitrary: s)
  case (Cons e es)
  from Cons.prems(3) obtain t where t: "heap s (snd e) = Some t" "(snd e, sequence t) \<in> set (activeTimers s)"
    by auto
  let ?s = "s\<lparr>activeTimers := filter (\<lambda>p. p \<noteq> (snd e, sequence t)) (activeTimers s)\<rparr>"
  have step: "erase_active e s = Inr ?s"
    using t Cons.prems(1) by (simp add: erase_active_def deref_def oset_erase_filter)
  have "\<forall>e' \<in> set es. \<exists>t. heap ?s (snd e') = Some t \<and> (snd e', sequence t) \<in> set (activeTimers ?s)"
  proof
    fix e' assume e': "e' \<in> set es"
    then have "snd e' \<noteq> snd e" using Cons.prems(2) by (metis distinct.simps(2) image_eqI list.map(2) list.set_map)
    with e' Cons.prems(3) show "\<exists>t. heap ?s (snd e') = Some t \<and> (snd e', sequence t) \<in> set (activeTimers ?s)"
      by auto
  qed
  with Cons.IH [of ?s] Cons.prems(1,2) step t(1) show ?case
    by (auto simp: filter_filter intro!: filter_cong arg_cong [where f = "\<lambda>xs. s\<lparr>activeTimers := xs\<rparr>"])
qed simp

lemma tq_below_now:
  assumes "tq_inv H s" "e \<in> set (timers s)"
  shows "e < (now, 2 ^ 64 - 1) \<longleftrightarrow> fst e \<le> now"
proof -
  obtain t a where e: "e = (t, a)" by fastforce
  have "a < 2 ^ 64 - 1"
    using tq_inv_entry [of H s t a] tq_inv_heap [of H s a] assms e by blast
  then show ?thesis by (auto simp: e less_prod_def)
qed

text \<open>\<open>getExpired\<close> takes exactly the timers that are due; they become held.\<close>

lemma getExpired_ok:
  fixes now :: int
  assumes inv: "tq_inv H s"
  defines "ex \<equiv> filter (\<lambda>e. fst e \<le> now) (timers s)"
  shows "\<exists>s'. getExpired now s = Inr (ex, s') \<and> tq_inv (H \<union> snd ` set ex) s' \<and>
    timers s' = filter (\<lambda>e. now < fst e) (timers s) \<and> heap s' = heap s \<and> numCreated s' = numCreated s \<and>
    armed s' = armed s \<and> clock_reads s' = clock_reads s"
proof -
  let ?key = "\<lambda>e. (snd e, sequence (the (heap s (snd e))))"
  let ?rest = "filter (\<lambda>e. now < fst e) (timers s)"
  have ss: "strict_sorted (timers s)" "strict_sorted (activeTimers s)" using inv by (simp_all only: tq_inv_def)
  then have dist: "distinct (timers s)" "distinct (activeTimers s)" by (simp_all add: strict_sorted_iff)
  have below: "oset_below (now, 2 ^ 64 - 1) (timers s) = ex"
    unfolding oset_below_filter [OF ss(1)] ex_def by (rule filter_cong [OF refl]) (rule tq_below_now [OF inv])
  have from_: "oset_from (now, 2 ^ 64 - 1) (timers s) = ?rest"
    unfolding oset_from_filter [OF ss(1)]
    by (rule filter_cong [OF refl]) (use tq_below_now [OF inv] in \<open>simp add: not_le\<close>)
  have hd_rest: "?rest = [] \<or> now < fst (hd ?rest)"
    using hd_in_set [of ?rest] by auto
  have dsnd: "distinct (map snd ex)"
    using dist(1) tq_inv_inj [OF inv] by (auto simp: ex_def distinct_map inj_on_def)
  let ?as = "filter (\<lambda>p. p \<notin> ?key ` set ex) (activeTimers s)"
  let ?s = "s\<lparr>timers := ?rest, activeTimers := ?as\<rparr>"
  have loop: "rfold erase_active ex (s\<lparr>timers := ?rest\<rparr>) = Inr ?s"
    using erase_active_loop [of "s\<lparr>timers := ?rest\<rparr>" ex] dist(2) dsnd tq_inv_entry [OF inv]
      tq_inv_active [OF inv] by (fastforce simp: ex_def)
  have diff: "set ?rest = set (timers s) - set ex" by (auto simp: ex_def)
  have act: "set ?as = ?key ` set ?rest"
    unfolding diff using tq_inv_active_set [OF inv]
    by (subst inj_on_image_set_diff [OF tq_inv_inj_on [OF inv]]) (auto simp: ex_def)
  have "tq_inv (H \<union> snd ` set ex) ?s"
    unfolding tq_inv_def
  proof (intro conjI)
    show "strict_sorted (timers ?s)" "strict_sorted (activeTimers ?s)"
      using ss by (simp_all add: sorted_wrt_filter)
    show "\<forall>e \<in> set (timers ?s). \<exists>t. heap ?s (snd e) = Some t \<and> expiration t = fst e"
      using inv by (simp add: tq_inv_def)
    show "set (activeTimers ?s) = (\<lambda>e. (snd e, sequence (the (heap ?s (snd e))))) ` set (timers ?s)"
      using act by simp
    show "dom (heap ?s) = H \<union> snd ` set ex \<union> snd ` set (timers ?s)"
    proof -
      have "set (timers s) = set ex \<union> set (timers ?s)" by (auto simp: ex_def)
      then have "snd ` set (timers s) = snd ` set ex \<union> snd ` set (timers ?s)" by (metis image_Un)
      with inv show ?thesis by (simp add: tq_inv_def Un_assoc)
    qed
    show "(H \<union> snd ` set ex) \<inter> snd ` set (timers ?s) = {}"
      using tq_inv_entry [OF inv] tq_inv_inj [OF inv] by (fastforce simp: ex_def)
    show "\<forall>a \<in> dom (heap ?s). a < 2 ^ 64 - 1 \<and> sequence (the (heap ?s a)) \<le> numCreated ?s"
      using inv by (simp add: tq_inv_def)
  qed
  moreover have "getExpired now s = Inr (ex, ?s)"
    using loop below from_ hd_rest tq_inv_lengths [OF inv] tq_inv_lengths [OF calculation]
    by (simp add: getExpired_def Let_def c_assert_holds)
  ultimately show ?thesis by auto
qed

text \<open>The loop of \<open>reset\<close>: each expired timer is queued again or deleted.\<close>

definition requeued :: "int \<Rightarrow> (int \<times> nat) list \<Rightarrow> 'c tq \<Rightarrow> (int \<times> nat) set" where
  "requeued now es s = {(addTime now (interval t), a) | a t. a \<in> snd ` set es \<and> heap s a = Some t \<and>
     repeats t \<and> (a, sequence t) \<notin> set (cancelingTimers s)}"

definition reset_fate :: "int \<Rightarrow> 'c tq \<Rightarrow> nat \<Rightarrow> 'c Timer option" where
  "reset_fate now s a = (case heap s a of
     None \<Rightarrow> None
   | Some t \<Rightarrow> if repeats t \<and> (a, sequence t) \<notin> set (cancelingTimers s) then Some (Timer_restart now t) else None)"

lemma requeued_iff:
  "(d, a) \<in> requeued now es s \<longleftrightarrow>
     a \<in> snd ` set es \<and> (\<exists>t. reset_fate now s a = Some t \<and> expiration t = d)"
  by (auto simp: requeued_def reset_fate_def Timer_restart_def split: option.split)

lemma tq_inv_restart:
  assumes inv: "tq_inv H s" and a: "a \<in> H" "heap s a = Some t" and q: "sequence t' = sequence t"
  shows "tq_inv H (s\<lparr>heap := (heap s)(a \<mapsto> t')\<rparr>)"
proof -
  have na: "snd e \<noteq> a" if "e \<in> set (timers s)" for e
    using tq_inv_entry [OF inv, of "fst e" "snd e"] that a by auto
  have "(\<lambda>e. (snd e, sequence (the (((heap s)(a \<mapsto> t')) (snd e))))) ` set (timers s) =
      (\<lambda>e. (snd e, sequence (the (heap s (snd e))))) ` set (timers s)"
    by (intro image_cong) (use na in auto)
  moreover have "a < 2 ^ 64 - 1 \<and> sequence t' \<le> numCreated s" using tq_inv_heap [OF inv a(2)] q by simp
  moreover have "insert a (H \<union> snd ` set (timers s)) = H \<union> snd ` set (timers s)" using a(1) by auto
  ultimately show ?thesis
    using inv na unfolding tq_inv_def by (simp add: insert_absorb)
qed

lemma tq_inv_delete:
  assumes inv: "tq_inv H s" and a: "a \<in> H"
  shows "tq_inv (H - {a}) (tq_delete a s)"
proof -
  have na: "snd e \<noteq> a" if "e \<in> set (timers s)" for e
    using tq_inv_entry [OF inv, of "fst e" "snd e"] that a by auto
  have "(\<lambda>e. (snd e, sequence (the (((heap s)(a := None)) (snd e))))) ` set (timers s) =
      (\<lambda>e. (snd e, sequence (the (heap s (snd e))))) ` set (timers s)"
    by (intro image_cong) (use na in auto)
  moreover have "H \<union> snd ` set (timers s) - {a} = H - {a} \<union> snd ` set (timers s)" using na by auto
  moreover have "\<forall>b \<in> dom (heap s) - {a}. b < 2 ^ 64 - 1 \<and> sequence (the (((heap s)(a := None)) b)) \<le> numCreated s"
    using inv by (simp add: tq_inv_def)
  ultimately show ?thesis
    using inv na unfolding tq_inv_def tq_delete_def by simp blast
qed

lemma reset_one_ok:
  assumes inv: "tq_inv H s" and a: "snd it \<in> H" "heap s (snd it) = Some t"
  shows "\<exists>s'. reset_one now it s = Inr s' \<and> tq_inv (H - {snd it}) s' \<and>
    heap s' = (heap s)(snd it := reset_fate now s (snd it)) \<and> numCreated s' = numCreated s \<and>
    cancelingTimers s' = cancelingTimers s \<and>
    callingExpiredTimers s' = callingExpiredTimers s \<and>
    set (timers s') = set (timers s) \<union> requeued now [it] s"
proof (cases "repeats t \<and> (snd it, sequence t) \<notin> set (cancelingTimers s)")
  case True
  let ?t = "Timer_restart now t"
  have "tq_inv H (s\<lparr>heap := (heap s)(snd it \<mapsto> ?t)\<rparr>)"
    using tq_inv_restart [OF inv a] by (simp add: Timer_restart_def)
  from tq_insert_ok [OF this a(1), of ?t] a True show ?thesis
    by (auto simp: reset_one_def deref_def requeued_def reset_fate_def Timer_restart_def set_insort_key)
next
  case False
  then show ?thesis
    using tq_inv_delete [OF inv a(1)] a
    by (auto simp: reset_one_def deref_def requeued_def reset_fate_def tq_delete_def)
qed

lemma reset_loop_ok:
  assumes "tq_inv H s" "distinct (map snd es)" "snd ` set es \<subseteq> H"
  shows "\<exists>s'. rfold (reset_one now) es s = Inr s' \<and> tq_inv (H - snd ` set es) s' \<and>
    heap s' = (\<lambda>a. if a \<in> snd ` set es then reset_fate now s a else heap s a) \<and> numCreated s' = numCreated s \<and>
    callingExpiredTimers s' = callingExpiredTimers s \<and> set (timers s') = set (timers s) \<union> requeued now es s"
  using assms
proof (induction es arbitrary: s H)
  case (Cons e es)
  from Cons.prems tq_inv_held [of H s "snd e"] obtain t where t: "heap s (snd e) = Some t" by auto
  have "snd e \<in> H" using Cons.prems(3) by simp
  from reset_one_ok [OF Cons.prems(1) this t, of now] obtain s1
    where s1: "reset_one now e s = Inr s1" "tq_inv (H - {snd e}) s1"
      "heap s1 = (heap s)(snd e := reset_fate now s (snd e))" "numCreated s1 = numCreated s"
      "cancelingTimers s1 = cancelingTimers s" "callingExpiredTimers s1 = callingExpiredTimers s"
      "set (timers s1) = set (timers s) \<union> requeued now [e] s" by blast
  have ne: "snd e \<notin> snd ` set es" using Cons.prems(2) by simp
  then have "snd ` set es \<subseteq> H - {snd e}" using Cons.prems(3) by (simp add: subset_Diff_insert)
  moreover have "distinct (map snd es)" using Cons.prems(2) by simp
  ultimately obtain s2
    where s2: "rfold (reset_one now) es s1 = Inr s2" "tq_inv (H - {snd e} - snd ` set es) s2"
      "heap s2 = (\<lambda>a. if a \<in> snd ` set es then reset_fate now s1 a else heap s1 a)" "numCreated s2 = numCreated s1"
      "callingExpiredTimers s2 = callingExpiredTimers s1" "set (timers s2) = set (timers s1) \<union> requeued now es s1"
    using Cons.IH [OF s1(2)] by blast
  have heap: "heap s1 a = heap s a" if "a \<in> snd ` set es" for a using that ne by (cases "a = snd e") (simp_all add: s1(3))
  then have "requeued now es s1 = requeued now es s" unfolding requeued_def s1(5) by (metis (no_types, lifting))
  moreover have "heap s2 = (\<lambda>a. if a \<in> snd ` set (e # es) then reset_fate now s a else heap s a)"
  proof (rule ext)
    fix a
    show "heap s2 a = (if a \<in> snd ` set (e # es) then reset_fate now s a else heap s a)"
      using ne by (cases "a = snd e"; cases "a \<in> snd ` set es") (simp_all add: s2(3) s1(3,5) reset_fate_def split: option.split)
  qed
  moreover have "requeued now (e # es) s = requeued now [e] s \<union> requeued now es s"
    unfolding requeued_def by auto
  moreover have "H - {snd e} - snd ` set es = H - snd ` set (e # es)" by auto
  ultimately show ?case using s1 s2 by auto
qed (simp add: requeued_def)

lemma tq_reset_ok:
  assumes inv: "tq_inv H s" and es: "distinct (map snd es)" "snd ` set es \<subseteq> H"
  shows "\<exists>s'. tq_reset tm es now s = Inr s' \<and> tq_inv (H - snd ` set es) s' \<and>
    heap s' = (\<lambda>a. if a \<in> snd ` set es then reset_fate now s a else heap s a) \<and> numCreated s' = numCreated s \<and>
    callingExpiredTimers s' = callingExpiredTimers s \<and> set (timers s') = set (timers s) \<union> requeued now es s \<and>
    (timers s' \<noteq> [] \<and> 0 < fst (hd (timers s')) \<longrightarrow>
      (\<exists>n. armed s' = Some (howMuchTimeFromNow (fst (hd (timers s'))) (tm n))))"
proof -
  from reset_loop_ok [OF assms] obtain s1
    where s1: "rfold (reset_one now) es s = Inr s1" "tq_inv (H - snd ` set es) s1"
      "heap s1 = (\<lambda>a. if a \<in> snd ` set es then reset_fate now s a else heap s a)" "numCreated s1 = numCreated s"
      "callingExpiredTimers s1 = callingExpiredTimers s" "set (timers s1) = set (timers s) \<union> requeued now es s"
    by blast
  have "\<exists>t. heap s1 (snd (hd (timers s1))) = Some t \<and> expiration t = fst (hd (timers s1))" if "timers s1 \<noteq> []"
    using tq_inv_entry [OF s1(2), of "fst (hd (timers s1))" "snd (hd (timers s1))"] that by auto
  with s1(1) have "tq_reset tm es now s =
      Inr (if timers s1 \<noteq> [] \<and> 0 < fst (hd (timers s1)) then resetTimerfd tm (fst (hd (timers s1))) s1 else s1)"
    by (cases "timers s1 = []") (auto simp: tq_reset_def deref_def ts_valid_def ts_invalid_def)
  with s1(2-) show ?thesis by (auto simp: resetTimerfd_def)
qed

text \<open>
  The whole handler: it either runs out of memory in a callback, or leaves the queue with the
  due timers requeued or deleted as \<open>requeued\<close> says of the state \<open>s2\<close> after the callbacks.
\<close>

context timer_alloc
begin

lemma tq_handleRead_ok:
  fixes tm :: "nat \<Rightarrow> int"
  assumes inv: "tq_inv H s"
  defines "now \<equiv> tm (clock_reads s)"
  defines "ex \<equiv> filter (\<lambda>e. fst e \<le> now) (timers s)"
  shows "tq_handleRead alloc tm cb s = Inl BadAlloc \<and>
      (\<exists>s1. getExpired now (readTimerfd (s\<lparr>clock_reads := Suc (clock_reads s)\<rparr>)) = Inr (ex, s1) \<and>
        rfold (Timer_run alloc tm cb) ex (s1\<lparr>callingExpiredTimers := True, cancelingTimers := []\<rparr>) = Inl BadAlloc) \<or>
    (\<exists>s1 s2 s'. getExpired now (readTimerfd (s\<lparr>clock_reads := Suc (clock_reads s)\<rparr>)) = Inr (ex, s1) \<and>
      rfold (Timer_run alloc tm cb) ex (s1\<lparr>callingExpiredTimers := True, cancelingTimers := []\<rparr>) = Inr s2 \<and>
      tq_inv (H \<union> snd ` set ex) s2 \<and> (\<forall>a \<in> H \<union> snd ` set ex. heap s2 a = heap s a) \<and>
      tq_handleRead alloc tm cb s = Inr s' \<and> tq_inv H s' \<and> \<not> callingExpiredTimers s' \<and>
      heap s' = (\<lambda>a. if a \<in> snd ` set ex then reset_fate now s2 a else heap s2 a) \<and>
      numCreated s' = numCreated s2 \<and> numCreated s \<le> numCreated s2 \<and>
      set (timers s') = set (timers s2) \<union> requeued now ex s2 \<and>
      (timers s' \<noteq> [] \<and> 0 < fst (hd (timers s')) \<longrightarrow>
        (\<exists>n. armed s' = Some (howMuchTimeFromNow (fst (hd (timers s'))) (tm n)))))"
proof -
  let ?s0 = "readTimerfd (s\<lparr>clock_reads := Suc (clock_reads s)\<rparr>)"
  have s0: "tq_inv H ?s0" "timers ?s0 = timers s" "heap ?s0 = heap s"
    using inv by (simp_all add: readTimerfd_def)
  from getExpired_ok [OF s0(1), of now] s0 obtain s1
    where s1: "getExpired now ?s0 = Inr (ex, s1)" "tq_inv (H \<union> snd ` set ex) s1" "heap s1 = heap s"
      "numCreated s1 = numCreated s"
    unfolding ex_def by (auto simp: readTimerfd_def)
  let ?s1 = "s1\<lparr>callingExpiredTimers := True, cancelingTimers := []\<rparr>"
  have "tq_ok (H \<union> snd ` set ex) ?s1 (rfold (Timer_run alloc tm cb) ex ?s1)"
    by (rule tq_ok_rfold) (use s1(2) in \<open>auto intro!: Timer_run_ok\<close>)
  then consider "rfold (Timer_run alloc tm cb) ex ?s1 = Inl BadAlloc" |
      s2 where "rfold (Timer_run alloc tm cb) ex ?s1 = Inr s2" "tq_inv (H \<union> snd ` set ex) s2"
        "tq_frame (H \<union> snd ` set ex) ?s1 s2"
    by (auto simp: tq_ok_def split: sum.splits)
  then show ?thesis
  proof cases
    case 1
    then show ?thesis using s1 by (simp add: tq_handleRead_def Let_def now_def [symmetric])
  next
    case 2
    have dist: "distinct (map snd ex)"
      using inv tq_inv_inj [OF inv] by (auto simp: ex_def distinct_map inj_on_def tq_inv_def strict_sorted_iff)
    have disj: "H \<union> snd ` set ex - snd ` set ex = H"
      using tq_inv_entry [OF inv] by (fastforce simp: ex_def)
    have same: "reset_fate now (s2\<lparr>callingExpiredTimers := False\<rparr>) = reset_fate now s2"
      "requeued now ex (s2\<lparr>callingExpiredTimers := False\<rparr>) = requeued now ex s2"
      "heap (s2\<lparr>callingExpiredTimers := False\<rparr>) = heap s2"
      by (simp_all add: reset_fate_def requeued_def fun_eq_iff split: option.split)
    from tq_reset_ok [of "H \<union> snd ` set ex" "s2\<lparr>callingExpiredTimers := False\<rparr>" ex tm now] 2(2) dist
    obtain s' where s': "tq_reset tm ex now (s2\<lparr>callingExpiredTimers := False\<rparr>) = Inr s'" "tq_inv H s'"
      "heap s' = (\<lambda>a. if a \<in> snd ` set ex then reset_fate now s2 a else heap s2 a)" "numCreated s' = numCreated s2"
      "\<not> callingExpiredTimers s'" "set (timers s') = set (timers s2) \<union> requeued now ex s2"
      "timers s' \<noteq> [] \<and> 0 < fst (hd (timers s')) \<longrightarrow>
        (\<exists>n. armed s' = Some (howMuchTimeFromNow (fst (hd (timers s'))) (tm n)))"
      unfolding disj same by auto
    have "\<forall>a \<in> H \<union> snd ` set ex. heap s2 a = heap s a" "numCreated s \<le> numCreated s2"
      using 2(3) s1(3,4) by (simp_all add: tq_frame_def)
    moreover have "tq_handleRead alloc tm cb s = Inr s'"
      using s1 2 s'(1) by (simp add: tq_handleRead_def Let_def now_def [symmetric])
    ultimately show ?thesis using s1(1) 2(1,2) s' by blast
  qed
qed

end

section \<open>The queue as a transition system\<close>

text \<open>
  The loop thread inserts, cancels and handles expirations. \<open>addTimer\<close> of another thread is two
  steps: \<open>new\<close> makes the timer and posts it, so that it is pending (an element of the first
  component) until its functor runs in the loop (\<open>add\<close>), and \<open>read\<close> forms the id afterwards,
  whatever the loop has done in between. The second component holds the calls of \<open>addTimer\<close> that
  have not returned: the address of the timer and the sequence number it was given.
\<close>

inductive tq_step ::
    "((nat \<Rightarrow> 'c Timer option) \<Rightarrow> nat option) \<Rightarrow> (nat \<Rightarrow> int) \<Rightarrow>
     nat set \<times> (nat \<times> int) set \<times> 'c tq \<Rightarrow> nat set \<times> (nat \<times> int) set \<times> 'c tq \<Rightarrow> bool"
  for alloc tm where
  new: "Timer_new alloc c w iv s = Inr (a, s') \<Longrightarrow>
    tq_step alloc tm (P, W, s) (insert a P, insert (a, numCreated s') W, s')"
| read: "(a, q) \<in> W \<Longrightarrow> timer_id a s = Inr i \<Longrightarrow> tq_step alloc tm (P, W, s) (P, W - {(a, q)}, s)"
| add: "a \<in> P \<Longrightarrow> addTimerInLoop tm a s = Inr s' \<Longrightarrow> tq_step alloc tm (P, W, s) (P - {a}, W, s')"
| cancel: "cancelInLoop i s = Inr s' \<Longrightarrow> tq_step alloc tm (P, W, s) (P, W, s')"
| expire: "tq_handleRead alloc tm cb s = Inr s' \<Longrightarrow> tq_step alloc tm (P, W, s) (P, W, s')"

definition tq_good :: "nat set \<times> (nat \<times> int) set \<times> 'c tq \<Rightarrow> bool" where
  "tq_good = (\<lambda>(P, W, s). tq_inv P s \<and> \<not> callingExpiredTimers s \<and> (\<forall>(a, q) \<in> W. q \<le> numCreated s))"


locale timer_system = timer_alloc alloc
  for alloc :: "(nat \<Rightarrow> 'c Timer option) \<Rightarrow> nat option" +
  fixes tm :: "nat \<Rightarrow> int"

sublocale timer_system \<subseteq> tqs: transition_system "\<lambda>ps. ps = ({}, {}, tq_empty)" "tq_step alloc tm" tq_good
proof
  fix ps :: "nat set \<times> (nat \<times> int) set \<times> 'c tq"
  show "ps = ({}, {}, tq_empty) \<Longrightarrow> tq_good ps"
    by (simp add: tq_good_def tq_inv_def tq_empty_def)
next
  fix ps qs :: "nat set \<times> (nat \<times> int) set \<times> 'c tq"
  assume good: "tq_good ps" and step: "tq_step alloc tm ps qs"
  from step good show "tq_good qs"
  proof cases
    case (new c w iv s a s' P W)
    have inv: "tq_inv P s" "\<not> callingExpiredTimers s" "\<forall>(a, q) \<in> W. q \<le> numCreated s"
      using good new(1) by (simp_all add: tq_good_def)
    from new(3) have a: "alloc (heap s) = Some a"
      by (auto simp: Timer_new_def Let_def split: option.splits)
    from Timer_new_ok [of P s alloc a c w iv] inv(1) a alloc_fresh [OF a] new(3)
    have "tq_inv (insert a P) s'" "numCreated s' = numCreated s + 1"
      "callingExpiredTimers s' = callingExpiredTimers s" by fastforce+
    with new(2) inv show ?thesis by (auto simp: tq_good_def)
  next
    case (read a q W s i P)
    with good show ?thesis by (auto simp: tq_good_def)
  next
    case (add a P s s' W)
    with good have inv: "tq_inv P s" "\<not> callingExpiredTimers s" by (simp_all add: tq_good_def)
    from tq_inv_held [OF this(1) add(3)] obtain t where "heap s a = Some t" by blast
    from addTimerInLoop_ok [OF inv(1) add(3) this, of tm] add good show ?thesis
      by (elim exE conjE) (simp add: tq_good_def)
  next
    case (cancel i s s' P W)
    with cancelInLoop_ok [of P s i] good show ?thesis unfolding tq_good_def by fastforce
  next
    case (expire cb s s' P W)
    with tq_handleRead_ok [of P s tm cb] good show ?thesis unfolding tq_good_def by fastforce
  qed
qed

lemma TimerQueue_dtor_heap: "heap (fold (\<lambda>e. tq_delete (snd e)) es s) = (heap s) |` (- snd ` set es)"
proof (induction es arbitrary: s)
  case (Cons e es)
  have "heap (tq_delete (snd e) s) |` (- snd ` set es) = (heap s) |` (- snd ` set (e # es))"
    by (auto simp: tq_delete_def restrict_map_def fun_eq_iff)
  then show ?case by (simp add: Cons)
qed (simp add: restrict_map_def)

context timer_system
begin

lemma reachable_inv_tq: "(tq_step alloc tm)\<^sup>*\<^sup>* ({}, {}, tq_empty) (P, W, s) \<Longrightarrow> tq_inv P s"
  using tqs.reachable_inv [OF refl] by (fastforce simp: tq_good_def)

lemma addTimer_total:
  assumes inv: "tq_inv P s"
  shows "addTimer alloc tm c w iv s = Inl BadAlloc \<or>
    (\<exists>a s'. addTimer alloc tm c w iv s = Inr (\<lparr>timer_ptr = a, id_sequence = numCreated s + 1\<rparr>, s'))"
  using addTimer_ok [OF inv] by blast

lemma calls_ok:
  assumes inv: "tq_inv P s"
  shows "a \<in> P \<Longrightarrow> isOK (addTimerInLoop tm a s)" and "isOK (cancelInLoop i s)"
    and "tq_handleRead alloc tm cb s = Inl BadAlloc \<or> isOK (tq_handleRead alloc tm cb s)"
    and "dom (heap (TimerQueue_dtor s)) = P"
proof -
  show "isOK (addTimerInLoop tm a s)" if "a \<in> P"
    using tq_inv_held [OF inv that] addTimerInLoop_ok [OF inv that, of _ tm] by (auto simp: isOK_iff)
  show "isOK (cancelInLoop i s)" using cancelInLoop_ok [OF inv] unfolding isOK_iff by blast
  show "tq_handleRead alloc tm cb s = Inl BadAlloc \<or> isOK (tq_handleRead alloc tm cb s)"
    using tq_handleRead_ok [OF inv] unfolding isOK_iff by blast
  show "dom (heap (TimerQueue_dtor s)) = P"
    using inv by (auto simp: TimerQueue_dtor_def TimerQueue_dtor_heap tq_inv_def)
qed

end

text \<open>An allocator: the lowest free address of a small arena.\<close>

definition first_free :: "(nat \<Rightarrow> 'c Timer option) \<Rightarrow> nat option" where
  "first_free h = find (\<lambda>a. h a = None) [1..<1000]"

interpretation ff: timer_system first_free tm for tm
  by unfold_locales (auto simp: first_free_def find_Some_iff)

text \<open>The calls of \<open>addTimer\<close> among the commands, in order.\<close>

fun cmd_adds :: "'c timer_cmd list \<Rightarrow> ('c \<times> int \<times> Interval) list" where
  "cmd_adds [] = []"
| "cmd_adds (CmdAdd c w iv # cs) = (c, w, iv) # cmd_adds cs"
| "cmd_adds (CmdCancel i # cs) = cmd_adds cs"

text \<open>A command that records something which later commands keep.\<close>

lemma rfold_records:
  assumes x: "x \<in> set xs" and ok: "\<And>y s. y \<in> set xs \<Longrightarrow> tq_inv H s \<Longrightarrow> tq_ok H s (f y s)"
    and est: "\<And>s s'. tq_inv H s \<Longrightarrow> C s \<Longrightarrow> f x s = Inr s' \<Longrightarrow> Q s'"
    and mono: "\<And>s s'. tq_frame H s s' \<Longrightarrow> (C s \<longrightarrow> C s') \<and> (Q s \<longrightarrow> Q s')"
    and run: "tq_inv H s" "C s" "rfold f xs s = Inr s'"
  shows "Q s'"
proof -
  from x obtain us vs where xs: "xs = us @ x # vs" by (auto dest: split_list)
  with run(3) obtain s1 s2 where s: "rfold f us s = Inr s1" "f x s1 = Inr s2" "rfold f vs s2 = Inr s'"
    by (auto simp: rfold_append result_simps)
  have "tq_ok H s (rfold f us s)" using ok run(1) xs by (intro tq_ok_rfold) auto
  then have s1: "tq_inv H s1" "C s1" using s(1) run(2) mono by (auto simp: tq_ok_def)
  with est s(2) have "Q s2" by blast
  moreover have "tq_ok H s2 (rfold f vs s2)"
    using ok [of x s1] s1(1) s(2) ok xs by (intro tq_ok_rfold) (auto simp: tq_ok_def)
  ultimately show ?thesis using s(3) mono by (auto simp: tq_ok_def)
qed

context timer_alloc
begin

lemma cancel_self_records:
  assumes e: "e \<in> set ex" "snd ` set ex \<subseteq> H" "heap s (snd e) = Some t"
    and i: "CmdCancel \<lparr>timer_ptr = snd e, id_sequence = sequence t\<rparr> \<in> set (cb (callback t))"
    and run: "tq_inv H s" "callingExpiredTimers s" "rfold (Timer_run alloc tm cb) ex s = Inr s'"
  shows "(snd e, sequence t) \<in> set (cancelingTimers s')"
proof (rule rfold_records [where C = "\<lambda>s. callingExpiredTimers s \<and> heap s (snd e) = Some t"
      and Q = "\<lambda>s. (snd e, sequence t) \<in> set (cancelingTimers s)", OF e(1) _ _ _ run(1) _ run(3)])
  fix r r' assume r: "tq_inv H r" "callingExpiredTimers r \<and> heap r (snd e) = Some t"
    "Timer_run alloc tm cb e r = Inr r'"
  have "(snd e, sequence t) \<notin> set (activeTimers q)" if "tq_inv H q" for q :: "'c tq"
    using tq_inv_active [OF that] tq_inv_entry [OF that] e(1,2) by blast
  then have "(snd e, sequence t) \<in> set (cancelingTimers q')"
    if "tq_inv H q" "callingExpiredTimers q"
      "exec_cmd alloc tm (CmdCancel \<lparr>timer_ptr = snd e, id_sequence = sequence t\<rparr>) q = Inr q'" for q q'
    using that by (auto simp: cancelInLoop_def result_simps Let_def)
  note est = this
  have "rfold (exec_cmd alloc tm) (cb (callback t)) r = Inr r'"
    using r by (simp add: Timer_run_def deref_def)
  note run_r = this
  show "(snd e, sequence t) \<in> set (cancelingTimers r')"
  proof (rule rfold_records [where C = callingExpiredTimers and H = H and f = "exec_cmd alloc tm"
        and Q = "\<lambda>s. (snd e, sequence t) \<in> set (cancelingTimers s)", OF i _ _ _ r(1) _ run_r])
    show "callingExpiredTimers r" using r(2) by simp
    show "tq_ok H q (exec_cmd alloc tm c q)" if "tq_inv H q" for c q using that by (rule exec_cmd_ok)
    show "(snd e, sequence t) \<in> set (cancelingTimers q')"
      if "tq_inv H q" "callingExpiredTimers q"
        "exec_cmd alloc tm (CmdCancel \<lparr>timer_ptr = snd e, id_sequence = sequence t\<rparr>) q = Inr q'" for q q'
      using that by (rule est)
  qed (auto simp: tq_frame_def)
next
  show "callingExpiredTimers s \<and> heap s (snd e) = Some t" using run(2) e(3) by simp
qed (use e(1,2) in \<open>auto intro!: Timer_run_ok simp: tq_frame_def\<close>)

lemma cancelled_timer_deleted:
  assumes inv: "tq_inv H s" and due: "e \<in> set (timers s)" "fst e \<le> tm (clock_reads s)" "heap s (snd e) = Some t"
    and i: "CmdCancel \<lparr>timer_ptr = snd e, id_sequence = sequence t\<rparr> \<in> set (cb (callback t))"
    and run: "tq_handleRead alloc tm cb s = Inr s'"
  shows "heap s' (snd e) = None"
proof -
  let ?now = "tm (clock_reads s)" and ?ex = "filter (\<lambda>e. fst e \<le> tm (clock_reads s)) (timers s)"
  from tq_handleRead_ok [OF inv, of tm cb] run obtain s1 s2 where s:
    "getExpired ?now (readTimerfd (s\<lparr>clock_reads := Suc (clock_reads s)\<rparr>)) = Inr (?ex, s1)"
    "rfold (Timer_run alloc tm cb) ?ex (s1\<lparr>callingExpiredTimers := True, cancelingTimers := []\<rparr>) = Inr s2"
    "tq_inv (H \<union> snd ` set ?ex) s2" "\<forall>a \<in> H \<union> snd ` set ?ex. heap s2 a = heap s a" "tq_inv H s'"
    "set (timers s') = set (timers s2) \<union> requeued ?now ?ex s2" by fastforce
  have ex: "e \<in> set ?ex" using due by simp
  let ?s0 = "readTimerfd (s\<lparr>clock_reads := Suc (clock_reads s)\<rparr>)"
  have "tq_inv H ?s0" "timers ?s0 = timers s" "heap ?s0 = heap s" using inv by (simp_all add: readTimerfd_def)
  with getExpired_ok [of H ?s0 ?now] s(1) have s1: "tq_inv (H \<union> snd ` set ?ex) s1" "heap s1 = heap s" by auto
  have rec: "(snd e, sequence t) \<in> set (cancelingTimers s2)"
    by (rule cancel_self_records [OF ex _ _ i _ _ s(2), of "H \<union> snd ` set ?ex"]) (use s1 due in auto)
  have t2: "heap s2 (snd e) = Some t" using s(4) ex due(3) by auto
  have "snd e \<notin> snd ` set (timers s2)" using s(3) ex unfolding tq_inv_def by blast
  moreover have "snd e \<notin> snd ` requeued ?now ?ex s2" using rec t2 by (auto simp: requeued_def)
  ultimately have "snd e \<notin> snd ` set (timers s')" unfolding s(6) by blast
  moreover have "snd e \<notin> H" using tq_inv_entry [OF inv, of "fst e" "snd e"] due(1) by auto
  ultimately show ?thesis using s(5) unfolding tq_inv_def by blast
qed

text \<open>
  The callbacks of a round run their calls one after the other, on a queue from which the due
  timers have been taken.
\<close>

lemma run_flat:
  assumes "tq_inv H s" and "\<forall>e \<in> set es. snd e \<in> H"
  shows "rfold (Timer_run alloc tm cb) es s =
    rfold (exec_cmd alloc tm) (concat (map (\<lambda>e. cb (callback (the (heap s (snd e))))) es)) s"
  using assms
proof (induction es arbitrary: s)
  case (Cons e es)
  from tq_inv_held [OF Cons.prems(1), of "snd e"] Cons.prems(2) obtain t where t: "heap s (snd e) = Some t" by auto
  let ?f = "exec_cmd alloc tm"
  have first: "Timer_run alloc tm cb e s = rfold ?f (cb (callback t)) s" by (simp add: Timer_run_def deref_def t)
  have ok: "tq_ok H s (rfold ?f (cb (callback t)) s)"
    by (rule tq_ok_rfold) (use Cons.prems(1) exec_cmd_ok in auto)
  show ?case
  proof (cases "rfold ?f (cb (callback t)) s")
    case (Inr s1)
    with ok have s1: "tq_inv H s1" "\<forall>a \<in> H. heap s1 a = heap s a" by (auto simp: tq_ok_def tq_frame_def)
    from Cons.IH [OF s1(1)] Cons.prems(2) have "rfold (Timer_run alloc tm cb) es s1 =
        rfold ?f (concat (map (\<lambda>e. cb (callback (the (heap s1 (snd e))))) es)) s1" by simp
    also have "map (\<lambda>e. cb (callback (the (heap s1 (snd e))))) es = map (\<lambda>e. cb (callback (the (heap s (snd e))))) es"
      using s1(2) Cons.prems(2) by simp
    finally show ?thesis using Inr first t by (simp add: rfold_append)
  qed (use first t in \<open>simp add: rfold_append\<close>)
qed simp

lemma cmd_step:
  assumes inv: "tq_inv H s" and run: "exec_cmd alloc tm c s = Inr s'"
  shows "tq_inv H s'" and "callingExpiredTimers s' = callingExpiredTimers s"
    and "case c of CmdAdd f w iv \<Rightarrow> numCreated s' = numCreated s + 1 \<and> cancelingTimers s' = cancelingTimers s \<and>
        (\<exists>a. heap s a = None \<and> heap s' = (heap s)(a \<mapsto> Timer_ctor f w iv (numCreated s + 1)) \<and>
          set (activeTimers s') = insert (a, numCreated s + 1) (set (activeTimers s)))
      | CmdCancel i \<Rightarrow> numCreated s' = numCreated s \<and>
        set (activeTimers s') = set (activeTimers s) - {(timer_ptr i, id_sequence i)} \<and>
        (\<forall>(a, q) \<in> set (activeTimers s'). heap s' a = heap s a) \<and>
        set (cancelingTimers s') = set (cancelingTimers s) \<union>
          (if callingExpiredTimers s \<and> (timer_ptr i, id_sequence i) \<notin> set (activeTimers s)
           then {(timer_ptr i, id_sequence i)} else {})"
proof -
  from exec_cmd_ok [OF inv, of tm c] run show inv': "tq_inv H s'"
    and "callingExpiredTimers s' = callingExpiredTimers s"
    by (simp_all add: tq_ok_def tq_frame_def)
  show "case c of CmdAdd f w iv \<Rightarrow> numCreated s' = numCreated s + 1 \<and> cancelingTimers s' = cancelingTimers s \<and>
        (\<exists>a. heap s a = None \<and> heap s' = (heap s)(a \<mapsto> Timer_ctor f w iv (numCreated s + 1)) \<and>
          set (activeTimers s') = insert (a, numCreated s + 1) (set (activeTimers s)))
      | CmdCancel i \<Rightarrow> numCreated s' = numCreated s \<and>
        set (activeTimers s') = set (activeTimers s) - {(timer_ptr i, id_sequence i)} \<and>
        (\<forall>(a, q) \<in> set (activeTimers s'). heap s' a = heap s a) \<and>
        set (cancelingTimers s') = set (cancelingTimers s) \<union>
          (if callingExpiredTimers s \<and> (timer_ptr i, id_sequence i) \<notin> set (activeTimers s)
           then {(timer_ptr i, id_sequence i)} else {})"
  proof (cases c)
    case (CmdAdd f w iv)
    from addTimer_ok [OF inv, of tm f w iv] run CmdAdd obtain a
      where a: "tq_inv H s'" "timers s' = insort (w, a) (timers s)" "heap s a = None"
        "heap s' = (heap s)(a \<mapsto> Timer_ctor f w iv (numCreated s + 1))" "numCreated s' = numCreated s + 1"
        "cancelingTimers s' = cancelingTimers s" by auto
    have "snd e \<noteq> a" if "e \<in> set (timers s)" for e
      using tq_inv_entry [OF inv, of "fst e" "snd e"] that a(3) by auto
    then have "set (activeTimers s') = insert (a, numCreated s + 1) (set (activeTimers s))"
      unfolding tq_inv_active_set [OF inv] tq_inv_active_set [OF a(1)]
      by (auto simp: a(2,4) set_insort_key Timer_ctor_def image_iff)
    with a CmdAdd show ?thesis by auto
  next
    case (CmdCancel i)
    let ?i = "(timer_ptr i, id_sequence i)"
    have len: "length (timers s) = length (activeTimers s)" by (rule tq_inv_lengths [OF inv])
    show ?thesis
    proof (cases "?i \<in> set (activeTimers s)")
      case True
      with tq_inv_active [OF inv] obtain t where t: "heap s (timer_ptr i) = Some t"
        "(expiration t, timer_ptr i) \<in> set (timers s)" by auto
      have dist: "sorted (activeTimers s)" "distinct (activeTimers s)"
        using inv by (simp_all add: tq_inv_def strict_sorted_iff)
      have uniq: "q = id_sequence i" if "(timer_ptr i, q) \<in> set (activeTimers s)" for q
        using that True tq_inv_active [OF inv] by auto
      have "cancelInLoop i s = Inr ((tq_delete (timer_ptr i) s)
          \<lparr>timers := remove1 (expiration t, timer_ptr i) (timers s), activeTimers := remove1 ?i (activeTimers s)\<rparr>)"
        using True t len
        by (simp add: cancelInLoop_def deref_def oset_erase_def tq_delete_def Let_def c_assert_holds length_remove1)
      with run CmdCancel have s': "s' = (tq_delete (timer_ptr i) s)
          \<lparr>timers := remove1 (expiration t, timer_ptr i) (timers s), activeTimers := remove1 ?i (activeTimers s)\<rparr>"
        by simp
      have set': "set (activeTimers s') = set (activeTimers s) - {?i}" using dist unfolding s' by simp
      have "\<forall>(a, q) \<in> set (activeTimers s'). heap s' a = heap s a"
        unfolding set' using uniq by (auto simp: s' tq_delete_def split: if_splits)
      with set' CmdCancel True show ?thesis by (simp add: s' tq_delete_def)
    next
      case False
      with run CmdCancel have "s' = (if callingExpiredTimers s
          then s\<lparr>cancelingTimers := fst (oset_insert ?i (cancelingTimers s))\<rparr> else s)"
        by (auto simp: cancelInLoop_def result_simps Let_def split: if_splits)
      then show ?thesis using CmdCancel False by (auto simp: oset_insert_def set_insort_key)
    qed
  qed
qed

lemma cmds_run:
  assumes "tq_inv H s" "callingExpiredTimers s" "rfold (exec_cmd alloc tm) cmds s = Inr s'"
  shows "numCreated s' = numCreated s + int (length (cmd_adds cmds)) \<and>
    (\<forall>a q. q \<le> numCreated s \<longrightarrow>
      ((a, q) \<in> set (activeTimers s') \<longleftrightarrow>
        (a, q) \<in> set (activeTimers s) \<and> CmdCancel \<lparr>timer_ptr = a, id_sequence = q\<rparr> \<notin> set cmds) \<and>
      ((a, q) \<in> set (activeTimers s') \<longrightarrow> heap s' a = heap s a)) \<and>
    (\<forall>k < length (cmd_adds cmds). let q = numCreated s + 1 + int k in
      (\<forall>a. CmdCancel \<lparr>timer_ptr = a, id_sequence = q\<rparr> \<notin> set cmds) \<longrightarrow>
      (\<exists>a. (a, q) \<in> set (activeTimers s') \<and>
        heap s' a = Some (case cmd_adds cmds ! k of (f, w, iv) \<Rightarrow> Timer_ctor f w iv q))) \<and>
    (\<forall>a \<in> H. \<forall>q. (a, q) \<in> set (cancelingTimers s') \<longleftrightarrow>
      (a, q) \<in> set (cancelingTimers s) \<or> CmdCancel \<lparr>timer_ptr = a, id_sequence = q\<rparr> \<in> set cmds)"
  using assms
proof (induction cmds arbitrary: s)
  case (Cons c cs)
  from Cons.prems(3) obtain s1 where s1: "exec_cmd alloc tm c s = Inr s1" "rfold (exec_cmd alloc tm) cs s1 = Inr s'"
    by (auto simp: result_simps)
  note step = cmd_step [OF Cons.prems(1) s1(1)]
  have "callingExpiredTimers s1" using step(2) Cons.prems(2) by simp
  note IH = Cons.IH [OF step(1) this s1(2)]
  show ?case
  proof (cases c)
    case (CmdAdd f w iv)
    let ?q = "numCreated s + 1"
    from step(3) CmdAdd obtain b where b: "heap s b = None" "heap s1 = (heap s)(b \<mapsto> Timer_ctor f w iv ?q)"
      "set (activeTimers s1) = insert (b, ?q) (set (activeTimers s))" "numCreated s1 = ?q"
      "cancelingTimers s1 = cancelingTimers s" by auto
    have nb: "(b, q) \<notin> set (activeTimers s)" for q using b(1) tq_inv_active [OF Cons.prems(1)] by auto
    have old: "((a, q) \<in> set (activeTimers s') \<longleftrightarrow>
        (a, q) \<in> set (activeTimers s) \<and> CmdCancel \<lparr>timer_ptr = a, id_sequence = q\<rparr> \<notin> set (c # cs)) \<and>
      ((a, q) \<in> set (activeTimers s') \<longrightarrow> heap s' a = heap s a)" if "q \<le> numCreated s" for a q
    proof -
      have "q \<le> numCreated s1" using that b(4) by simp
      with IH [THEN conjunct2, THEN conjunct1, THEN spec, THEN spec, of q a] that b(3) have "(a, q) \<in> set (activeTimers s') \<longleftrightarrow>
          (a, q) \<in> set (activeTimers s) \<and> CmdCancel \<lparr>timer_ptr = a, id_sequence = q\<rparr> \<notin> set cs"
        "(a, q) \<in> set (activeTimers s') \<longrightarrow> heap s' a = heap s1 a" by auto
      with nb [of q] CmdAdd show ?thesis by (auto simp: b(2))
    qed
    have new: "\<exists>a. (a, q) \<in> set (activeTimers s') \<and>
        heap s' a = Some (case cmd_adds (c # cs) ! k of (f, w, iv) \<Rightarrow> Timer_ctor f w iv q)"
      if k: "k < length (cmd_adds (c # cs))" and q: "q = numCreated s + 1 + int k"
        and nc: "\<forall>a. CmdCancel \<lparr>timer_ptr = a, id_sequence = q\<rparr> \<notin> set (c # cs)" for k q
    proof (cases k)
      case 0
      with IH [THEN conjunct2, THEN conjunct1, THEN spec, THEN spec, of q b] b(3,4) nc q
      have "(b, q) \<in> set (activeTimers s')" "heap s' b = heap s1 b" by simp_all
      with 0 q CmdAdd show ?thesis by (auto simp: b(2))
    next
      case (Suc j)
      then have "j < length (cmd_adds cs)" "q = numCreated s1 + 1 + int j" using k q CmdAdd b(4) by auto
      with IH nc have "\<exists>a. (a, q) \<in> set (activeTimers s') \<and>
        heap s' a = Some (case cmd_adds cs ! j of (f, w, iv) \<Rightarrow> Timer_ctor f w iv q)"
        unfolding Let_def by auto
      with Suc CmdAdd show ?thesis by simp
    qed
    have "numCreated s' = numCreated s + int (length (cmd_adds (c # cs)))" using IH CmdAdd b(4) by simp
    moreover have "\<forall>a \<in> H. \<forall>q. (a, q) \<in> set (cancelingTimers s') \<longleftrightarrow>
      (a, q) \<in> set (cancelingTimers s) \<or> CmdCancel \<lparr>timer_ptr = a, id_sequence = q\<rparr> \<in> set (c # cs)"
      using IH CmdAdd b(5) by simp
    ultimately show ?thesis using old new unfolding Let_def by blast
  next
    case (CmdCancel i)
    obtain a0 q0 where i: "i = \<lparr>timer_ptr = a0, id_sequence = q0\<rparr>" by (cases i) auto
    from step(3) CmdCancel i have b: "numCreated s1 = numCreated s"
      "set (activeTimers s1) = set (activeTimers s) - {(a0, q0)}"
      "\<forall>(a, q) \<in> set (activeTimers s1). heap s1 a = heap s a"
      "set (cancelingTimers s1) = set (cancelingTimers s) \<union>
        (if (a0, q0) \<notin> set (activeTimers s) then {(a0, q0)} else {})"
      using Cons.prems(2) by auto
    have old: "((a, q) \<in> set (activeTimers s') \<longleftrightarrow>
        (a, q) \<in> set (activeTimers s) \<and> CmdCancel \<lparr>timer_ptr = a, id_sequence = q\<rparr> \<notin> set (c # cs)) \<and>
      ((a, q) \<in> set (activeTimers s') \<longrightarrow> heap s' a = heap s a)" if "q \<le> numCreated s" for a q
    proof -
      have "q \<le> numCreated s1" using that b(1) by simp
      with IH [THEN conjunct2, THEN conjunct1, THEN spec, THEN spec, of q a] have "(a, q) \<in> set (activeTimers s') \<longleftrightarrow>
          (a, q) \<in> set (activeTimers s1) \<and> CmdCancel \<lparr>timer_ptr = a, id_sequence = q\<rparr> \<notin> set cs"
        "(a, q) \<in> set (activeTimers s') \<longrightarrow> heap s' a = heap s1 a" by auto
      with b(2,3) CmdCancel i show ?thesis by auto
    qed
    have held: "(a, q) \<notin> set (activeTimers s)" if "a \<in> H" for a q
      using that Cons.prems(1) tq_inv_active [OF Cons.prems(1)] tq_inv_entry [OF Cons.prems(1)] by blast
    have "\<forall>a \<in> H. \<forall>q. (a, q) \<in> set (cancelingTimers s') \<longleftrightarrow>
      (a, q) \<in> set (cancelingTimers s) \<or> CmdCancel \<lparr>timer_ptr = a, id_sequence = q\<rparr> \<in> set (c # cs)"
      using IH b(4) held CmdCancel i by auto
    moreover have "\<exists>a. (a, q) \<in> set (activeTimers s') \<and>
        heap s' a = Some (case cmd_adds (c # cs) ! k of (f, w, iv) \<Rightarrow> Timer_ctor f w iv q)"
      if k: "k < length (cmd_adds (c # cs))" and q: "q = numCreated s + 1 + int k"
        and nc: "\<forall>a. CmdCancel \<lparr>timer_ptr = a, id_sequence = q\<rparr> \<notin> set (c # cs)" for k q
      using IH [THEN conjunct2, THEN conjunct2, THEN conjunct1, THEN spec, of k] k nc CmdCancel
      unfolding Let_def q b(1) by simp
    moreover have "numCreated s' = numCreated s + int (length (cmd_adds (c # cs)))"
      using IH [THEN conjunct1] CmdCancel b(1) by simp
    ultimately show ?thesis using old unfolding Let_def by blast
  qed
qed simp

lemma cmds_fail:
  assumes "tq_inv H s" "rfold (exec_cmd alloc tm) cmds s = Inl e"
  shows "e = BadAlloc \<and> cmd_adds cmds \<noteq> [] \<and> (\<exists>h. alloc h = None)"
  using assms
proof (induction cmds arbitrary: s)
  case (Cons c cs)
  show ?case
  proof (cases "exec_cmd alloc tm c s")
    case (Inl e')
    show ?thesis
    proof (cases c)
      case (CmdAdd f w iv)
      with addTimer_ok [OF Cons.prems(1), of tm f w iv] Inl Cons.prems(2) show ?thesis by auto
    next
      case (CmdCancel i)
      with cancelInLoop_ok [OF Cons.prems(1), of i] Inl show ?thesis by auto
    qed
  next
    case (Inr s1)
    with Cons.IH [OF cmd_step(1) [OF Cons.prems(1) Inr]] Cons.prems(2)
    have "e = BadAlloc \<and> cmd_adds cs \<noteq> [] \<and> (\<exists>h. alloc h = None)" by simp
    then show ?thesis by (cases c) simp_all
  qed
qed simp

text \<open>
  The round up to \<open>reset\<close>: the state \<open>s2\<close> after the callbacks, in terms of the state before the round.
\<close>

lemma round_states:
  fixes tm :: "nat \<Rightarrow> int" and cb :: "'c \<Rightarrow> 'c timer_cmd list"
  assumes inv: "tq_inv H s"
  defines "now \<equiv> tm (clock_reads s)"
  defines "due \<equiv> filter (\<lambda>e. fst e \<le> now) (timers s)"
  defines "cmds \<equiv> concat (map (\<lambda>e. cb (callback (the (heap s (snd e))))) due)"
  shows "tq_handleRead alloc tm cb s = Inl BadAlloc \<and> cmd_adds cmds \<noteq> [] \<and> (\<exists>h. alloc h = None) \<or>
    (\<exists>s2 s'. tq_handleRead alloc tm cb s = Inr s' \<and> tq_inv H s' \<and> tq_inv (H \<union> snd ` set due) s2 \<and>
      heap s' = (\<lambda>a. if a \<in> snd ` set due then reset_fate now s2 a else heap s2 a) \<and>
      set (timers s') = set (timers s2) \<union> requeued now due s2 \<and>
      numCreated s' = numCreated s + int (length (cmd_adds cmds)) \<and>
      (\<forall>a q. q \<le> numCreated s \<longrightarrow>
        ((a, q) \<in> set (activeTimers s2) \<longleftrightarrow> (a, q) \<in> set (activeTimers s) \<and> a \<notin> snd ` set due \<and>
          CmdCancel \<lparr>timer_ptr = a, id_sequence = q\<rparr> \<notin> set cmds) \<and>
        ((a, q) \<in> set (activeTimers s2) \<longrightarrow> heap s2 a = heap s a)) \<and>
      (\<forall>k < length (cmd_adds cmds). let q = numCreated s + 1 + int k in
        (\<forall>a. CmdCancel \<lparr>timer_ptr = a, id_sequence = q\<rparr> \<notin> set cmds) \<longrightarrow>
        (\<exists>a. (a, q) \<in> set (activeTimers s2) \<and>
          heap s2 a = Some (case cmd_adds cmds ! k of (f, w, iv) \<Rightarrow> Timer_ctor f w iv q))) \<and>
      (\<forall>a \<in> snd ` set due. heap s2 a = heap s a \<and> (\<forall>q. (a, q) \<in> set (cancelingTimers s2) \<longleftrightarrow>
        CmdCancel \<lparr>timer_ptr = a, id_sequence = q\<rparr> \<in> set cmds)) \<and>
      (timers s' \<noteq> [] \<and> 0 < fst (hd (timers s')) \<longrightarrow>
        (\<exists>n. armed s' = Some (howMuchTimeFromNow (fst (hd (timers s'))) (tm n)))))"
proof -
  let ?s0 = "readTimerfd (s\<lparr>clock_reads := Suc (clock_reads s)\<rparr>)"
  have s0: "tq_inv H ?s0" "timers ?s0 = timers s" "heap ?s0 = heap s" "numCreated ?s0 = numCreated s"
    using inv by (simp_all add: readTimerfd_def)
  from getExpired_ok [OF s0(1), of now] obtain s1
    where s1: "getExpired now ?s0 = Inr (due, s1)" "tq_inv (H \<union> snd ` set due) s1"
      "timers s1 = filter (\<lambda>e. now < fst e) (timers s)" "heap s1 = heap s" "numCreated s1 = numCreated s"
    unfolding s0 due_def [symmetric] by auto
  define r where "r = s1\<lparr>callingExpiredTimers := True, cancelingTimers := []\<rparr>"
  have r: "tq_inv (H \<union> snd ` set due) r" "callingExpiredTimers r" "heap r = heap s" "numCreated r = numCreated s"
    "cancelingTimers r = []" "activeTimers r = activeTimers s1"
    using s1 by (simp_all add: r_def)
  have flat: "rfold (Timer_run alloc tm cb) due r = rfold (exec_cmd alloc tm) cmds r"
    using run_flat [OF r(1), of due tm cb] by (simp add: r(3) cmds_def)
  have active1: "(a, q) \<in> set (activeTimers r) \<longleftrightarrow> (a, q) \<in> set (activeTimers s) \<and> a \<notin> snd ` set due" for a q
  proof -
    have split: "set (timers s) = set (timers s1) \<union> set due" unfolding s1(3) due_def by auto
    have "snd ` set due \<inter> snd ` set (timers s1) = {}" using s1(2) unfolding tq_inv_def by blast
    with split have "a \<in> snd ` set (timers s1) \<longleftrightarrow> a \<in> snd ` set (timers s) \<and> a \<notin> snd ` set due" by blast
    then show ?thesis unfolding r(6) active_iff [OF s1(2)] active_iff [OF inv] s1(4) by blast
  qed
  from tq_handleRead_ok [OF inv, of tm cb, folded now_def, folded due_def, unfolded s1(1) sum.inject prod.inject]
  show ?thesis
  proof (elim disjE exE conjE, goal_cases)
    case (1 q)
    then have "rfold (Timer_run alloc tm cb) due r = Inl BadAlloc" by (simp add: r_def)
    with cmds_fail [OF r(1)] 1(1) show ?thesis unfolding flat by blast
  next
    case (2 q s2 s')
    then have "rfold (Timer_run alloc tm cb) due r = Inr s2" by (simp add: r_def)
    note run = cmds_run [OF r(1,2) this [unfolded flat], unfolded r(3,4,5) active1]
    have "numCreated s' = numCreated s + int (length (cmd_adds cmds))"
      using run [THEN conjunct1] 2(10) by simp
    moreover have "\<forall>a \<in> snd ` set due. heap s2 a = heap s a \<and> (\<forall>q. (a, q) \<in> set (cancelingTimers s2) \<longleftrightarrow>
        CmdCancel \<lparr>timer_ptr = a, id_sequence = q\<rparr> \<in> set cmds)"
      using run [THEN conjunct2, THEN conjunct2, THEN conjunct2] 2(5) by simp
    ultimately show ?thesis
      using run [THEN conjunct2, THEN conjunct1] run [THEN conjunct2, THEN conjunct2, THEN conjunct1] 2(4-)
      by (intro disjI2 exI [of _ s2] exI [of _ s'] conjI) (assumption | simp only: conj_assoc)+
  qed
qed

text \<open>What \<open>reset\<close> makes of one timer of the queue before the round.\<close>

lemma round_timer:
  assumes inv: "tq_inv H s" "tq_inv H s'" "tq_inv (H \<union> snd ` set due) s2"
    and due: "due = filter (\<lambda>e. fst e \<le> now) (timers s)"
    and s': "heap s' = (\<lambda>a. if a \<in> snd ` set due then reset_fate now s2 a else heap s2 a)"
      "set (timers s') = set (timers s2) \<union> requeued now due s2"
    and old: "\<And>a q. q \<le> numCreated s \<Longrightarrow> (a, q) \<in> set (activeTimers s2) \<longleftrightarrow>
      (a, q) \<in> set (activeTimers s) \<and> a \<notin> snd ` set due \<and> (a, q) \<notin> C"
    and same: "\<And>a q. q \<le> numCreated s \<Longrightarrow> (a, q) \<in> set (activeTimers s2) \<Longrightarrow> heap s2 a = heap s a"
    and held: "\<And>a. a \<in> snd ` set due \<Longrightarrow> heap s2 a = heap s a"
    and canc: "\<And>a q. a \<in> snd ` set due \<Longrightarrow> (a, q) \<in> set (cancelingTimers s2) \<longleftrightarrow> (a, q) \<in> C"
    and t: "heap s a = Some t" "(expiration t, a) \<in> set (timers s)"
  shows "if (a, sequence t) \<in> C \<or> expiration t \<le> now \<and> \<not> repeats t
    then (a, sequence t) \<notin> set (activeTimers s')
    else (expiration (if expiration t \<le> now then Timer_restart now t else t), a) \<in> set (timers s') \<and>
      heap s' a = Some (if expiration t \<le> now then Timer_restart now t else t)"
proof -
  have isdue: "a \<in> snd ` set due \<longleftrightarrow> expiration t \<le> now"
  proof
    assume "a \<in> snd ` set due"
    then obtain d where "(d, a) \<in> set (timers s)" "d \<le> now" by (auto simp: due)
    with tq_inv_inj [OF inv(1) t(2)] show "expiration t \<le> now" by simp
  next
    assume "expiration t \<le> now"
    with t(2) have "(expiration t, a) \<in> set due" by (simp add: due)
    then show "a \<in> snd ` set due" by (rule image_eqI [rotated]) simp
  qed
  have q: "sequence t \<le> numCreated s" using tq_inv_heap [OF inv(1) t(1)] by simp
  have act: "(a, sequence t) \<in> set (activeTimers s)" using t tq_inv_active [OF inv(1)] by blast
  show ?thesis
  proof (cases "expiration t \<le> now")
    case True
    then have a: "a \<in> snd ` set due" by (simp only: isdue)
    have fate: "reset_fate now s2 a =
        (if repeats t \<and> (a, sequence t) \<notin> C then Some (Timer_restart now t) else None)"
      by (simp add: reset_fate_def held [OF a] t(1) canc [OF a])
    have "heap s' a = reset_fate now s2 a" using a by (simp add: s'(1))
    moreover have "(a, sequence t) \<notin> set (activeTimers s')" if "heap s' a = None"
      using tq_inv_active [OF inv(2)] that by simp
    moreover have "(expiration (Timer_restart now t), a) \<in> set (timers s')"
      if "reset_fate now s2 a = Some (Timer_restart now t)"
      using a that by (simp add: s'(2) requeued_iff)
    ultimately show ?thesis using True fate by auto
  next
    case False
    with isdue have a: "a \<notin> snd ` set due" by blast
    then have heap: "heap s' a = heap s2 a" by (simp add: s'(1))
    have "(d, a) \<notin> requeued now due s2" for d using a by (simp add: requeued_iff)
    then have "(d, a) \<in> set (timers s') \<longleftrightarrow> (d, a) \<in> set (timers s2)" for d by (simp add: s'(2))
    then have "(a, sequence t) \<in> set (activeTimers s') \<longleftrightarrow> (a, sequence t) \<in> set (activeTimers s2)"
      unfolding tq_inv_active [OF inv(2)] tq_inv_active [OF inv(3)] heap by simp
    moreover have "(expiration t, a) \<in> set (timers s') \<and> heap s' a = Some t" if "(a, sequence t) \<in> set (activeTimers s2)"
      using that same [OF q that] tq_inv_active [OF inv(3)] t(1) heap by (auto simp: s'(2))
    ultimately show ?thesis using False old [OF q, of a] act a by auto
  qed
qed

lemma round_exact:
  fixes tm :: "nat \<Rightarrow> int" and cb :: "'c \<Rightarrow> 'c timer_cmd list"
  assumes inv: "tq_inv H s"
  defines "now \<equiv> tm (clock_reads s)"
  defines "cmds \<equiv> concat (map (\<lambda>e. cb (callback (the (heap s (snd e))))) (filter (\<lambda>e. fst e \<le> now) (timers s)))"
  shows "tq_handleRead alloc tm cb s = Inl BadAlloc \<and> cmd_adds cmds \<noteq> [] \<and> (\<exists>h. alloc h = None) \<or>
    (\<exists>s'. tq_handleRead alloc tm cb s = Inr s' \<and> tq_inv H s' \<and>
      numCreated s' = numCreated s + int (length (cmd_adds cmds)) \<and>
      (\<forall>a t. heap s a = Some t \<and> (expiration t, a) \<in> set (timers s) \<longrightarrow>
        (let t' = if expiration t \<le> now then Timer_restart now t else t in
         if CmdCancel \<lparr>timer_ptr = a, id_sequence = sequence t\<rparr> \<in> set cmds \<or> expiration t \<le> now \<and> \<not> repeats t
         then (a, sequence t) \<notin> set (activeTimers s')
         else (expiration t', a) \<in> set (timers s') \<and> heap s' a = Some t')) \<and>
      (\<forall>k < length (cmd_adds cmds). let q = numCreated s + 1 + int k; (f, w, iv) = cmd_adds cmds ! k in
        (\<forall>a. CmdCancel \<lparr>timer_ptr = a, id_sequence = q\<rparr> \<notin> set cmds) \<longrightarrow>
        (\<exists>a. (w, a) \<in> set (timers s') \<and> heap s' a = Some (Timer_ctor f w iv q))) \<and>
      (\<forall>(a, q) \<in> set (activeTimers s'). (a, q) \<in> set (activeTimers s) \<or> numCreated s < q) \<and>
      (timers s' \<noteq> [] \<and> 0 < fst (hd (timers s')) \<longrightarrow>
        (\<exists>n. armed s' = Some (howMuchTimeFromNow (fst (hd (timers s'))) (tm n)))))"
proof -
  define due where "due = filter (\<lambda>e. fst e \<le> now) (timers s)"
  from round_states [OF inv, of tm cb, folded now_def, folded cmds_def due_def, folded cmds_def [folded due_def]]
  show ?thesis
  proof (elim disjE exE, goal_cases)
    case (2 s2 s')
    then have run: "tq_handleRead alloc tm cb s = Inr s'" "tq_inv H s'" "tq_inv (H \<union> snd ` set due) s2"
      "heap s' = (\<lambda>a. if a \<in> snd ` set due then reset_fate now s2 a else heap s2 a)"
      "set (timers s') = set (timers s2) \<union> requeued now due s2"
      "numCreated s' = numCreated s + int (length (cmd_adds cmds))"
      and old: "\<And>a q. q \<le> numCreated s \<Longrightarrow> (a, q) \<in> set (activeTimers s2) \<longleftrightarrow>
        (a, q) \<in> set (activeTimers s) \<and> a \<notin> snd ` set due \<and>
        CmdCancel \<lparr>timer_ptr = a, id_sequence = q\<rparr> \<notin> set cmds"
      and same: "\<And>a q. q \<le> numCreated s \<Longrightarrow> (a, q) \<in> set (activeTimers s2) \<Longrightarrow> heap s2 a = heap s a"
      and new: "\<And>k. k < length (cmd_adds cmds) \<Longrightarrow>
        (\<forall>a. CmdCancel \<lparr>timer_ptr = a, id_sequence = numCreated s + 1 + int k\<rparr> \<notin> set cmds) \<Longrightarrow>
        \<exists>a. (a, numCreated s + 1 + int k) \<in> set (activeTimers s2) \<and>
          heap s2 a = Some (case cmd_adds cmds ! k of (f, w, iv) \<Rightarrow> Timer_ctor f w iv (numCreated s + 1 + int k))"
      and held: "\<And>a. a \<in> snd ` set due \<Longrightarrow> heap s2 a = heap s a"
      and canc: "\<And>a q. a \<in> snd ` set due \<Longrightarrow> (a, q) \<in> set (cancelingTimers s2) \<longleftrightarrow>
        CmdCancel \<lparr>timer_ptr = a, id_sequence = q\<rparr> \<in> set cmds"
      and arm: "timers s' \<noteq> [] \<and> 0 < fst (hd (timers s')) \<longrightarrow>
        (\<exists>n. armed s' = Some (howMuchTimeFromNow (fst (hd (timers s'))) (tm n)))"
      unfolding Let_def by blast+
    let ?C = "{(a, q). CmdCancel \<lparr>timer_ptr = a, id_sequence = q\<rparr> \<in> set cmds}"
    have timer: "let t' = if expiration t \<le> now then Timer_restart now t else t in
        if CmdCancel \<lparr>timer_ptr = a, id_sequence = sequence t\<rparr> \<in> set cmds \<or> expiration t \<le> now \<and> \<not> repeats t
        then (a, sequence t) \<notin> set (activeTimers s')
        else (expiration t', a) \<in> set (timers s') \<and> heap s' a = Some t'"
      if "heap s a = Some t" "(expiration t, a) \<in> set (timers s)" for a t
      using round_timer [OF inv run(2,3) due_def run(4,5), of ?C a t] old same held canc that by (simp add: Let_def)
    have disj: "a \<notin> snd ` set due" if "(d, a) \<in> set (timers s2)" for d a
      using tq_inv_entry [OF run(3) that] by blast
    have added: "\<exists>a. (w, a) \<in> set (timers s') \<and> heap s' a = Some (Timer_ctor f w iv (numCreated s + 1 + int k))"
      if k: "k < length (cmd_adds cmds)" and f: "cmd_adds cmds ! k = (f, w, iv)"
        and "\<forall>a. CmdCancel \<lparr>timer_ptr = a, id_sequence = numCreated s + 1 + int k\<rparr> \<notin> set cmds" for k f w iv
    proof -
      from new [OF k that(3)] f obtain a where a: "(a, numCreated s + 1 + int k) \<in> set (activeTimers s2)"
        "heap s2 a = Some (Timer_ctor f w iv (numCreated s + 1 + int k))" by auto
      with tq_inv_active [OF run(3)] have "(w, a) \<in> set (timers s2)" by (auto simp: Timer_ctor_def)
      with a(2) disj [OF this] show ?thesis by (auto simp: run(4,5))
    qed
    have origin: "(a, q) \<in> set (activeTimers s) \<or> numCreated s < q" if "(a, q) \<in> set (activeTimers s')" for a q
    proof (cases "a \<in> snd ` set due")
      case True
      then obtain d where "(d, a) \<in> set (timers s)" by (auto simp: due_def)
      with tq_inv_entry [OF inv this] obtain t
        where d: "(d, a) \<in> set (timers s)" "heap s a = Some t" "expiration t = d" by blast
      with True that have "sequence t = q"
        by (auto simp: tq_inv_active [OF run(2)] run(4) reset_fate_def held Timer_restart_def split: if_splits)
      with d show ?thesis using tq_inv_active [OF inv] by blast
    next
      case False
      with that have "(a, q) \<in> set (activeTimers s2)"
        unfolding tq_inv_active [OF run(2)] tq_inv_active [OF run(3)] run(4,5)
        by (auto simp: requeued_iff)
      with old [of q a] show ?thesis by (cases "q \<le> numCreated s") auto
    qed
    have "\<forall>k < length (cmd_adds cmds). let q = numCreated s + 1 + int k; (f, w, iv) = cmd_adds cmds ! k in
        (\<forall>a. CmdCancel \<lparr>timer_ptr = a, id_sequence = q\<rparr> \<notin> set cmds) \<longrightarrow>
        (\<exists>a. (w, a) \<in> set (timers s') \<and> heap s' a = Some (Timer_ctor f w iv q))"
      using added unfolding Let_def by (auto split: prod.split)
    moreover have "\<forall>(a, q) \<in> set (activeTimers s'). (a, q) \<in> set (activeTimers s) \<or> numCreated s < q"
      using origin by blast
    ultimately show ?thesis using run(1,2,6) timer arm by blast
  qed blast
qed
end

section \<open>Properties\<close>



lemma ff_alloc: "timer_alloc (first_free :: (nat \<Rightarrow> 'c Timer option) \<Rightarrow> nat option)"
  by (rule ff.timer_alloc_axioms)

definition one_second :: Interval where
  "one_second = \<lparr>positive = True, micros = 1000000\<rparr>"

text \<open>A queue with one repeating timer at address 1, due at 500.\<close>

definition tq_sample :: "unit tq" where
  "tq_sample = \<lparr>heap = (\<lambda>a. None)(1 \<mapsto> \<lparr>callback = (), expiration = 500, interval = one_second,
       repeats = True, sequence = 1\<rparr>), numCreated = 1, timers = [(500, 1)], activeTimers = [(1, 1)],
     callingExpiredTimers = False, cancelingTimers = [], armed = None, timerfd_count = 1, clock_reads = 0\<rparr>"

lemma tq_sample_inv: "tq_inv {} tq_sample"
  by (simp add: tq_inv_def tq_sample_def)




text \<open>
  Property C11. When the timerfd fires, whatever calls of \<open>addTimer\<close> and \<open>cancel\<close> the callbacks of
  the due timers make: either a callback that adds a timer runs out of memory, or the round ends
  with the queue intact, and each timer queued before it is removed if a callback cancelled its id
  or if it was due and does not repeat, is queued again one interval after the time read if it was
  due and repeats, and stays as it was otherwise; each timer added by a callback is queued as
  given unless its id was cancelled too, nothing else is queued, and if the first timer left lies
  after the epoch the timerfd is armed for it.
\<close>

theorem timer_round_exact:
  fixes cb :: "'c \<Rightarrow> 'c timer_cmd list"
  assumes "timer_alloc alloc" and "tq_inv H s"
    and "now = tm (clock_reads s)"
    and "cmds = concat (map (\<lambda>e. cb (callback (the (heap s (snd e))))) (filter (\<lambda>e. fst e \<le> now) (timers s)))"
  shows "tq_handleRead alloc tm cb s = Inl BadAlloc \<and> cmd_adds cmds \<noteq> [] \<and> (\<exists>h. alloc h = None) \<or>
    (\<exists>s'. tq_handleRead alloc tm cb s = Inr s' \<and> tq_inv H s' \<and>
      numCreated s' = numCreated s + int (length (cmd_adds cmds)) \<and>
      (\<forall>a t. heap s a = Some t \<and> (expiration t, a) \<in> set (timers s) \<longrightarrow>
        (let t' = if expiration t \<le> now then Timer_restart now t else t in
         if CmdCancel \<lparr>timer_ptr = a, id_sequence = sequence t\<rparr> \<in> set cmds \<or> expiration t \<le> now \<and> \<not> repeats t
         then (a, sequence t) \<notin> set (activeTimers s')
         else (expiration t', a) \<in> set (timers s') \<and> heap s' a = Some t')) \<and>
      (\<forall>k < length (cmd_adds cmds). let q = numCreated s + 1 + int k; (f, w, iv) = cmd_adds cmds ! k in
        (\<forall>a. CmdCancel \<lparr>timer_ptr = a, id_sequence = q\<rparr> \<notin> set cmds) \<longrightarrow>
        (\<exists>a. (w, a) \<in> set (timers s') \<and> heap s' a = Some (Timer_ctor f w iv q))) \<and>
      (\<forall>(a, q) \<in> set (activeTimers s'). (a, q) \<in> set (activeTimers s) \<or> numCreated s < q) \<and>
      (timers s' \<noteq> [] \<and> 0 < fst (hd (timers s')) \<longrightarrow>
        (\<exists>n. armed s' = Some (howMuchTimeFromNow (fst (hd (timers s'))) (tm n)))))"
  unfolding assms(3,4) using timer_alloc.round_exact [OF assms(1,2), of tm cb] .

text \<open>A repeating timer whose callback cancels an older timer that had the same address.\<close>

theorem timer_round_exact_witness:
  "\<exists>s'. tq_handleRead first_free (\<lambda>n. 700) (\<lambda>c. [CmdCancel \<lparr>timer_ptr = 1, id_sequence = 0\<rparr>]) tq_sample = Inr s' \<and>
    (1000700, 1) \<in> set (timers s')"
proof -
  let ?cb = "\<lambda>c :: unit. [CmdCancel \<lparr>timer_ptr = 1, id_sequence = 0\<rparr> :: unit timer_cmd]"
  let ?t = "\<lparr>callback = (), expiration = 500, interval = one_second, repeats = True, sequence = 1\<rparr>"
  have cmds: "[CmdCancel \<lparr>timer_ptr = 1, id_sequence = 0\<rparr>] =
      concat (map (\<lambda>e. ?cb (callback (the (heap tq_sample (snd e))))) (filter (\<lambda>e. fst e \<le> 700) (timers tq_sample)))"
    by (simp add: tq_sample_def)
  have t: "heap tq_sample 1 = Some ?t" "(500, 1) \<in> set (timers tq_sample)" by (simp_all add: tq_sample_def)
  show ?thesis
    using timer_round_exact [where tm = "\<lambda>n. 700" and now = 700 and cb = ?cb,
        OF ff_alloc tq_sample_inv refl cmds, unfolded Let_def]
  proof (elim disjE exE conjE, goal_cases)
    case (2 s')
    from 2(4) [rule_format, of 1 ?t] t have "(1000700, 1) \<in> set (timers s')"
      by (simp add: Timer_restart_def addTime_def one_second_def)
    with 2(1) show ?case by blast
  qed simp
qed

text \<open>
  A due timer whose callback cancels its own id is deleted when the round ends, even
  if it repeats and whatever the other callbacks of the round do.
\<close>

lemma timer_self_cancel:
  assumes "timer_alloc alloc" and "tq_inv H s"
    and "(d, a) \<in> set (timers s)" and "d \<le> tm (clock_reads s)" and "heap s a = Some t"
    and "CmdCancel \<lparr>timer_ptr = a, id_sequence = sequence t\<rparr> \<in> set (cb (callback t))"
    and "tq_handleRead alloc tm cb s = Inr s'"
  shows "heap s' a = None \<and> a \<notin> snd ` set (timers s')"
proof -
  have "heap s' a = None"
    using timer_alloc.cancelled_timer_deleted [OF assms(1,2), of "(d, a)" tm t cb s'] assms(3-7) by simp
  moreover have "tq_inv H s'"
    using timer_alloc.tq_handleRead_ok [OF assms(1,2), of tm cb] assms(7) by auto
  ultimately show ?thesis unfolding tq_inv_def by blast
qed

lemma timer_self_cancel_witness:
  "\<exists>s'. tq_handleRead first_free (\<lambda>n. 700) (\<lambda>c. [CmdCancel \<lparr>timer_ptr = 1, id_sequence = 1\<rparr>]) tq_sample = Inr s' \<and>
     heap s' 1 = None"
proof -
  let ?cb = "\<lambda>c. [CmdCancel \<lparr>timer_ptr = 1, id_sequence = 1\<rparr>]"
  have "\<exists>s'. tq_handleRead first_free (\<lambda>n. 700) ?cb tq_sample = Inr s'"
    by (simp add: tq_handleRead_def tq_sample_def readTimerfd_def getExpired_def oset_below_def oset_from_def
        erase_active_def deref_def oset_erase_def Timer_run_def cancelInLoop_def oset_insert_def tq_reset_def
        reset_one_def tq_delete_def ts_valid_def ts_invalid_def less_prod_def)
  then obtain s' where "tq_handleRead first_free (\<lambda>n. 700) ?cb tq_sample = Inr s'" by blast
  moreover from timer_self_cancel [OF ff_alloc tq_sample_inv, of 500 1 "\<lambda>n. 700" _ ?cb, OF _ _ _ _ this]
  have "heap s' 1 = None" by (simp add: tq_sample_def)
  ultimately show ?thesis by blast
qed

text \<open>
  \<open>cancelInLoop\<close> never fails and removes exactly the timer with both the address and
  the sequence number of the id: an id whose address was reused by a younger timer cancels nothing.
\<close>

lemma cancel_exact:
  assumes "tq_inv H s"
  shows "\<exists>s'. cancelInLoop i s = Inr s' \<and> tq_inv H s' \<and>
    set (timers s') = {(d, a) \<in> set (timers s). a \<noteq> timer_ptr i \<or> sequence (the (heap s a)) \<noteq> id_sequence i}"
  using cancelInLoop_ok [OF assms, of i] by blast

lemma cancel_exact_witness:
  "(\<exists>s'. cancelInLoop \<lparr>timer_ptr = 1, id_sequence = 1\<rparr> tq_sample = Inr s' \<and> set (timers s') = {}) \<and>
   (\<exists>s'. cancelInLoop \<lparr>timer_ptr = 1, id_sequence = 0\<rparr> tq_sample = Inr s' \<and> set (timers s') = {(500, 1)})"
  using cancel_exact [OF tq_sample_inv, of "\<lparr>timer_ptr = 1, id_sequence = 1\<rparr>"]
    cancel_exact [OF tq_sample_inv, of "\<lparr>timer_ptr = 1, id_sequence = 0\<rparr>"]
  by (auto simp: tq_sample_def)

text \<open>
  Property C20. The test of \<open>insert\<close> is the wrong way round: adding a timer that is due before every
  queued one leaves the timerfd armed as it was, and adding one due after the first re-arms the
  timerfd for the later of the two, so that in both cases the timerfd is not armed for the
  earliest timer by this call.
\<close>

theorem addTimerInLoop_arms_backwards:
  assumes "tq_inv H s" and "a \<in> H" and "heap s a = Some t" and "timers s \<noteq> []"
  shows "\<exists>s'. addTimerInLoop tm a s = Inr s' \<and> set (timers s') = insert (expiration t, a) (set (timers s)) \<and>
    armed s' = (if expiration t > fst (hd (timers s))
      then Some (howMuchTimeFromNow (expiration t) (tm (clock_reads s))) else armed s)"
  using addTimerInLoop_ok [OF assms(1-3), of tm] assms(4) by (auto simp: set_insort_key)

theorem addTimerInLoop_arms_backwards_witness:
  "\<exists>s s'. timers s = [(500 :: int, 1)] \<and> addTimerInLoop (\<lambda>n. 0) 2 s = Inr s' \<and>
     (200, 2) \<in> set (timers (s' :: unit tq)) \<and> armed s' = armed s"
proof -
  let ?t = "\<lparr>callback = (), expiration = 200, interval = one_second, repeats = True, sequence = 2\<rparr>"
  let ?s = "tq_sample\<lparr>heap := (heap tq_sample)(2 \<mapsto> ?t), numCreated := 2\<rparr>"
  have inv: "tq_inv {2} ?s" by (auto simp: tq_inv_def tq_sample_def)
  from addTimerInLoop_arms_backwards [OF inv, of 2 ?t "\<lambda>n. 0"] obtain s'
    where "addTimerInLoop (\<lambda>n. 0) 2 ?s = Inr s'" "set (timers s') = insert (200, 2) (set (timers ?s))"
      "armed s' = armed ?s" by (auto simp: tq_sample_def)
  then show ?thesis
    by (intro exI [of _ ?s] exI [of _ s'] conjI) (simp_all add: tq_sample_def)
qed

text \<open>
  The timeout given to the kernel is never shorter than 100 microseconds, is exact
  above that, and its nanosecond part is always valid.
\<close>

lemma howMuchTimeFromNow_bounds:
  "case howMuchTimeFromNow w now of (sec, nsec) \<Rightarrow>
     0 \<le> sec \<and> 0 \<le> nsec \<and> nsec < 1000000000 \<and> sec * 1000000000 + nsec = max 100 (w - now) * 1000"
proof -
  let ?m = "max 100 (w - now)"
  have m: "(if w - now < 100 then 100 else w - now) = ?m" "0 \<le> ?m" by auto
  have "1000000 * (?m div 1000000) + ?m mod 1000000 = ?m" by (rule mult_div_mod_eq)
  then have "?m div 1000000 * 1000000000 + ?m mod 1000000 * 1000 = ?m * 1000" by linarith
  with m show ?thesis
    by (simp add: howMuchTimeFromNow_def Let_def kMicroSecondsPerSecond_def c_div_nonneg c_mod_nonneg
        pos_imp_zdiv_nonneg_iff)
qed

end
