(* ===== verification/NW_EventLoop.thy ===== *)
theory NW_EventLoop
  imports NW_TimerQueue
begin

text \<open>
  \<^verbatim>\<open>networker/net/EventLoop.h\<close> and \<^verbatim>\<open>EventLoop.cpp\<close>: the loop thread, the queue of
  functors other threads hand to it, and the eventfd that wakes it up.

  A functor is a label and the calls its body makes on the loop (\<open>runInLoop\<close>, \<open>queueInLoop\<close>,
  \<open>quit\<close>). \<open>run_cmd\<close> and \<open>run_functor\<close> run it in the loop thread; \<open>doPendingFunctors\<close> is the
  sequential function. The step relation \<open>el_step\<close> interleaves the statements of \<open>loop()\<close> with
  the two halves of \<open>queueInLoop\<close> and \<open>quit\<close> in other threads (the push under the mutex or the
  store to \<open>quit_\<close>, then the write to the eventfd); \<open>el_inflight\<close> counts the threads between the
  halves. \<open>el_batch\<close> is the local vector of \<open>doPendingFunctors\<close> and \<open>el_todo\<close> what remains of
  the callback being run. \<open>el_queued\<close>, \<open>el_ran\<close>, \<open>el_trace\<close> and \<open>el_idleq\<close> are history:
  the functors ever queued, those taken from the queue, the labels run, and whether the loop
  thread itself queued something while it was not looping.
\<close>

section \<open>Functors\<close>

datatype Functor = Functor nat "fcmd list"
  and fcmd = RunInLoop Functor | QueueInLoop Functor | Quit

primrec functor_label :: "Functor \<Rightarrow> nat" where
  "functor_label (Functor l cs) = l"

primrec functor_body :: "Functor \<Rightarrow> fcmd list" where
  "functor_body (Functor l cs) = cs"

datatype el_pc = PcIdle | PcTest | PcPoll | PcEvents | PcSwap | PcRun

datatype el_cmd = Cmd fcmd | ReadEventfd

record el =
  looping :: bool
  quit :: bool
  eventHandling_l :: bool
  callingPendingFunctors :: bool
  iteration :: nat
  pendingFunctors :: "Functor list"
  eventfd :: nat
  el_pc :: el_pc
  el_batch :: "Functor list"
  el_todo :: "el_cmd list"
  el_inflight :: nat
  el_queued :: "Functor list"
  el_ran :: "Functor list"
  el_trace :: "nat list"
  el_idleq :: bool

text \<open>The constructor does not initialise \<open>callingPendingFunctors_\<close>: its value is an argument.\<close>

definition EventLoop_ctor :: "bool \<Rightarrow> el" where
  "EventLoop_ctor garbage = \<lparr>looping = False, quit = False, eventHandling_l = False,
     callingPendingFunctors = garbage, iteration = 0, pendingFunctors = [], eventfd = 0, el_pc = PcIdle,
     el_batch = [], el_todo = [], el_inflight = 0, el_queued = [], el_ran = [], el_trace = [], el_idleq = False\<rparr>"

section \<open>Operations\<close>

text \<open>Writing 1 to an eventfd: the counter stops below \<open>2 ^ 64 - 1\<close>.\<close>

definition el_wakeup :: "el \<Rightarrow> el" where
  "el_wakeup s = s\<lparr>eventfd := (if eventfd s + 1 < 2 ^ 64 - 1 then eventfd s + 1 else eventfd s)\<rparr>"

definition el_handleRead :: "el \<Rightarrow> el" where
  "el_handleRead s = s\<lparr>eventfd := 0\<rparr>"

definition el_push :: "Functor \<Rightarrow> el \<Rightarrow> el" where
  "el_push f s = s\<lparr>pendingFunctors := pendingFunctors s @ [f], el_queued := el_queued s @ [f]\<rparr>"

definition queueInLoop :: "bool \<Rightarrow> Functor \<Rightarrow> el \<Rightarrow> el" where
  "queueInLoop isInLoopThread f s =
     (let s1 = el_push f s
      in if \<not> isInLoopThread \<or> callingPendingFunctors s1 then el_wakeup s1 else s1)"

definition el_quit :: "bool \<Rightarrow> el \<Rightarrow> el" where
  "el_quit isInLoopThread s = (let s1 = s\<lparr>quit := True\<rparr> in if \<not> isInLoopThread then el_wakeup s1 else s1)"

definition queueSize :: "el \<Rightarrow> nat" where
  "queueSize s = length (pendingFunctors s)"

text \<open>Running a functor in the loop thread: \<open>runInLoop\<close> calls it at once.\<close>

fun run_functor :: "Functor \<Rightarrow> el \<Rightarrow> el" and run_cmd :: "fcmd \<Rightarrow> el \<Rightarrow> el" and run_cmds :: "fcmd list \<Rightarrow> el \<Rightarrow> el" where
  "run_functor (Functor l cs) s = run_cmds cs (s\<lparr>el_trace := el_trace s @ [l]\<rparr>)"
| "run_cmd (RunInLoop f) s = run_functor f s"
| "run_cmd (QueueInLoop f) s = queueInLoop True f s"
| "run_cmd Quit s = el_quit True s"
| "run_cmds [] s = s"
| "run_cmds (c # cs) s = run_cmds cs (run_cmd c s)"

definition runInLoop :: "bool \<Rightarrow> Functor \<Rightarrow> el \<Rightarrow> el" where
  "runInLoop isInLoopThread f s = (if isInLoopThread then run_functor f s else queueInLoop False f s)"

definition doPendingFunctors :: "el \<Rightarrow> el" where
  "doPendingFunctors s =
     (let s1 = s\<lparr>callingPendingFunctors := True\<rparr>; functors = pendingFunctors s1;
          s2 = s1\<lparr>pendingFunctors := []\<rparr>;
          s3 = fold (\<lambda>f s. run_functor f (s\<lparr>el_ran := el_ran s @ [f]\<rparr>)) functors s2
      in s3\<lparr>callingPendingFunctors := False\<rparr>)"

text \<open>The timer interface: a delay of type \<open>double\<close> as in the timer queue.\<close>

definition runAt ::
    "((nat \<Rightarrow> 'c Timer option) \<Rightarrow> nat option) \<Rightarrow> (nat \<Rightarrow> int) \<Rightarrow> int \<Rightarrow> 'c \<Rightarrow> 'c tq \<Rightarrow> (TimerId \<times> 'c tq) result" where
  "runAt alloc tm time cb s = addTimer alloc tm cb time \<lparr>positive = False, micros = 0\<rparr> s"

definition runAfter ::
    "((nat \<Rightarrow> 'c Timer option) \<Rightarrow> nat option) \<Rightarrow> (nat \<Rightarrow> int) \<Rightarrow> Interval \<Rightarrow> 'c \<Rightarrow> 'c tq \<Rightarrow> (TimerId \<times> 'c tq) result" where
  "runAfter alloc tm delay cb s =
     (let time = addTime (tm (clock_reads s)) delay
      in runAt alloc tm time cb (s\<lparr>clock_reads := Suc (clock_reads s)\<rparr>))"

definition runEvery ::
    "((nat \<Rightarrow> 'c Timer option) \<Rightarrow> nat option) \<Rightarrow> (nat \<Rightarrow> int) \<Rightarrow> Interval \<Rightarrow> 'c \<Rightarrow> 'c tq \<Rightarrow> (TimerId \<times> 'c tq) result" where
  "runEvery alloc tm iv cb s =
     (let time = addTime (tm (clock_reads s)) iv
      in addTimer alloc tm cb time iv (s\<lparr>clock_reads := Suc (clock_reads s)\<rparr>))"

section \<open>The loop and the other threads\<close>

text \<open>One statement of the callback the loop thread is running.\<close>

definition el_do_cmd :: "el_cmd \<Rightarrow> el \<Rightarrow> el" where
  "el_do_cmd c s =
     (case c of
        ReadEventfd \<Rightarrow> el_handleRead s
      | Cmd (RunInLoop f) \<Rightarrow>
          s\<lparr>el_todo := map Cmd (functor_body f) @ el_todo s, el_trace := el_trace s @ [functor_label f]\<rparr>
      | Cmd (QueueInLoop f) \<Rightarrow> queueInLoop True f s
      | Cmd Quit \<Rightarrow> el_quit True s)"

inductive el_step :: "el \<Rightarrow> el \<Rightarrow> bool" where
  \<comment> \<open>\<open>loop()\<close>\<close>
  loop_start: "el_pc s = PcIdle \<Longrightarrow> \<not> looping s \<Longrightarrow>
    el_step s (s\<lparr>looping := True, quit := False, el_pc := PcTest\<rparr>)"
| loop_exit: "el_pc s = PcTest \<Longrightarrow> quit s \<Longrightarrow> el_step s (s\<lparr>looping := False, el_pc := PcIdle\<rparr>)"
| loop_go: "el_pc s = PcTest \<Longrightarrow> \<not> quit s \<Longrightarrow> el_step s (s\<lparr>el_pc := PcPoll\<rparr>)"
  \<comment> \<open>\<open>poll\<close> returns: the eventfd is reported exactly when it is readable, other channels run any calls\<close>
| poll_return: "el_pc s = PcPoll \<Longrightarrow>
    todo = map Cmd us @ (if 0 < eventfd s then [ReadEventfd] else []) @ map Cmd vs \<Longrightarrow>
    el_step s (s\<lparr>iteration := iteration s + 1, eventHandling_l := True, el_todo := todo, el_pc := PcEvents\<rparr>)"
| exec: "el_pc s = PcEvents \<or> el_pc s = PcRun \<Longrightarrow> el_todo s = c # cs \<Longrightarrow>
    el_step s (el_do_cmd c (s\<lparr>el_todo := cs\<rparr>))"
  \<comment> \<open>\<open>doPendingFunctors\<close>\<close>
| events_done: "el_pc s = PcEvents \<Longrightarrow> el_todo s = [] \<Longrightarrow>
    el_step s (s\<lparr>eventHandling_l := False, callingPendingFunctors := True, el_pc := PcSwap\<rparr>)"
| swap: "el_pc s = PcSwap \<Longrightarrow>
    el_step s (s\<lparr>el_batch := pendingFunctors s, pendingFunctors := [], el_idleq := False, el_pc := PcRun\<rparr>)"
| next_functor: "el_pc s = PcRun \<Longrightarrow> el_todo s = [] \<Longrightarrow> el_batch s = f # fs \<Longrightarrow>
    el_step s (s\<lparr>el_batch := fs, el_ran := el_ran s @ [f], el_todo := [Cmd (RunInLoop f)]\<rparr>)"
| run_done: "el_pc s = PcRun \<Longrightarrow> el_todo s = [] \<Longrightarrow> el_batch s = [] \<Longrightarrow>
    el_step s (s\<lparr>callingPendingFunctors := False, el_pc := PcTest\<rparr>)"
  \<comment> \<open>the loop thread before or after \<open>loop()\<close>\<close>
| idle_queue: "el_pc s = PcIdle \<Longrightarrow> el_step s ((queueInLoop True f s)\<lparr>el_idleq := True\<rparr>)"
  \<comment> \<open>other threads\<close>
| other_push: "el_step s ((el_push f s)\<lparr>el_inflight := Suc (el_inflight s)\<rparr>)"
| other_quit: "el_step s (s\<lparr>quit := True, el_inflight := Suc (el_inflight s)\<rparr>)"
| other_wake: "0 < el_inflight s \<Longrightarrow> el_step s (el_wakeup (s\<lparr>el_inflight := el_inflight s - 1\<rparr>))"

section \<open>Invariant\<close>

text \<open>A queued functor that no later iteration is bound to notice.\<close>

definition el_woken :: "el \<Rightarrow> bool" where
  "el_woken s \<longleftrightarrow> pendingFunctors s = [] \<or> 0 < eventfd s \<or> 0 < el_inflight s \<or> el_idleq s"

definition el_inv :: "el \<Rightarrow> bool" where
  "el_inv s \<longleftrightarrow>
     el_ran s @ el_batch s @ pendingFunctors s = el_queued s \<and>
     (looping s \<longleftrightarrow> el_pc s \<noteq> PcIdle) \<and>
     (el_pc s \<in> {PcSwap, PcRun} \<longrightarrow> callingPendingFunctors s) \<and>
     (el_pc s \<noteq> PcRun \<longrightarrow> el_batch s = []) \<and>
     (el_pc s \<notin> {PcEvents, PcRun} \<longrightarrow> el_todo s = []) \<and>
     (el_pc s = PcRun \<longrightarrow> ReadEventfd \<notin> set (el_todo s)) \<and>
     (el_pc s \<notin> {PcEvents, PcSwap} \<longrightarrow> el_woken s)"

lemma eventfd_wakeup: "0 < eventfd (el_wakeup s)"
  by (auto simp: el_wakeup_def)

lemmas el_ops = el_wakeup_def el_handleRead_def el_push_def queueInLoop_def el_quit_def Let_def

lemma el_do_cmd_inv:
  assumes inv: "el_inv s" and pc: "el_pc s = PcEvents \<or> el_pc s = PcRun" and todo: "el_todo s = c # cs"
  shows "el_inv (el_do_cmd c (s\<lparr>el_todo := cs\<rparr>))"
proof (cases c)
  case (Cmd f)
  then show ?thesis
    using assms by (cases f) (auto simp: el_do_cmd_def el_inv_def el_woken_def el_ops)
next
  case ReadEventfd
  then show ?thesis
    using assms by (auto simp: el_do_cmd_def el_inv_def el_woken_def el_ops)
qed

interpretation el: transition_system "\<lambda>s. \<exists>b. s = EventLoop_ctor b" el_step el_inv
proof
  show "\<exists>b. s = EventLoop_ctor b \<Longrightarrow> el_inv s" for s
    by (auto simp: EventLoop_ctor_def el_inv_def el_woken_def)
  show "el_inv t" if "el_inv s" "el_step s t" for s t
    using that(2,1)
  proof cases
    case (exec c cs)
    with that(1) el_do_cmd_inv show ?thesis by blast
  qed (auto simp: el_inv_def el_woken_def el_ops)
qed

section \<open>Running functors to completion\<close>

text \<open>What running callbacks in the loop thread does to the queue.\<close>

definition el_grows :: "el \<Rightarrow> el \<Rightarrow> bool" where
  "el_grows s t \<longleftrightarrow> (\<exists>new. pendingFunctors t = pendingFunctors s @ new \<and> el_queued t = el_queued s @ new \<and>
     (callingPendingFunctors s \<and> new \<noteq> [] \<longrightarrow> 0 < eventfd t)) \<and> el_ran t = el_ran s \<and>
     callingPendingFunctors t = callingPendingFunctors s \<and> el_pc t = el_pc s \<and> el_inflight t = el_inflight s \<and>
     (0 < eventfd s \<longrightarrow> 0 < eventfd t)"

lemma el_grows_refl: "el_grows s s"
  by (simp add: el_grows_def)

lemma el_grows_trans: "el_grows s t \<Longrightarrow> el_grows t u \<Longrightarrow> el_grows s u"
  unfolding el_grows_def by auto

lemma run_grows:
  "el_grows s (run_functor f s)" "el_grows s (run_cmd c s)" "el_grows s (run_cmds cs s)"
proof (induction f s and c s and cs s rule: run_functor_run_cmd_run_cmds.induct)
  case (1 l cs s)
  then show ?case by (auto simp: el_grows_def)
next
  case (3 f s)
  then show ?case by (auto simp: el_grows_def el_ops)
next
  case (6 c cs s)
  then show ?case by (auto intro: el_grows_trans)
qed (auto simp: el_grows_def el_ops)

text \<open>Running a callback commutes with every update it neither reads nor writes.\<close>

lemma run_commute:
  assumes trace: "\<And>s t. g (s\<lparr>el_trace := t\<rparr>) = (g s)\<lparr>el_trace := t\<rparr>" "\<And>s. el_trace (g s) = el_trace s"
    and ops: "\<And>f s. queueInLoop True f (g s) = g (queueInLoop True f s)"
      "\<And>s. el_quit True (g s) = g (el_quit True s)"
  shows "run_functor f (g s) = g (run_functor f s)" and "run_cmd c (g s) = g (run_cmd c s)"
    and "run_cmds cs (g s) = g (run_cmds cs s)"
proof (induction f s and c s and cs s rule: run_functor_run_cmd_run_cmds.induct)
  case (1 l cs s)
  then show ?case by (simp only: run_functor.simps trace)
qed (simp_all add: ops)

lemma run_frame:
  "run_functor f (s\<lparr>el_todo := x\<rparr>) = (run_functor f s)\<lparr>el_todo := x\<rparr>"
  "run_functor f (s\<lparr>el_batch := y\<rparr>) = (run_functor f s)\<lparr>el_batch := y\<rparr>"
  "run_functor f (s\<lparr>el_pc := p\<rparr>) = (run_functor f s)\<lparr>el_pc := p\<rparr>"
  "run_functor f (s\<lparr>el_idleq := b\<rparr>) = (run_functor f s)\<lparr>el_idleq := b\<rparr>"
  by (rule run_commute(1) [where g = "\<lambda>s. s\<lparr>el_todo := x\<rparr>"], auto simp: el_ops)
    (rule run_commute(1) [where g = "\<lambda>s. s\<lparr>el_batch := y\<rparr>"], auto simp: el_ops,
     rule run_commute(1) [where g = "\<lambda>s. s\<lparr>el_pc := p\<rparr>"], auto simp: el_ops,
     rule run_commute(1) [where g = "\<lambda>s. s\<lparr>el_idleq := b\<rparr>"], auto simp: el_ops)

text \<open>The interleaved loop thread, left alone, computes \<open>run_functor\<close>.\<close>

lemma exec_simulates:
  "el_pc s = PcEvents \<or> el_pc s = PcRun \<Longrightarrow>
     el_step\<^sup>*\<^sup>* (s\<lparr>el_todo := Cmd (RunInLoop f) # rest\<rparr>) ((run_functor f s)\<lparr>el_todo := rest\<rparr>)"
  "el_pc s = PcEvents \<or> el_pc s = PcRun \<Longrightarrow>
     el_step\<^sup>*\<^sup>* (s\<lparr>el_todo := Cmd c # rest\<rparr>) ((run_cmd c s)\<lparr>el_todo := rest\<rparr>)"
  "el_pc s = PcEvents \<or> el_pc s = PcRun \<Longrightarrow>
     el_step\<^sup>*\<^sup>* (s\<lparr>el_todo := map Cmd cs @ rest\<rparr>) ((run_cmds cs s)\<lparr>el_todo := rest\<rparr>)"
proof (induction f s and c s and cs s arbitrary: rest and rest and rest rule: run_functor_run_cmd_run_cmds.induct)
  case (1 l cs s)
  let ?s = "s\<lparr>el_todo := Cmd (RunInLoop (Functor l cs)) # rest\<rparr>"
  have "el_step ?s (el_do_cmd (Cmd (RunInLoop (Functor l cs))) (?s\<lparr>el_todo := rest\<rparr>))"
    by (rule el_step.exec) (use 1 in simp_all)
  moreover have "el_do_cmd (Cmd (RunInLoop (Functor l cs))) (?s\<lparr>el_todo := rest\<rparr>) =
      (s\<lparr>el_trace := el_trace s @ [l]\<rparr>)\<lparr>el_todo := map Cmd cs @ rest\<rparr>"
    by (simp add: el_do_cmd_def)
  ultimately show ?case using 1 by (simp add: converse_rtranclp_into_rtranclp)
next
  case (3 f s)
  have "el_step (s\<lparr>el_todo := Cmd (QueueInLoop f) # rest\<rparr>)
      (el_do_cmd (Cmd (QueueInLoop f)) (s\<lparr>el_todo := rest\<rparr>))"
    using el_step.exec [of "s\<lparr>el_todo := Cmd (QueueInLoop f) # rest\<rparr>"] 3 by simp
  moreover have "el_do_cmd (Cmd (QueueInLoop f)) (s\<lparr>el_todo := rest\<rparr>) = (run_cmd (QueueInLoop f) s)\<lparr>el_todo := rest\<rparr>"
    by (simp add: el_do_cmd_def el_ops)
  ultimately show ?case by auto
next
  case (4 s)
  have "el_step (s\<lparr>el_todo := Cmd Quit # rest\<rparr>) (el_do_cmd (Cmd Quit) (s\<lparr>el_todo := rest\<rparr>))"
    using el_step.exec [of "s\<lparr>el_todo := Cmd Quit # rest\<rparr>"] 4 by simp
  moreover have "el_do_cmd (Cmd Quit) (s\<lparr>el_todo := rest\<rparr>) = (run_cmd Quit s)\<lparr>el_todo := rest\<rparr>"
    by (cases s) (simp add: el_do_cmd_def el_ops)
  ultimately show ?case by auto
next
  case (6 c cs s)
  from 6(1) [OF 6(3), of "map Cmd cs @ rest"]
  have "el_step\<^sup>*\<^sup>* (s\<lparr>el_todo := Cmd c # map Cmd cs @ rest\<rparr>) ((run_cmd c s)\<lparr>el_todo := map Cmd cs @ rest\<rparr>)" .
  also have "el_step\<^sup>*\<^sup>* \<dots> ((run_cmds cs (run_cmd c s))\<lparr>el_todo := rest\<rparr>)"
    using 6(2,3) run_grows(2) [of s c] by (simp add: el_grows_def)
  finally show ?case by simp
qed simp_all

abbreviation run_ran :: "Functor \<Rightarrow> el \<Rightarrow> el" where
  "run_ran f s \<equiv> run_functor f (s\<lparr>el_ran := el_ran s @ [f]\<rparr>)"

text \<open>The batch loop of \<open>doPendingFunctors\<close>, step by step and as a fold.\<close>

lemma batch_simulates:
  assumes "el_pc s = PcRun"
  shows "el_step\<^sup>*\<^sup>* (s\<lparr>el_todo := [], el_batch := fs\<rparr>) ((fold run_ran fs s)\<lparr>el_todo := [], el_batch := []\<rparr>)"
  using assms
proof (induction fs arbitrary: s)
  case (Cons f fs)
  let ?s = "s\<lparr>el_ran := el_ran s @ [f]\<rparr>"
  have "el_step (s\<lparr>el_todo := [], el_batch := f # fs\<rparr>) (?s\<lparr>el_todo := [Cmd (RunInLoop f)], el_batch := fs\<rparr>)"
    using el_step.next_functor [of "s\<lparr>el_todo := [], el_batch := f # fs\<rparr>" f fs] Cons.prems
    by (cases s) simp
  moreover have "el_step\<^sup>*\<^sup>* ((?s\<lparr>el_batch := fs\<rparr>)\<lparr>el_todo := Cmd (RunInLoop f) # []\<rparr>)
      ((run_functor f (?s\<lparr>el_batch := fs\<rparr>))\<lparr>el_todo := []\<rparr>)"
    using Cons.prems by (intro exec_simulates(1)) simp
  moreover have "(?s\<lparr>el_batch := fs\<rparr>)\<lparr>el_todo := [Cmd (RunInLoop f)]\<rparr> =
      ?s\<lparr>el_todo := [Cmd (RunInLoop f)], el_batch := fs\<rparr>" by (cases s) simp
  moreover have "(run_functor f (?s\<lparr>el_batch := fs\<rparr>))\<lparr>el_todo := []\<rparr> = (run_ran f s)\<lparr>el_todo := [], el_batch := fs\<rparr>"
    unfolding run_frame by (cases "run_ran f s") simp
  moreover have "el_pc (run_ran f s) = PcRun"
    using run_grows(1) [of ?s f] Cons.prems by (simp add: el_grows_def)
  from Cons.IH [OF this] have "el_step\<^sup>*\<^sup>* ((run_ran f s)\<lparr>el_todo := [], el_batch := fs\<rparr>)
      ((fold run_ran (f # fs) s)\<lparr>el_todo := [], el_batch := []\<rparr>)" by simp
  ultimately show ?case by simp
qed simp

lemma fold_run_ran:
  assumes "callingPendingFunctors s"
  shows "el_ran (fold run_ran fs s) = el_ran s @ fs \<and> callingPendingFunctors (fold run_ran fs s) \<and>
    el_pc (fold run_ran fs s) = el_pc s \<and> (0 < eventfd s \<longrightarrow> 0 < eventfd (fold run_ran fs s)) \<and>
    (\<exists>new. pendingFunctors (fold run_ran fs s) = pendingFunctors s @ new \<and>
       el_queued (fold run_ran fs s) = el_queued s @ new \<and> (new \<noteq> [] \<longrightarrow> 0 < eventfd (fold run_ran fs s)))"
  using assms
proof (induction fs arbitrary: s)
  case (Cons f fs)
  have g: "el_grows (s\<lparr>el_ran := el_ran s @ [f]\<rparr>) (run_ran f s)" by (rule run_grows)
  then have "callingPendingFunctors (run_ran f s)" using Cons.prems by (simp add: el_grows_def)
  from Cons.IH [OF this] g Cons.prems show ?case by (auto simp: el_grows_def)
qed simp

lemma el_reachable_inv: "el_step\<^sup>*\<^sup>* (EventLoop_ctor garbage) s \<Longrightarrow> el_inv s"
  by (rule el.reachable_inv) auto

lemma steps3: "r a b \<Longrightarrow> r b c \<Longrightarrow> r c d \<Longrightarrow> r\<^sup>*\<^sup>* a d"
  by (rule converse_rtranclp_into_rtranclp [OF _ converse_rtranclp_into_rtranclp [OF _ r_into_rtranclp]])

section \<open>Properties\<close>

text \<open>
  Property C7. In every interleaving, the functors taken from the queue, the batch being run and
  the pending ones are, in this order, exactly the functors ever queued: each is run once, in the
  order of the pushes, and none is lost; the loop is marked looping exactly between the start and
  the exit of \<open>loop()\<close>.
\<close>

theorem functors_run_once_in_order:
  assumes "el_step\<^sup>*\<^sup>* (EventLoop_ctor garbage) s"
  shows "el_ran s @ el_batch s @ pendingFunctors s = el_queued s \<and> (looping s \<longleftrightarrow> el_pc s \<noteq> PcIdle) \<and>
    (el_pc s = PcPoll \<longrightarrow> el_queued s = el_ran s @ pendingFunctors s)"
  using el_reachable_inv [OF assms] by (auto simp: el_inv_def)

theorem functors_run_once_in_order_witness:
  "\<exists>s :: el. el_pc s = PcIdle \<and> el_queued s = [Functor 7 []] \<and>
     el_ran s @ el_batch s @ pendingFunctors s = el_queued s"
proof -
  let ?s = "(el_push (Functor 7 []) (EventLoop_ctor True))\<lparr>el_inflight := Suc (el_inflight (EventLoop_ctor True))\<rparr>"
  have "el_step\<^sup>*\<^sup>* (EventLoop_ctor True) ?s" by (rule r_into_rtranclp) (rule el_step.other_push)
  from functors_run_once_in_order [OF this]
  have "el_pc ?s = PcIdle \<and> el_queued ?s = [Functor 7 []] \<and>
      el_ran ?s @ el_batch ?s @ pendingFunctors ?s = el_queued ?s"
    by (simp add: el_push_def EventLoop_ctor_def)
  then show ?thesis by (rule exI [of _ ?s])
qed

text \<open>
  Property C6. No wake-up is lost: when the loop is about to block in \<open>poll\<close> while a functor is
  pending, the eventfd is readable or some thread is about to write it, unless the loop thread
  itself queued the functor while it was not looping.
\<close>

theorem no_lost_wakeup:
  assumes "el_step\<^sup>*\<^sup>* (EventLoop_ctor garbage) s" and "el_pc s = PcPoll" and "pendingFunctors s \<noteq> []"
    and "\<not> el_idleq s"
  shows "0 < eventfd s \<or> 0 < el_inflight s"
  using el_reachable_inv [OF assms(1)] assms(2-4) by (auto simp: el_inv_def el_woken_def)

theorem no_lost_wakeup_witness:
  "\<exists>s :: el. el_pc s = PcPoll \<and> pendingFunctors s \<noteq> [] \<and> (0 < eventfd s \<or> 0 < el_inflight s)"
proof -
  let ?s1 = "(EventLoop_ctor True)\<lparr>looping := True, quit := False, el_pc := PcTest\<rparr>"
  let ?s2 = "?s1\<lparr>el_pc := PcPoll\<rparr>"
  let ?s3 = "(el_push (Functor 7 []) ?s2)\<lparr>el_inflight := Suc (el_inflight ?s2)\<rparr>"
  have 1: "el_step (EventLoop_ctor True) ?s1"
    by (rule el_step.loop_start) (simp_all add: EventLoop_ctor_def)
  have 2: "el_step ?s1 ?s2" by (rule el_step.loop_go) simp_all
  have 3: "el_step ?s2 ?s3" by (rule el_step.other_push)
  have "el_step\<^sup>*\<^sup>* (EventLoop_ctor True) ?s3" using 1 2 3 by (rule steps3)
  from no_lost_wakeup [OF this] have "el_pc ?s3 = PcPoll \<and> pendingFunctors ?s3 \<noteq> [] \<and>
      (0 < eventfd ?s3 \<or> 0 < el_inflight ?s3)"
    by (simp add: el_push_def EventLoop_ctor_def)
  then show ?thesis by (rule exI [of _ ?s3])
qed

text \<open>
  A functor the loop thread queues before \<open>loop()\<close> can be missed by the wake-up
  protocol: the loop reaches \<open>poll\<close> with the functor pending, the eventfd not readable and no
  thread about to write it, and waits for an unrelated event or the ten second timeout.
\<close>

lemma queue_before_loop_not_woken:
  "\<exists>s. el_step\<^sup>*\<^sup>* (EventLoop_ctor False) s \<and> el_pc s = PcPoll \<and> pendingFunctors s = [f] \<and>
     eventfd s = 0 \<and> el_inflight s = 0"
proof -
  let ?s0 = "(queueInLoop True f (EventLoop_ctor False))\<lparr>el_idleq := True\<rparr>"
  let ?s1 = "?s0\<lparr>looping := True, quit := False, el_pc := PcTest\<rparr>"
  let ?s2 = "?s1\<lparr>el_pc := PcPoll\<rparr>"
  have 1: "el_step (EventLoop_ctor False) ?s0"
    by (rule el_step.idle_queue) (simp add: EventLoop_ctor_def)
  have 2: "el_step ?s0 ?s1"
    by (rule el_step.loop_start) (simp_all add: EventLoop_ctor_def el_ops)
  have 3: "el_step ?s1 ?s2" by (rule el_step.loop_go) simp_all
  have "el_step\<^sup>*\<^sup>* (EventLoop_ctor False) ?s2" using 1 2 3 by (rule steps3)
  moreover have "el_pc ?s2 = PcPoll \<and> pendingFunctors ?s2 = [f] \<and> eventfd ?s2 = 0 \<and> el_inflight ?s2 = 0"
    by (simp add: EventLoop_ctor_def el_ops)
  ultimately show ?thesis by blast
qed

text \<open>
  Property C18. \<open>doPendingFunctors\<close> runs exactly the functors that were pending when it swapped the
  queue, in order; what their bodies queue stays pending for the next iteration with the eventfd
  written, so the next \<open>poll\<close> does not block. The interleaved loop thread, left alone, reaches the
  state this function computes.
\<close>

theorem doPendingFunctors_runs_all:
  assumes "el_pc s = PcSwap" and "el_todo s = []" and "callingPendingFunctors s"
  shows "el_ran (doPendingFunctors s) = el_ran s @ pendingFunctors s \<and>
    (pendingFunctors (doPendingFunctors s) \<noteq> [] \<longrightarrow> 0 < eventfd (doPendingFunctors s)) \<and>
    el_queued (doPendingFunctors s) = el_queued s @ pendingFunctors (doPendingFunctors s) \<and>
    (\<exists>t. el_step\<^sup>*\<^sup>* s t \<and> el_pc t = PcTest \<and> el_ran t = el_ran (doPendingFunctors s) \<and>
       pendingFunctors t = pendingFunctors (doPendingFunctors s) \<and> eventfd t = eventfd (doPendingFunctors s))"
proof -
  let ?fs = "pendingFunctors s" and ?s1 = "s\<lparr>pendingFunctors := []\<rparr>"
  let ?r = "fold run_ran ?fs ?s1"
  have do: "doPendingFunctors s = ?r\<lparr>callingPendingFunctors := False\<rparr>"
    using assms(3) by (cases s) (simp add: doPendingFunctors_def Let_def)
  note r = fold_run_ran [of ?s1 ?fs]
  let ?s2 = "?s1\<lparr>el_idleq := False, el_pc := PcRun\<rparr>"
  have frame: "fold run_ran fs (t\<lparr>el_idleq := False, el_pc := PcRun\<rparr>) =
      (fold run_ran fs t)\<lparr>el_idleq := False, el_pc := PcRun\<rparr>" for fs t
  proof (induction fs arbitrary: t)
    case (Cons f fs)
    have "run_ran f (t\<lparr>el_idleq := False, el_pc := PcRun\<rparr>) =
        run_functor f (((t\<lparr>el_ran := el_ran t @ [f]\<rparr>)\<lparr>el_idleq := False\<rparr>)\<lparr>el_pc := PcRun\<rparr>)"
      by (rule arg_cong [where f = "run_functor f"]) (cases t, simp)
    also have "\<dots> = (run_ran f t)\<lparr>el_idleq := False, el_pc := PcRun\<rparr>" unfolding run_frame ..
    finally show ?case using Cons by simp
  qed simp
  have "el_step s (s\<lparr>el_batch := pendingFunctors s, pendingFunctors := [], el_idleq := False, el_pc := PcRun\<rparr>)"
    using assms(1) by (rule el_step.swap)
  moreover have "s\<lparr>el_batch := pendingFunctors s, pendingFunctors := [], el_idleq := False, el_pc := PcRun\<rparr> =
      ?s2\<lparr>el_todo := [], el_batch := ?fs\<rparr>"
    using assms(2) by (cases s) simp
  moreover have "el_step\<^sup>*\<^sup>* (?s2\<lparr>el_todo := [], el_batch := ?fs\<rparr>)
      ((?r\<lparr>el_idleq := False, el_pc := PcRun\<rparr>)\<lparr>el_todo := [], el_batch := []\<rparr>)"
    using batch_simulates [of ?s2 ?fs] unfolding frame by simp
  moreover let ?t = "(?r\<lparr>el_idleq := False, el_pc := PcRun\<rparr>)\<lparr>el_todo := [], el_batch := []\<rparr>"
  have "el_step ?t (?t\<lparr>callingPendingFunctors := False, el_pc := PcTest\<rparr>)"
    by (rule el_step.run_done) simp_all
  ultimately have "el_step\<^sup>*\<^sup>* s (?t\<lparr>callingPendingFunctors := False, el_pc := PcTest\<rparr>)"
    by (simp add: converse_rtranclp_into_rtranclp rtranclp.rtrancl_into_rtrancl)
  moreover have "el_ran ?r = el_ran s @ ?fs" "el_queued ?r = el_queued s @ pendingFunctors ?r"
    "pendingFunctors ?r \<noteq> [] \<longrightarrow> 0 < eventfd ?r"
    using r assms(3) by auto
  ultimately show ?thesis unfolding do by fastforce
qed

theorem doPendingFunctors_runs_all_witness:
  "let s = (EventLoop_ctor True)\<lparr>pendingFunctors := [Functor 1 [QueueInLoop (Functor 2 [])]],
             el_queued := [Functor 1 [QueueInLoop (Functor 2 [])]], el_pc := PcSwap\<rparr>
   in el_ran (doPendingFunctors s) = [Functor 1 [QueueInLoop (Functor 2 [])]] \<and>
      pendingFunctors (doPendingFunctors s) = [Functor 2 []] \<and> 0 < eventfd (doPendingFunctors s)"
proof -
  let ?s = "(EventLoop_ctor True)\<lparr>pendingFunctors := [Functor 1 [QueueInLoop (Functor 2 [])]],
             el_queued := [Functor 1 [QueueInLoop (Functor 2 [])]], el_pc := PcSwap\<rparr>"
  have "el_pc ?s = PcSwap" "el_todo ?s = []" "callingPendingFunctors ?s"
    by (simp_all add: EventLoop_ctor_def)
  from doPendingFunctors_runs_all [OF this] show ?thesis
    by (simp add: Let_def EventLoop_ctor_def) (simp add: doPendingFunctors_def el_ops)
qed

end
