(* ===== verification/NW_StringPiece.thy ===== *)
theory NW_StringPiece
  imports NW_Prelude
begin

text \<open>
  \<^verbatim>\<open>networker/base/StringPiece.h\<close>: a non-owning pointer and an \<open>int\<close> length.

  The pointer is modelled by the memory that may be read through it (\<open>ptr\<close>, the bytes from
  the pointer to the end of its object), so that reading past the object is the error
  \<open>OutOfBounds\<close>. A \<open>std::string\<close> is a byte list; its \<open>data()\<close> is followed by the
  terminating NUL. \<open>sp_bytes\<close> is the abstract value of a well-formed piece; the comparison
  operators are shown to be the lexicographic order on it.
\<close>

section \<open>Definitions\<close>

record StringPiece =
  ptr :: "byte list"
  plen :: int

definition sp_default :: StringPiece where
  "sp_default = \<lparr>ptr = [], plen = 0\<rparr>"

text \<open>\<open>strlen\<close>: the index of the first NUL; running off the object is undefined.\<close>

fun strlen :: "byte list \<Rightarrow> nat result" where
  "strlen [] = Inl OutOfBounds"
| "strlen (c # cs) = (if c = 0 then Inr 0 else rbind (strlen cs) (\<lambda>n. Inr (Suc n)))"

definition sp_of_cstr :: "byte list \<Rightarrow> StringPiece result" where
  "sp_of_cstr mem = rbind (strlen mem) (\<lambda>n. Inr \<lparr>ptr = mem, plen = to_int32 n\<rparr>)"

definition sp_of_string :: "byte list \<Rightarrow> StringPiece result" where
  "sp_of_string str = rbind (strlen (str @ [0])) (\<lambda>n. Inr \<lparr>ptr = str @ [0], plen = to_int32 n\<rparr>)"

definition sp_of_mem :: "byte list \<Rightarrow> int \<Rightarrow> StringPiece" where
  "sp_of_mem offset len = \<lparr>ptr = offset, plen = len\<rparr>"

definition sp_empty :: "StringPiece \<Rightarrow> bool" where
  "sp_empty p \<longleftrightarrow> plen p = 0"

definition sp_clear :: "StringPiece \<Rightarrow> StringPiece" where
  "sp_clear p = p\<lparr>ptr := [], plen := 0\<rparr>"

definition sp_set :: "byte list \<Rightarrow> int \<Rightarrow> StringPiece \<Rightarrow> StringPiece" where
  "sp_set buffer len p = p\<lparr>ptr := buffer, plen := len\<rparr>"

definition sp_index :: "StringPiece \<Rightarrow> int \<Rightarrow> byte result" where
  "sp_index p i = (if 0 \<le> i \<and> i < int (length (ptr p)) then Inr (ptr p ! nat i) else Inl OutOfBounds)"

text \<open>Moving the pointer out of its object is undefined behaviour.\<close>

definition sp_remove_prefix :: "int \<Rightarrow> StringPiece \<Rightarrow> StringPiece result" where
  "sp_remove_prefix n p =
     (if 0 \<le> n \<and> n \<le> int (length (ptr p))
      then Inr (p\<lparr>ptr := drop (nat n) (ptr p), plen := plen p - n\<rparr>) else Inl OutOfBounds)"

definition sp_remove_suffix :: "int \<Rightarrow> StringPiece \<Rightarrow> StringPiece" where
  "sp_remove_suffix n p = p\<lparr>plen := plen p - n\<rparr>"

text \<open>
  \<open>memcmp\<close>: the C library fixes only the sign of its result (\<open>c_memcmp\<close> below), so the value is the
  parameter \<open>mc\<close>, a function of the two objects and the length; a length beyond either object is
  undefined.
\<close>

type_synonym memcmp_fun = "byte list \<Rightarrow> byte list \<Rightarrow> nat \<Rightarrow> int"

definition memcmp :: "memcmp_fun \<Rightarrow> byte list \<Rightarrow> byte list \<Rightarrow> nat \<Rightarrow> int result" where
  "memcmp mc xs ys n = (if n \<le> length xs \<and> n \<le> length ys then Inr (mc xs ys n) else Inl OutOfBounds)"

definition sp_eq :: "memcmp_fun \<Rightarrow> StringPiece \<Rightarrow> StringPiece \<Rightarrow> bool result" where
  "sp_eq mc p x =
     (if plen p = plen x
      then rbind (memcmp mc (ptr p) (ptr x) (to_size_t (plen p))) (\<lambda>r. Inr (r = 0))
      else Inr False)"

definition sp_neq :: "memcmp_fun \<Rightarrow> StringPiece \<Rightarrow> StringPiece \<Rightarrow> bool result" where
  "sp_neq mc p x = rbind (sp_eq mc p x) (\<lambda>b. Inr (\<not> b))"

text \<open>The macro \<open>STRINGPIECE_BINARY_PREDICATE(cmp, auxcmp)\<close>, with its two operators.\<close>

definition sp_binary_predicate ::
    "memcmp_fun \<Rightarrow> (int \<Rightarrow> int \<Rightarrow> bool) \<Rightarrow> (int \<Rightarrow> int \<Rightarrow> bool) \<Rightarrow> StringPiece \<Rightarrow> StringPiece \<Rightarrow> bool result" where
  "sp_binary_predicate mc cmp auxcmp p x =
     rbind (memcmp mc (ptr p) (ptr x) (to_size_t (if plen p < plen x then plen p else plen x)))
       (\<lambda>r. Inr (auxcmp r 0 \<or> (r = 0 \<and> cmp (plen p) (plen x))))"

definition sp_less :: "memcmp_fun \<Rightarrow> StringPiece \<Rightarrow> StringPiece \<Rightarrow> bool result" where
  "sp_less mc = sp_binary_predicate mc (<) (<)"

definition sp_less_eq :: "memcmp_fun \<Rightarrow> StringPiece \<Rightarrow> StringPiece \<Rightarrow> bool result" where
  "sp_less_eq mc = sp_binary_predicate mc (\<le>) (<)"

definition sp_greater_eq :: "memcmp_fun \<Rightarrow> StringPiece \<Rightarrow> StringPiece \<Rightarrow> bool result" where
  "sp_greater_eq mc = sp_binary_predicate mc (\<ge>) (>)"

definition sp_greater :: "memcmp_fun \<Rightarrow> StringPiece \<Rightarrow> StringPiece \<Rightarrow> bool result" where
  "sp_greater mc = sp_binary_predicate mc (>) (>)"

definition sp_compare :: "memcmp_fun \<Rightarrow> StringPiece \<Rightarrow> StringPiece \<Rightarrow> int result" where
  "sp_compare mc p x =
     rbind (memcmp mc (ptr p) (ptr x) (to_size_t (if plen p < plen x then plen p else plen x)))
       (\<lambda>r. Inr (if r = 0 then (if plen p < plen x then - 1 else if plen p > plen x then 1 else r)
                 else r))"

text \<open>\<open>string(data(), size())\<close>: a negative size converts to a huge \<open>size_t\<close>.\<close>

definition sp_as_string :: "StringPiece \<Rightarrow> byte list result" where
  "sp_as_string p =
     (if 2 ^ 63 - 1 < to_size_t (plen p) then Inl LengthError
      else if length (ptr p) < to_size_t (plen p) then Inl OutOfBounds
      else Inr (take (to_size_t (plen p)) (ptr p)))"

definition sp_starts_with :: "memcmp_fun \<Rightarrow> StringPiece \<Rightarrow> StringPiece \<Rightarrow> bool result" where
  "sp_starts_with mc p x =
     (if plen p \<ge> plen x
      then rbind (memcmp mc (ptr p) (ptr x) (to_size_t (plen x))) (\<lambda>r. Inr (r = 0))
      else Inr False)"

text \<open>Well-formedness and abstract value.\<close>

definition sp_wf :: "StringPiece \<Rightarrow> bool" where
  "sp_wf p \<longleftrightarrow> 0 \<le> plen p \<and> plen p < 2 ^ 31 \<and> plen p \<le> int (length (ptr p))"

definition sp_bytes :: "StringPiece \<Rightarrow> byte list" where
  "sp_bytes p = take (nat (plen p)) (ptr p)"

section \<open>Lemmas\<close>

lemma strlen_terminated: "strlen (xs @ 0 # ys) = Inr (length (takeWhile (\<lambda>c. c \<noteq> 0) xs))"
  by (induction xs) auto

lemma to_size_t_plen: "sp_wf p \<Longrightarrow> to_size_t (plen p) = nat (plen p)"
  by (auto simp: sp_wf_def to_size_t_def)

lemma length_sp_bytes: "sp_wf p \<Longrightarrow> length (sp_bytes p) = nat (plen p)"
  by (auto simp: sp_wf_def sp_bytes_def)

lemma lexordp_take_min:
  fixes xs ys :: "'a::linorder list"
  defines "n \<equiv> min (length xs) (length ys)"
  shows "ord_class.lexordp xs ys \<longleftrightarrow>
    ord_class.lexordp (take n xs) (take n ys) \<or> (take n xs = take n ys \<and> length xs < length ys)"
  unfolding n_def
  by (induction xs arbitrary: ys) (case_tac ys; auto)+

lemma eq_take_min:
  fixes xs ys :: "'a list"
  defines "n \<equiv> min (length xs) (length ys)"
  shows "xs = ys \<longleftrightarrow> take n xs = take n ys \<and> length xs = length ys"
  unfolding n_def by auto

text \<open>
  What the C standard says of \<open>memcmp\<close>: the sign of its result is that of the difference of the
  first pair of unsigned bytes that differ.
\<close>

locale c_memcmp =
  fixes mc :: memcmp_fun
  assumes memcmp_zero:
      "n \<le> length xs \<Longrightarrow> n \<le> length ys \<Longrightarrow> mc xs ys n = 0 \<longleftrightarrow> take n xs = take n ys"
    and memcmp_neg:
      "n \<le> length xs \<Longrightarrow> n \<le> length ys \<Longrightarrow> mc xs ys n < 0 \<longleftrightarrow> ord_class.lexordp (take n xs) (take n ys)"
begin

text \<open>The common prefixes of two pieces carry every comparison.\<close>

lemma pieces_compare:
  assumes "sp_wf p" "sp_wf x"
  obtains r :: int and u v :: "byte list" where
    "memcmp mc (ptr p) (ptr x) (to_size_t (if plen p < plen x then plen p else plen x)) = Inr r"
    "r = 0 \<longleftrightarrow> u = v" "r < 0 \<longleftrightarrow> ord_class.lexordp u v"
    "ord_class.lexordp (sp_bytes p) (sp_bytes x) \<longleftrightarrow> ord_class.lexordp u v \<or> u = v \<and> plen p < plen x"
    "sp_bytes p = sp_bytes x \<longleftrightarrow> u = v \<and> plen p = plen x"
proof -
  let ?n = "min (length (sp_bytes p)) (length (sp_bytes x))"
  have n: "to_size_t (if plen p < plen x then plen p else plen x) = ?n"
    using assms by (auto simp: to_size_t_plen length_sp_bytes sp_wf_def)
  have le: "?n \<le> length (ptr p)" "?n \<le> length (ptr x)" by (auto simp: sp_bytes_def)
  have tk: "take ?n (ptr p) = take ?n (sp_bytes p)" "take ?n (ptr x) = take ?n (sp_bytes x)"
    using assms by (auto simp: sp_bytes_def sp_wf_def min_def)
  have len: "length (sp_bytes p) < length (sp_bytes x) \<longleftrightarrow> plen p < plen x"
    "length (sp_bytes p) = length (sp_bytes x) \<longleftrightarrow> plen p = plen x"
    using assms by (auto simp: length_sp_bytes sp_wf_def)
  show ?thesis
  proof (rule that [of "mc (ptr p) (ptr x) ?n" "take ?n (sp_bytes p)" "take ?n (sp_bytes x)"])
    show "memcmp mc (ptr p) (ptr x) (to_size_t (if plen p < plen x then plen p else plen x)) =
        Inr (mc (ptr p) (ptr x) ?n)" using le by (simp add: memcmp_def n)
  qed (use memcmp_zero [OF le] memcmp_neg [OF le] tk len lexordp_take_min [of "sp_bytes p" "sp_bytes x"]
      eq_take_min [of "sp_bytes p" "sp_bytes x"] in \<open>simp_all only:\<close>)
qed

lemma sp_eq_bytes:
  assumes "sp_wf p" "sp_wf x"
  shows "sp_eq mc p x = Inr (sp_bytes p = sp_bytes x)"
proof (cases "plen p = plen x")
  case True
  then show ?thesis by (rule_tac pieces_compare [OF assms]) (auto simp: sp_eq_def)
next
  case False
  then show ?thesis by (rule_tac pieces_compare [OF assms]) (auto simp: sp_eq_def)
qed

text \<open>The operators of the macro, each from its two comparison signs, and \<open>compare\<close>.\<close>

lemma sp_predicates:
  assumes "sp_wf p" "sp_wf x"
  shows "sp_less mc p x = Inr (ord_class.lexordp (sp_bytes p) (sp_bytes x))"
    and "sp_less_eq mc p x = Inr (sp_bytes p = sp_bytes x \<or> ord_class.lexordp (sp_bytes p) (sp_bytes x))"
    and "sp_greater_eq mc p x = Inr (\<not> ord_class.lexordp (sp_bytes p) (sp_bytes x))"
    and "sp_greater mc p x = Inr (sp_bytes p \<noteq> sp_bytes x \<and> \<not> ord_class.lexordp (sp_bytes p) (sp_bytes x))"
    and "\<exists>r. sp_compare mc p x = Inr r \<and> (r = 0 \<longleftrightarrow> sp_bytes p = sp_bytes x) \<and>
      (r < 0 \<longleftrightarrow> ord_class.lexordp (sp_bytes p) (sp_bytes x))"
proof -
  obtain r :: int and u v :: "byte list"
    where m: "memcmp mc (ptr p) (ptr x) (to_size_t (if plen p < plen x then plen p else plen x)) = Inr r"
    and r: "r = 0 \<longleftrightarrow> u = v" "r < 0 \<longleftrightarrow> ord_class.lexordp u v"
    and b: "ord_class.lexordp (sp_bytes p) (sp_bytes x) \<longleftrightarrow> ord_class.lexordp u v \<or> u = v \<and> plen p < plen x"
      "sp_bytes p = sp_bytes x \<longleftrightarrow> u = v \<and> plen p = plen x"
    by (rule pieces_compare [OF assms])
  note defs = sp_less_def sp_less_eq_def sp_greater_eq_def sp_greater_def sp_binary_predicate_def
    sp_compare_def m rbind_Inr b r [symmetric]
  have irr: "\<not> ord_class.lexordp v v" by (rule lexordp_irreflexive')
  show "sp_less mc p x = Inr (ord_class.lexordp (sp_bytes p) (sp_bytes x))"
    by (simp only: defs)
  show "sp_less_eq mc p x = Inr (sp_bytes p = sp_bytes x \<or> ord_class.lexordp (sp_bytes p) (sp_bytes x))"
    by (simp only: defs) auto
  have sign: "0 < r \<longleftrightarrow> u \<noteq> v \<and> \<not> ord_class.lexordp u v" using r by auto
  show "sp_greater_eq mc p x = Inr (\<not> ord_class.lexordp (sp_bytes p) (sp_bytes x))"
    by (simp only: defs sign) (use irr in auto)
  show "sp_greater mc p x = Inr (sp_bytes p \<noteq> sp_bytes x \<and> \<not> ord_class.lexordp (sp_bytes p) (sp_bytes x))"
    by (simp only: defs sign) (use irr in auto)
  show "\<exists>r. sp_compare mc p x = Inr r \<and> (r = 0 \<longleftrightarrow> sp_bytes p = sp_bytes x) \<and>
      (r < 0 \<longleftrightarrow> ord_class.lexordp (sp_bytes p) (sp_bytes x))"
    unfolding sp_compare_def m rbind_Inr b r [symmetric] using r irr by auto
qed

lemma sp_starts_with_prefix:
  assumes "sp_wf p" "sp_wf x"
  shows "sp_starts_with mc p x = Inr (\<exists>ys. sp_bytes p = sp_bytes x @ ys)"
proof (cases "plen p \<ge> plen x")
  case True
  have "take (nat (plen x)) (sp_bytes p) = take (nat (plen x)) (ptr p)"
    using True by (simp add: sp_bytes_def min_def)
  then have "(\<exists>ys. sp_bytes p = sp_bytes x @ ys) \<longleftrightarrow> take (nat (plen x)) (ptr p) = sp_bytes x"
    using length_sp_bytes [OF assms(2)] by (metis append_eq_conv_conj append_take_drop_id)
  then show ?thesis
    using True assms memcmp_zero [of "nat (plen x)" "ptr p" "ptr x"]
    by (auto simp: sp_starts_with_def memcmp_def to_size_t_plen sp_wf_def sp_bytes_def)
next
  case False
  have "\<nexists>ys. sp_bytes p = sp_bytes x @ ys"
    using False assms length_sp_bytes [of p] length_sp_bytes [of x]
    by (auto simp: sp_wf_def dest!: arg_cong [where f = length])
  then show ?thesis using False by (simp add: sp_starts_with_def)
qed

end

text \<open>An instance: the difference of the first two bytes that differ, as several C libraries return.\<close>

fun ref_memcmp :: memcmp_fun where
  "ref_memcmp (x # xs) (y # ys) (Suc n) = (if x = y then ref_memcmp xs ys n else uint x - uint y)"
| "ref_memcmp xs ys n = 0"

interpretation ref_mc: c_memcmp ref_memcmp
proof
  show "ref_memcmp xs ys n = 0 \<longleftrightarrow> take n xs = take n ys" if "n \<le> length xs" "n \<le> length ys" for n xs ys
    using that by (induction xs ys n rule: ref_memcmp.induct) (auto simp: word_uint_eq_iff)
  show "ref_memcmp xs ys n < 0 \<longleftrightarrow> ord_class.lexordp (take n xs) (take n ys)"
    if "n \<le> length xs" "n \<le> length ys" for n xs ys
    using that by (induction xs ys n rule: ref_memcmp.induct) (auto simp: word_less_def word_uint_eq_iff)
qed

section \<open>Properties\<close>

text \<open>
  Property C22. On pieces that stay inside their object, over every \<open>memcmp\<close> with the documented
  sign, the comparison operators never read out of bounds and are the lexicographic order of the
  unsigned bytes: \<open>==\<close>, \<open><\<close>, \<open><=\<close>, \<open>>=\<close> and \<open>>\<close> from the macro, the sign of \<open>compare\<close> and
  \<open>starts_with\<close> (the prefix relation) all agree with it. The value of \<open>compare\<close> is not fixed
  beyond its sign, since it may be the one \<open>memcmp\<close> returned.
\<close>

theorem stringpiece_order:
  assumes "c_memcmp mc" "sp_wf p" "sp_wf x"
  shows "sp_eq mc p x = Inr (sp_bytes p = sp_bytes x) \<and>
    sp_less mc p x = Inr (ord_class.lexordp (sp_bytes p) (sp_bytes x)) \<and>
    sp_less_eq mc p x = Inr (sp_bytes p = sp_bytes x \<or> ord_class.lexordp (sp_bytes p) (sp_bytes x)) \<and>
    sp_greater_eq mc p x = Inr (\<not> ord_class.lexordp (sp_bytes p) (sp_bytes x)) \<and>
    sp_greater mc p x = Inr (ord_class.lexordp (sp_bytes x) (sp_bytes p)) \<and>
    (\<exists>r. sp_compare mc p x = Inr r \<and> sgn r = (if sp_bytes p = sp_bytes x then 0
      else if ord_class.lexordp (sp_bytes p) (sp_bytes x) then - 1 else 1)) \<and>
    sp_starts_with mc p x = Inr (\<exists>ys. sp_bytes p = sp_bytes x @ ys)"
proof -
  note c = c_memcmp.sp_predicates [OF assms] c_memcmp.sp_eq_bytes [OF assms] c_memcmp.sp_starts_with_prefix [OF assms]
  have "ord_class.lexordp (sp_bytes x) (sp_bytes p) \<longleftrightarrow>
      sp_bytes p \<noteq> sp_bytes x \<and> \<not> ord_class.lexordp (sp_bytes p) (sp_bytes x)"
    using lexordp_linear [of "sp_bytes p" "sp_bytes x"] lexordp_antisym [of "sp_bytes p" "sp_bytes x"]
      lexordp_irreflexive' [of "sp_bytes x"] by auto
  moreover obtain r where r: "sp_compare mc p x = Inr r" "r = 0 \<longleftrightarrow> sp_bytes p = sp_bytes x"
    "r < 0 \<longleftrightarrow> ord_class.lexordp (sp_bytes p) (sp_bytes x)" using c(5) by blast
  have "sgn r = (if sp_bytes p = sp_bytes x then 0
      else if ord_class.lexordp (sp_bytes p) (sp_bytes x) then - 1 else 1)"
    using r(2,3) by (auto simp: sgn_if)
  ultimately show ?thesis using c(1-4,6,7) r(1) by auto
qed

theorem stringpiece_order_witness:
  "sp_less ref_memcmp \<lparr>ptr = [97, 98], plen = 2\<rparr> \<lparr>ptr = [97, 200, 0], plen = 2\<rparr> = Inr True \<and>
   sp_starts_with ref_memcmp \<lparr>ptr = [97, 98], plen = 2\<rparr> \<lparr>ptr = [97, 0], plen = 1\<rparr> = Inr True"
  using stringpiece_order [OF ref_mc.c_memcmp_axioms, of "\<lparr>ptr = [97, 98], plen = 2\<rparr>" "\<lparr>ptr = [97, 200, 0], plen = 2\<rparr>"]
    stringpiece_order [OF ref_mc.c_memcmp_axioms, of "\<lparr>ptr = [97, 98], plen = 2\<rparr>" "\<lparr>ptr = [97, 0], plen = 1\<rparr>"]
  by (simp add: sp_wf_def sp_bytes_def)

text \<open>With this library \<open>compare\<close> of two strings that differ returns the difference of the bytes.\<close>

lemma sp_compare_value:
  "sp_compare ref_memcmp \<lparr>ptr = [97, 98], plen = 2\<rparr> \<lparr>ptr = [97, 200, 0], plen = 2\<rparr> = Inr (- 102)"
proof -
  have "to_size_t 2 = Suc (Suc 0)" by (simp add: to_size_t_def)
  then show ?thesis by (simp add: sp_compare_def memcmp_def)
qed

text \<open>
  \<open>StringPiece(const string&)\<close> measures with \<open>strlen\<close>: the piece holds the bytes of
  the string before its first NUL, so it is the whole string exactly when the string has no NUL.
\<close>

lemma stringpiece_of_string_truncates:
  assumes "length str < 2 ^ 31"
  shows "\<exists>p. sp_of_string str = Inr p \<and> sp_wf p \<and> sp_bytes p = takeWhile (\<lambda>c. c \<noteq> 0) str \<and>
    (sp_bytes p = str \<longleftrightarrow> 0 \<notin> set str)"
proof -
  let ?n = "length (takeWhile (\<lambda>c. c \<noteq> 0) str)"
  have n: "?n \<le> length str" by (rule length_takeWhile_le)
  have len: "to_int32 ?n = int ?n" using n assms by (intro to_int32_exact) linarith
  have "take ?n str = takeWhile (\<lambda>c. c \<noteq> 0) str" by (simp add: takeWhile_eq_take [symmetric])
  moreover have "takeWhile (\<lambda>c. c \<noteq> 0) str = str \<longleftrightarrow> 0 \<notin> set str"
    by (auto simp: takeWhile_eq_all_conv)
  ultimately show ?thesis
    using n assms by (simp add: sp_of_string_def strlen_terminated len sp_wf_def sp_bytes_def)
qed

lemma stringpiece_of_string_truncates_witness:
  "\<exists>p. sp_of_string [1, 0, 2] = Inr p \<and> sp_bytes p = [1]"
  using stringpiece_of_string_truncates [of "[1, 0, 2]"] by auto

end
