(* ===== verification/NW_Buffer.thy ===== *)
theory NW_Buffer
  imports NW_StringPiece
begin

unbundle bit_operations_syntax

text \<open>
  \<^verbatim>\<open>networker/net/Endian.h\<close>, \<^verbatim>\<open>networker/net/Buffer.h\<close> and
  \<^verbatim>\<open>networker/net/Buffer.cpp\<close>: the byte buffer that sits between a socket and its user.

  A \<open>Buffer\<close> is the vector \<open>buffer_v\<close> with the two indices of the code. A
  \<open>const char*\<close> into the vector is its offset. \<open>size_t\<close> arithmetic wraps modulo
  \<open>2 ^ 64\<close>, a vector that would exceed \<open>vector_max_size\<close> throws \<open>LengthError\<close>, and
  every copy checks its bounds, so that the absence of memory errors is a theorem. The host is
  little-endian (x86-64), where \<open>htobe64\<close> and its kin swap the bytes.

  \<open>buf_content\<close> is the abstract value (the readable bytes); the locale \<open>fifo_buffer\<close> is
  the interface the connection relies on, and is interpreted here by \<open>Buffer\<close>.
\<close>

section \<open>Byte order\<close>

definition le_bytes :: "nat \<Rightarrow> 'a::len word \<Rightarrow> byte list" where
  "le_bytes n w = map (\<lambda>i. ucast (drop_bit (8 * i) w)) [0..<n]"

primrec of_le_bytes :: "byte list \<Rightarrow> 'a::len word" where
  "of_le_bytes [] = 0"
| "of_le_bytes (b # bs) = ucast b OR push_bit 8 (of_le_bytes bs)"

definition bswap :: "nat \<Rightarrow> 'a::len word \<Rightarrow> 'a word" where
  "bswap n w = of_le_bytes (rev (le_bytes n w))"

definition hostToNetwork64 :: "64 word \<Rightarrow> 64 word" where
  "hostToNetwork64 = bswap 8"

definition hostToNetwork32 :: "32 word \<Rightarrow> 32 word" where
  "hostToNetwork32 = bswap 4"

definition hostToNetwork16 :: "16 word \<Rightarrow> 16 word" where
  "hostToNetwork16 = bswap 2"

definition networkToHost64 :: "64 word \<Rightarrow> 64 word" where
  "networkToHost64 = bswap 8"

definition networkToHost32 :: "32 word \<Rightarrow> 32 word" where
  "networkToHost32 = bswap 4"

definition networkToHost16 :: "16 word \<Rightarrow> 16 word" where
  "networkToHost16 = bswap 2"

section \<open>The buffer and its operations\<close>

record Buffer =
  buffer_v :: "byte list"
  readerIndex :: nat
  writerIndex :: nat

definition kCheapPrepend :: nat where "kCheapPrepend = 8"

definition kInitialSize :: nat where "kInitialSize = 1024"

definition vector_max_size :: nat where "vector_max_size = 2 ^ 63 - 1"

definition vector_resize :: "nat \<Rightarrow> byte list \<Rightarrow> byte list result" where
  "vector_resize n v =
     (if n \<le> vector_max_size then Inr (take n v @ replicate (n - length v) 0) else Inl LengthError)"

definition readableBytes :: "Buffer \<Rightarrow> nat" where
  "readableBytes b = usub64 (writerIndex b) (readerIndex b)"

definition writableBytes :: "Buffer \<Rightarrow> nat" where
  "writableBytes b = usub64 (length (buffer_v b)) (writerIndex b)"

definition prependableBytes :: "Buffer \<Rightarrow> nat" where
  "prependableBytes b = readerIndex b"

definition Buffer_ctor :: "nat \<Rightarrow> Buffer result" where
  "Buffer_ctor initialSize =
     rbind (vector_resize (uadd64 kCheapPrepend initialSize) []) (\<lambda>v.
       let b = \<lparr>buffer_v = v, readerIndex = kCheapPrepend, writerIndex = kCheapPrepend\<rparr> in
       c_assert (readableBytes b = 0) (
       c_assert (writableBytes b = initialSize) (
       c_assert (prependableBytes b = kCheapPrepend) (Inr b))))"

definition Buffer_swap :: "Buffer \<Rightarrow> Buffer \<Rightarrow> Buffer \<times> Buffer" where
  "Buffer_swap b rhs =
     (b\<lparr>buffer_v := buffer_v rhs, readerIndex := readerIndex rhs, writerIndex := writerIndex rhs\<rparr>,
      rhs\<lparr>buffer_v := buffer_v b, readerIndex := readerIndex b, writerIndex := writerIndex b\<rparr>)"

definition peek :: "Buffer \<Rightarrow> nat" where
  "peek b = readerIndex b"

definition beginWrite :: "Buffer \<Rightarrow> nat" where
  "beginWrite b = writerIndex b"

text \<open>\<open>std::search\<close> and \<open>memchr\<close> on the offsets \<open>[i, j)\<close> of the vector.\<close>

fun search_list :: "byte list \<Rightarrow> byte list \<Rightarrow> nat" where
  "search_list pat [] = 0"
| "search_list pat (x # xs) =
     (if take (length pat) (x # xs) = pat then 0 else Suc (search_list pat xs))"

definition std_search :: "byte list \<Rightarrow> nat \<Rightarrow> nat \<Rightarrow> byte list \<Rightarrow> nat" where
  "std_search v i j pat = i + search_list pat (take (j - i) (drop i v))"

definition memchr :: "byte list \<Rightarrow> nat \<Rightarrow> byte \<Rightarrow> nat \<Rightarrow> nat option" where
  "memchr v start c n =
     (let i = search_list [c] (take n (drop start v))
      in if i < length (take n (drop start v)) then Some (start + i) else None)"

definition kCRLF :: "byte list" where "kCRLF = [13, 10]"

definition findCRLF :: "Buffer \<Rightarrow> nat option" where
  "findCRLF b =
     (let crlf = std_search (buffer_v b) (peek b) (beginWrite b) kCRLF
      in if crlf = beginWrite b then None else Some crlf)"

definition findCRLF_from :: "nat \<Rightarrow> Buffer \<Rightarrow> nat option result" where
  "findCRLF_from start b =
     c_assert (peek b \<le> start) (c_assert (start \<le> beginWrite b) (
       let crlf = std_search (buffer_v b) start (beginWrite b) kCRLF
       in Inr (if crlf = beginWrite b then None else Some crlf)))"

definition findEOL :: "Buffer \<Rightarrow> nat option" where
  "findEOL b = memchr (buffer_v b) (peek b) 10 (readableBytes b)"

definition findEOL_from :: "nat \<Rightarrow> Buffer \<Rightarrow> nat option result" where
  "findEOL_from start b =
     c_assert (peek b \<le> start) (c_assert (start \<le> beginWrite b) (
       Inr (memchr (buffer_v b) start 10 (beginWrite b - start))))"

definition retrieveAll :: "Buffer \<Rightarrow> Buffer" where
  "retrieveAll b = b\<lparr>readerIndex := kCheapPrepend, writerIndex := kCheapPrepend\<rparr>"

definition retrieve :: "nat \<Rightarrow> Buffer \<Rightarrow> Buffer result" where
  "retrieve len b =
     c_assert (len \<le> readableBytes b) (
       if len < readableBytes b then Inr (b\<lparr>readerIndex := uadd64 (readerIndex b) len\<rparr>)
       else Inr (retrieveAll b))"

definition retrieveUntil :: "nat \<Rightarrow> Buffer \<Rightarrow> Buffer result" where
  "retrieveUntil end b =
     c_assert (peek b \<le> end) (c_assert (end \<le> beginWrite b) (retrieve (end - peek b) b))"

definition retrieveInt64 :: "Buffer \<Rightarrow> Buffer result" where "retrieveInt64 = retrieve 8"

definition retrieveInt32 :: "Buffer \<Rightarrow> Buffer result" where "retrieveInt32 = retrieve 4"

definition retrieveInt16 :: "Buffer \<Rightarrow> Buffer result" where "retrieveInt16 = retrieve 2"

definition retrieveInt8 :: "Buffer \<Rightarrow> Buffer result" where "retrieveInt8 = retrieve 1"

text \<open>Reading \<open>len\<close> bytes of the vector from an offset.\<close>

definition read_at :: "nat \<Rightarrow> nat \<Rightarrow> Buffer \<Rightarrow> byte list result" where
  "read_at pos len b =
     (if pos + len \<le> length (buffer_v b) then Inr (take len (drop pos (buffer_v b)))
      else Inl OutOfBounds)"

definition retrieveAsString :: "nat \<Rightarrow> Buffer \<Rightarrow> (byte list \<times> Buffer) result" where
  "retrieveAsString len b =
     c_assert (len \<le> readableBytes b) (
       rbind (read_at (peek b) len b) (\<lambda>r. rbind (retrieve len b) (\<lambda>b'. Inr (r, b'))))"

definition retrieveAllAsString :: "Buffer \<Rightarrow> (byte list \<times> Buffer) result" where
  "retrieveAllAsString b = retrieveAsString (readableBytes b) b"

definition toStringPiece :: "Buffer \<Rightarrow> StringPiece" where
  "toStringPiece b = sp_of_mem (drop (peek b) (buffer_v b)) (to_int32 (readableBytes b))"

definition makeSpace :: "nat \<Rightarrow> Buffer \<Rightarrow> Buffer result" where
  "makeSpace len b =
     (if uadd64 (writableBytes b) (prependableBytes b) < uadd64 len kCheapPrepend
      then rbind (vector_resize (uadd64 (writerIndex b) len) (buffer_v b))
             (\<lambda>v. Inr (b\<lparr>buffer_v := v\<rparr>))
      else c_assert (kCheapPrepend < readerIndex b) (
        let readable = readableBytes b in
        rbind (read_at (readerIndex b) (writerIndex b - readerIndex b) b) (\<lambda>src.
        rbind (copy_into (buffer_v b) kCheapPrepend src) (\<lambda>v.
        let b' = b\<lparr>buffer_v := v, readerIndex := kCheapPrepend,
                   writerIndex := uadd64 kCheapPrepend readable\<rparr>
        in c_assert (readable = readableBytes b') (Inr b')))))"

definition ensureWritableBytes :: "nat \<Rightarrow> Buffer \<Rightarrow> Buffer result" where
  "ensureWritableBytes len b =
     rbind (if writableBytes b < len then makeSpace len b else Inr b)
       (\<lambda>b'. c_assert (writableBytes b' \<ge> len) (Inr b'))"

definition hasWritten :: "nat \<Rightarrow> Buffer \<Rightarrow> Buffer result" where
  "hasWritten len b =
     c_assert (len \<le> writableBytes b) (Inr (b\<lparr>writerIndex := uadd64 (writerIndex b) len\<rparr>))"

definition unwrite :: "nat \<Rightarrow> Buffer \<Rightarrow> Buffer result" where
  "unwrite len b =
     c_assert (len \<le> readableBytes b) (Inr (b\<lparr>writerIndex := usub64 (writerIndex b) len\<rparr>))"

text \<open>
  \<open>append(data, len)\<close>: \<open>mem\<close> is the memory readable through \<open>data\<close>.
\<close>

definition append_mem :: "byte list \<Rightarrow> nat \<Rightarrow> Buffer \<Rightarrow> Buffer result" where
  "append_mem mem len b =
     rbind (ensureWritableBytes len b) (\<lambda>b1.
       if length mem < len then Inl OutOfBounds
       else rbind (copy_into (buffer_v b1) (beginWrite b1) (take len mem)) (\<lambda>v.
            hasWritten len (b1\<lparr>buffer_v := v\<rparr>)))"

definition append_piece :: "StringPiece \<Rightarrow> Buffer \<Rightarrow> Buffer result" where
  "append_piece str b = append_mem (ptr str) (to_size_t (plen str)) b"

text \<open>Appending a whole object, with \<open>len\<close> its \<open>sizeof\<close> or \<open>size()\<close>.\<close>

definition append_bytes :: "byte list \<Rightarrow> Buffer \<Rightarrow> Buffer result" where
  "append_bytes xs b = append_mem xs (length xs) b"

definition appendInt64 :: "64 word \<Rightarrow> Buffer \<Rightarrow> Buffer result" where
  "appendInt64 x b = append_bytes (le_bytes 8 (hostToNetwork64 x)) b"

definition appendInt32 :: "32 word \<Rightarrow> Buffer \<Rightarrow> Buffer result" where
  "appendInt32 x b = append_bytes (le_bytes 4 (hostToNetwork32 x)) b"

definition appendInt16 :: "16 word \<Rightarrow> Buffer \<Rightarrow> Buffer result" where
  "appendInt16 x b = append_bytes (le_bytes 2 (hostToNetwork16 x)) b"

definition appendInt8 :: "8 word \<Rightarrow> Buffer \<Rightarrow> Buffer result" where
  "appendInt8 x b = append_bytes [x] b"

definition peekInt64 :: "Buffer \<Rightarrow> 64 word result" where
  "peekInt64 b = c_assert (readableBytes b \<ge> 8) (
     rbind (read_at (peek b) 8 b) (\<lambda>m. Inr (networkToHost64 (of_le_bytes m))))"

definition peekInt32 :: "Buffer \<Rightarrow> 32 word result" where
  "peekInt32 b = c_assert (readableBytes b \<ge> 4) (
     rbind (read_at (peek b) 4 b) (\<lambda>m. Inr (networkToHost32 (of_le_bytes m))))"

definition peekInt16 :: "Buffer \<Rightarrow> 16 word result" where
  "peekInt16 b = c_assert (readableBytes b \<ge> 2) (
     rbind (read_at (peek b) 2 b) (\<lambda>m. Inr (networkToHost16 (of_le_bytes m))))"

definition peekInt8 :: "Buffer \<Rightarrow> 8 word result" where
  "peekInt8 b = c_assert (readableBytes b \<ge> 1) (
     rbind (read_at (peek b) 1 b) (\<lambda>m. Inr (hd m)))"

definition readInt32 :: "Buffer \<Rightarrow> (32 word \<times> Buffer) result" where
  "readInt32 b = rbind (peekInt32 b) (\<lambda>r. rbind (retrieveInt32 b) (\<lambda>b'. Inr (r, b')))"

definition readInt16 :: "Buffer \<Rightarrow> (16 word \<times> Buffer) result" where
  "readInt16 b = rbind (peekInt16 b) (\<lambda>r. rbind (retrieveInt16 b) (\<lambda>b'. Inr (r, b')))"

definition readInt8 :: "Buffer \<Rightarrow> (8 word \<times> Buffer) result" where
  "readInt8 b = rbind (peekInt8 b) (\<lambda>r. rbind (retrieveInt8 b) (\<lambda>b'. Inr (r, b')))"

definition prepend :: "byte list \<Rightarrow> Buffer \<Rightarrow> Buffer result" where
  "prepend d b =
     c_assert (length d \<le> prependableBytes b) (
       let r = usub64 (readerIndex b) (length d) in
       rbind (copy_into (buffer_v b) r d) (\<lambda>v. Inr (b\<lparr>buffer_v := v, readerIndex := r\<rparr>)))"

definition prependInt64 :: "64 word \<Rightarrow> Buffer \<Rightarrow> Buffer result" where
  "prependInt64 x b = prepend (le_bytes 8 (hostToNetwork64 x)) b"

definition prependInt32 :: "32 word \<Rightarrow> Buffer \<Rightarrow> Buffer result" where
  "prependInt32 x b = prepend (le_bytes 4 (hostToNetwork32 x)) b"

definition prependInt16 :: "16 word \<Rightarrow> Buffer \<Rightarrow> Buffer result" where
  "prependInt16 x b = prepend (le_bytes 2 (hostToNetwork16 x)) b"

definition prependInt8 :: "8 word \<Rightarrow> Buffer \<Rightarrow> Buffer result" where
  "prependInt8 x b = prepend [x] b"

definition shrink :: "nat \<Rightarrow> Buffer \<Rightarrow> Buffer result" where
  "shrink reserve b =
     rbind (Buffer_ctor kInitialSize) (\<lambda>other.
     rbind (ensureWritableBytes (uadd64 (readableBytes b) reserve) other) (\<lambda>other.
     rbind (append_piece (toStringPiece b) other) (\<lambda>other.
     Inr (fst (Buffer_swap b other)))))"

text \<open>
  \<open>readFd\<close>: the outcome of \<open>readv\<close> is an argument, either \<open>-1\<close> with an \<open>errno\<close> or the
  bytes it stored, first into the writable space and then into \<open>extrabuf\<close>. The result is
  the returned count, the saved \<open>errno\<close> if one was stored, and the buffer.
\<close>

datatype read_result = ReadErr int | ReadOk "byte list"

definition extrabuf_size :: nat where "extrabuf_size = 65536"

definition iov_capacity :: "Buffer \<Rightarrow> nat" where
  "iov_capacity b =
     (if writableBytes b < extrabuf_size then writableBytes b + extrabuf_size else writableBytes b)"

definition readFd :: "read_result \<Rightarrow> Buffer \<Rightarrow> (int \<times> int option \<times> Buffer) result" where
  "readFd rr b =
     (let writable = writableBytes b in
      case rr of
        ReadErr errno \<Rightarrow> Inr (- 1, Some errno, b)
      | ReadOk bs \<Rightarrow>
          rbind (copy_into (buffer_v b) (writerIndex b) (take writable bs)) (\<lambda>v.
          let n = length bs; b1 = b\<lparr>buffer_v := v\<rparr> in
          if n \<le> writable
          then Inr (int n, None, b1\<lparr>writerIndex := uadd64 (writerIndex b1) n\<rparr>)
          else rbind (append_mem (drop writable bs) (usub64 n writable)
                        (b1\<lparr>writerIndex := length (buffer_v b1)\<rparr>))
                 (\<lambda>b2. Inr (int n, None, b2))))"

section \<open>Invariant and abstract value\<close>

definition Buffer_inv :: "Buffer \<Rightarrow> bool" where
  "Buffer_inv b \<longleftrightarrow> readerIndex b \<le> writerIndex b \<and> writerIndex b \<le> length (buffer_v b) \<and>
     kCheapPrepend \<le> length (buffer_v b) \<and> length (buffer_v b) \<le> vector_max_size"

definition buf_content :: "Buffer \<Rightarrow> byte list" where
  "buf_content b = take (writerIndex b - readerIndex b) (drop (readerIndex b) (buffer_v b))"

definition buf_fits :: "Buffer \<Rightarrow> nat \<Rightarrow> bool" where
  "buf_fits b n \<longleftrightarrow> writerIndex b + n \<le> vector_max_size"

text \<open>
  What \<open>makeSpace\<close>, \<open>ensureWritableBytes\<close> and \<open>append\<close> promise for a length that is the size
  of an object: the readable bytes stay, there is room, or the vector cannot grow any more.
\<close>

definition grows_to :: "Buffer \<Rightarrow> nat \<Rightarrow> Buffer result \<Rightarrow> bool" where
  "grows_to b len r \<longleftrightarrow>
     (case r of
        Inl e \<Rightarrow> e = LengthError \<and> \<not> buf_fits b len
      | Inr b' \<Rightarrow> Buffer_inv b' \<and> buf_content b' = buf_content b \<and>
          len \<le> writableBytes b' \<and> writerIndex b' \<le> writerIndex b)"

text \<open>
  The mutating operations as data, their execution (the string they return, empty for an
  operation that returns none, and the buffer), what a caller owes them, and their effect on the
  readable bytes. The operations on integers are \<open>append_bytes\<close>, \<open>prepend\<close> and \<open>retrieve\<close> at
  their width.
\<close>

datatype buf_op =
    OpRetrieve nat | OpRetrieveUntil nat | OpRetrieveAll | OpRetrieveAsString nat | OpRetrieveAllAsString
  | OpAppend "byte list" | OpAppendPiece StringPiece
  | OpEnsure nat | OpHasWritten nat | OpUnwrite nat | OpPrepend "byte list"
  | OpShrink nat | OpReadFd read_result

definition no_output :: "Buffer result \<Rightarrow> (byte list \<times> Buffer) result" where
  "no_output r = rbind r (\<lambda>b. Inr ([], b))"

fun exec_buf_op :: "buf_op \<Rightarrow> Buffer \<Rightarrow> (byte list \<times> Buffer) result" where
  "exec_buf_op (OpRetrieve n) b = no_output (retrieve n b)"
| "exec_buf_op (OpRetrieveUntil e) b = no_output (retrieveUntil e b)"
| "exec_buf_op OpRetrieveAll b = no_output (Inr (retrieveAll b))"
| "exec_buf_op (OpRetrieveAsString n) b = retrieveAsString n b"
| "exec_buf_op OpRetrieveAllAsString b = retrieveAllAsString b"
| "exec_buf_op (OpAppend xs) b = no_output (append_bytes xs b)"
| "exec_buf_op (OpAppendPiece str) b = no_output (append_piece str b)"
| "exec_buf_op (OpEnsure n) b = no_output (ensureWritableBytes n b)"
| "exec_buf_op (OpHasWritten n) b = no_output (hasWritten n b)"
| "exec_buf_op (OpUnwrite n) b = no_output (unwrite n b)"
| "exec_buf_op (OpPrepend xs) b = no_output (prepend xs b)"
| "exec_buf_op (OpShrink n) b = no_output (shrink n b)"
| "exec_buf_op (OpReadFd rr) b = rbind (readFd rr b) (\<lambda>(n, err, b'). Inr ([], b'))"

text \<open>
  Lengths are sizes of objects, a piece has the memory it says, \<open>readv\<close> stores no more than it was
  offered, and \<open>shrink\<close> is called on less than \<open>2 ^ 31\<close> readable bytes (it goes through an \<open>int\<close>).
\<close>

fun buf_op_wf :: "buf_op \<Rightarrow> Buffer \<Rightarrow> bool" where
  "buf_op_wf (OpAppend xs) b = (length xs \<le> vector_max_size)"
| "buf_op_wf (OpAppendPiece str) b = sp_wf str"
| "buf_op_wf (OpEnsure n) b = (n \<le> vector_max_size)"
| "buf_op_wf (OpShrink n) b =
     (readableBytes b < 2 ^ 31 \<and> readableBytes b + n \<le> vector_max_size)"
| "buf_op_wf (OpReadFd (ReadOk bs)) b = (length bs \<le> iov_capacity b)"
| "buf_op_wf op b = True"

text \<open>The preconditions the code asserts.\<close>

fun buf_op_pre :: "buf_op \<Rightarrow> Buffer \<Rightarrow> bool" where
  "buf_op_pre (OpRetrieve n) b = (n \<le> length (buf_content b))"
| "buf_op_pre (OpRetrieveUntil e) b = (peek b \<le> e \<and> e \<le> beginWrite b)"
| "buf_op_pre (OpRetrieveAsString n) b = (n \<le> length (buf_content b))"
| "buf_op_pre (OpHasWritten n) b = (n \<le> writableBytes b)"
| "buf_op_pre (OpUnwrite n) b = (n \<le> length (buf_content b))"
| "buf_op_pre (OpPrepend xs) b = (length xs \<le> prependableBytes b)"
| "buf_op_pre op b = True"

text \<open>When the operation may ask for a vector longer than the largest one.\<close>

fun buf_op_full :: "buf_op \<Rightarrow> Buffer \<Rightarrow> bool" where
  "buf_op_full (OpAppend xs) b = (\<not> buf_fits b (length xs))"
| "buf_op_full (OpAppendPiece str) b = (\<not> buf_fits b (nat (plen str)))"
| "buf_op_full (OpEnsure n) b = (\<not> buf_fits b n)"
| "buf_op_full (OpShrink n) b = (vector_max_size < kCheapPrepend + length (buf_content b) + n)"
| "buf_op_full (OpReadFd (ReadOk bs)) b = (\<not> buf_fits b (length bs))"
| "buf_op_full op b = False"

fun buf_op_abs :: "buf_op \<Rightarrow> Buffer \<Rightarrow> byte list" where
  "buf_op_abs (OpRetrieve n) b = drop n (buf_content b)"
| "buf_op_abs (OpRetrieveUntil e) b = drop (e - peek b) (buf_content b)"
| "buf_op_abs OpRetrieveAll b = []"
| "buf_op_abs (OpRetrieveAsString n) b = drop n (buf_content b)"
| "buf_op_abs OpRetrieveAllAsString b = []"
| "buf_op_abs (OpAppend xs) b = buf_content b @ xs"
| "buf_op_abs (OpAppendPiece str) b = buf_content b @ sp_bytes str"
| "buf_op_abs (OpEnsure n) b = buf_content b"
| "buf_op_abs (OpHasWritten n) b = buf_content b @ take n (drop (beginWrite b) (buffer_v b))"
| "buf_op_abs (OpUnwrite n) b = take (length (buf_content b) - n) (buf_content b)"
| "buf_op_abs (OpPrepend xs) b = xs @ buf_content b"
| "buf_op_abs (OpShrink n) b = buf_content b"
| "buf_op_abs (OpReadFd (ReadErr e)) b = buf_content b"
| "buf_op_abs (OpReadFd (ReadOk bs)) b = buf_content b @ bs"

fun buf_op_out :: "buf_op \<Rightarrow> Buffer \<Rightarrow> byte list" where
  "buf_op_out (OpRetrieveAsString n) b = take n (buf_content b)"
| "buf_op_out OpRetrieveAllAsString b = buf_content b"
| "buf_op_out op b = []"

text \<open>The contract of one operation: its result refines the effect on the readable bytes.\<close>

definition buf_op_refines :: "buf_op \<Rightarrow> Buffer \<Rightarrow> bool" where
  "buf_op_refines op b \<longleftrightarrow>
     (case exec_buf_op op b of
        Inr (out, b') \<Rightarrow> Buffer_inv b' \<and> buf_op_pre op b \<and> buf_content b' = buf_op_abs op b \<and>
          out = buf_op_out op b
      | Inl e \<Rightarrow> e = AssertFailed \<and> \<not> buf_op_pre op b \<or> e = LengthError \<and> buf_op_full op b)"

lemma no_output_simps [simp]:
  "no_output (Inr b) = Inr ([], b)" "no_output (Inl e) = Inl e"
  "no_output (c_assert p k) = c_assert p (no_output k)" "no_output r = Inl e \<longleftrightarrow> r = Inl e"
  by (cases r; simp add: no_output_def c_assert_def)+



section \<open>Byte order lemmas\<close>

lemma length_le_bytes [simp]: "length (le_bytes n w) = n"
  by (simp add: le_bytes_def)

lemma bit_of_le_bytes:
  "bit (of_le_bytes bs :: 'a::len word) k \<longleftrightarrow>
     k < LENGTH('a) \<and> k div 8 < length bs \<and> bit (bs ! (k div 8)) (k mod 8)"
proof (induction bs arbitrary: k)
  case (Cons b bs)
  show ?case
  proof (cases "k < 8")
    case True
    then show ?thesis by (auto simp: bit_simps)
  next
    case False
    then obtain j where k: "k = j + 8" by (metis add.commute le_Suc_ex not_less)
    have "\<not> bit b k" using False bit_imp_le_length [of b k] by auto
    moreover have "k div 8 = Suc (j div 8)" "k mod 8 = j mod 8" using k by auto
    ultimately show ?thesis using k Cons.IH [of j] by (auto simp: bit_simps)
  qed
qed simp

lemma bit_le_bytes:
  "i < n \<Longrightarrow> j < 8 \<Longrightarrow> bit (le_bytes n w ! i) j \<longleftrightarrow> bit w (8 * i + j)"
  by (auto simp: le_bytes_def bit_simps)

lemma of_le_bytes_le_bytes:
  assumes "LENGTH('a) = 8 * n"
  shows "of_le_bytes (le_bytes n w) = (w :: 'a::len word)"
proof (rule bit_word_eqI)
  fix k assume k: "k < LENGTH('a)"
  with assms have "k div 8 < n" by auto
  with k assms show "bit (of_le_bytes (le_bytes n w) :: 'a word) k \<longleftrightarrow> bit w k"
    by (simp add: bit_of_le_bytes bit_le_bytes)
qed

lemma le_bytes_of_le_bytes:
  assumes "LENGTH('a) = 8 * length bs"
  shows "le_bytes (length bs) (of_le_bytes bs :: 'a::len word) = bs"
proof (rule nth_equalityI)
  fix i assume "i < length (le_bytes (length bs) (of_le_bytes bs :: 'a word))"
  then have i: "i < length bs" by simp
  show "le_bytes (length bs) (of_le_bytes bs :: 'a word) ! i = bs ! i"
  proof (rule bit_word_eqI)
    fix j assume j: "j < LENGTH(8)"
    then have "8 * i + j < LENGTH('a)" "(8 * i + j) div 8 = i" "(8 * i + j) mod 8 = j"
      using i assms by auto
    with i j show "bit (le_bytes (length bs) (of_le_bytes bs :: 'a word) ! i) j \<longleftrightarrow> bit (bs ! i) j"
      by (simp add: bit_le_bytes bit_of_le_bytes)
  qed
qed simp

lemma le_bytes_bswap:
  fixes w :: "'a::len word"
  assumes "LENGTH('a) = 8 * n"
  shows "le_bytes n (bswap n w) = rev (le_bytes n w)"
  using le_bytes_of_le_bytes [of "rev (le_bytes n w)", where 'a = 'a] assms
  by (simp add: bswap_def)

lemma bswap_bswap:
  fixes w :: "'a::len word"
  assumes "LENGTH('a) = 8 * n"
  shows "bswap n (bswap n w) = w"
  using assms by (subst bswap_def) (simp add: le_bytes_bswap of_le_bytes_le_bytes)

lemma le_bytes_read_back:
  fixes w :: "'a::len word"
  assumes "LENGTH('a) = 8 * n"
  shows "bswap n (of_le_bytes (le_bytes n (bswap n w))) = w"
  using assms by (simp add: of_le_bytes_le_bytes bswap_bswap)

section \<open>Sizes under the invariant\<close>

lemma vector_max_size_less: "n \<le> vector_max_size \<Longrightarrow> n < 2 ^ 64"
  by (simp add: vector_max_size_def)

lemma readableBytes_inv: "Buffer_inv b \<Longrightarrow> readableBytes b = writerIndex b - readerIndex b"
  unfolding readableBytes_def Buffer_inv_def
  by (rule usub64_exact) (auto simp: vector_max_size_def)

lemma writableBytes_inv:
  "Buffer_inv b \<Longrightarrow> writableBytes b = length (buffer_v b) - writerIndex b"
  unfolding writableBytes_def Buffer_inv_def
  by (rule usub64_exact) (auto simp: vector_max_size_def)

lemma length_buf_content: "Buffer_inv b \<Longrightarrow> length (buf_content b) = readableBytes b"
  by (simp add: readableBytes_inv) (auto simp: buf_content_def Buffer_inv_def)

lemma buf_content_Nil_iff: "Buffer_inv b \<Longrightarrow> buf_content b = [] \<longleftrightarrow> readableBytes b = 0"
  by (metis length_0_conv length_buf_content)

lemma read_at_peek:
  "Buffer_inv b \<Longrightarrow> len \<le> readableBytes b \<Longrightarrow>
     read_at (peek b) len b = Inr (take len (buf_content b))"
  by (auto simp: read_at_def peek_def buf_content_def readableBytes_inv)
    (auto simp: Buffer_inv_def min_def)

lemma vector_resize_grow:
  "length v \<le> n \<Longrightarrow> n \<le> vector_max_size \<Longrightarrow>
     vector_resize n v = Inr (v @ replicate (n - length v) 0)"
  by (simp add: vector_resize_def)

lemma Buffer_ctor_ok:
  assumes "initialSize + kCheapPrepend \<le> vector_max_size"
  shows "\<exists>b. Buffer_ctor initialSize = Inr b \<and> Buffer_inv b \<and> buf_content b = [] \<and>
    writerIndex b = kCheapPrepend \<and> length (buffer_v b) = kCheapPrepend + initialSize"
proof -
  let ?b = "\<lparr>buffer_v = replicate (kCheapPrepend + initialSize) 0,
    readerIndex = kCheapPrepend, writerIndex = kCheapPrepend\<rparr>"
  have "uadd64 kCheapPrepend initialSize = kCheapPrepend + initialSize"
    using vector_max_size_less [OF assms] by (simp add: uadd64_exact add.commute)
  moreover have inv: "Buffer_inv ?b" using assms by (simp add: Buffer_inv_def)
  ultimately have "Buffer_ctor initialSize = Inr ?b"
    using assms
    by (simp add: Buffer_ctor_def vector_resize_grow readableBytes_inv writableBytes_inv
        prependableBytes_def add.commute)
  with inv show ?thesis by (auto simp: buf_content_def)
qed

section \<open>Consuming\<close>

lemma retrieveAll_spec:
  "Buffer_inv b \<Longrightarrow> Buffer_inv (retrieveAll b) \<and> buf_content (retrieveAll b) = []"
  by (simp add: retrieveAll_def Buffer_inv_def buf_content_def)

lemma retrieve_spec:
  assumes "Buffer_inv b" and "len \<le> length (buf_content b)"
  shows "\<exists>b'. retrieve len b = Inr b' \<and> Buffer_inv b' \<and> buf_content b' = drop len (buf_content b) \<and>
    buffer_v b' = buffer_v b \<and> writerIndex b' \<le> max (writerIndex b) kCheapPrepend"
proof (cases "len < readableBytes b")
  case True
  let ?b = "b\<lparr>readerIndex := readerIndex b + len\<rparr>"
  have r: "len < writerIndex b - readerIndex b" using True assms(1) by (simp add: readableBytes_inv)
  have "readerIndex b + len \<le> vector_max_size"
    using r assms(1) by (auto simp: Buffer_inv_def)
  then have "retrieve len b = Inr ?b"
    using True assms uadd64_exact [OF vector_max_size_less]
    by (simp add: retrieve_def length_buf_content)
  moreover have "Buffer_inv ?b" using r assms(1) by (auto simp: Buffer_inv_def)
  moreover have "buf_content ?b = drop len (buf_content b)"
    by (simp add: buf_content_def drop_take add.commute)
  ultimately show ?thesis by auto
next
  case False
  with assms have "retrieve len b = Inr (retrieveAll b)" and "drop len (buf_content b) = []"
    by (auto simp: retrieve_def length_buf_content)
  then show ?thesis using retrieveAll_spec [OF assms(1)] by (auto simp: retrieveAll_def)
qed

lemma retrieve_fails:
  "Buffer_inv b \<Longrightarrow> length (buf_content b) < len \<Longrightarrow> retrieve len b = Inl AssertFailed"
  by (simp add: retrieve_def length_buf_content)

lemma retrieveAsString_spec:
  assumes "Buffer_inv b" and "len \<le> length (buf_content b)"
  shows "\<exists>b'. retrieveAsString len b = Inr (take len (buf_content b), b') \<and> Buffer_inv b' \<and>
    buf_content b' = drop len (buf_content b)"
  using retrieve_spec [OF assms] assms
  by (auto simp: retrieveAsString_def read_at_peek length_buf_content c_assert_def)

lemma unwrite_spec:
  assumes "Buffer_inv b" and "len \<le> length (buf_content b)"
  shows "\<exists>b'. unwrite len b = Inr b' \<and> Buffer_inv b' \<and>
    buf_content b' = take (length (buf_content b) - len) (buf_content b)"
proof -
  have r: "readerIndex b + len \<le> writerIndex b" "writerIndex b < 2 ^ 64"
    using assms by (auto simp: length_buf_content readableBytes_inv)
      (auto simp: Buffer_inv_def vector_max_size_def)
  then have "usub64 (writerIndex b) len = writerIndex b - len" by (simp add: usub64_exact)
  with r assms show ?thesis
    by (auto simp: unwrite_def length_buf_content readableBytes_inv)
      (auto simp: Buffer_inv_def buf_content_def min_def add.commute)
qed

section \<open>Making room and appending\<close>

lemma makeSpace_sums:
  assumes "Buffer_inv b" and "len \<le> vector_max_size"
  shows "uadd64 (writableBytes b) (prependableBytes b) =
      length (buffer_v b) - writerIndex b + readerIndex b"
    and "uadd64 len kCheapPrepend = len + kCheapPrepend"
    and "uadd64 (writerIndex b) len = writerIndex b + len"
proof -
  have "length (buffer_v b) - writerIndex b + readerIndex b < 2 ^ 64"
    "len + kCheapPrepend < 2 ^ 64" "writerIndex b + len < 2 ^ 64"
    using assms by (auto simp: Buffer_inv_def vector_max_size_def kCheapPrepend_def)
  then show "uadd64 (writableBytes b) (prependableBytes b) =
      length (buffer_v b) - writerIndex b + readerIndex b"
    and "uadd64 len kCheapPrepend = len + kCheapPrepend"
    and "uadd64 (writerIndex b) len = writerIndex b + len"
    using assms(1) by (simp_all only: writableBytes_inv prependableBytes_def uadd64_exact)
qed

lemma makeSpace_grow:
  assumes inv: "Buffer_inv b" and w: "writableBytes b < len" and len: "len \<le> vector_max_size"
    and small: "length (buffer_v b) - writerIndex b + readerIndex b < len + kCheapPrepend"
  shows "grows_to b len (makeSpace len b)"
proof -
  let ?size = "length (buffer_v b)" and ?r = "readerIndex b" and ?w = "writerIndex b"
  let ?v = "buffer_v b @ replicate (?w + len - ?size) 0" and ?b = "\<lambda>v. b\<lparr>buffer_v := v\<rparr>"
  have bounds: "?r \<le> ?w" "?w \<le> ?size" "?size \<le> vector_max_size"
    using inv by (auto simp: Buffer_inv_def)
  have grow: "?size \<le> ?w + len" using w bounds by (simp add: writableBytes_inv [OF inv])
  have ms: "makeSpace len b = rbind (vector_resize (?w + len) (buffer_v b)) (\<lambda>v. Inr (?b v))"
    using small inv len bounds by (simp add: makeSpace_def makeSpace_sums)
  show ?thesis
  proof (cases "?w + len \<le> vector_max_size")
    case True
    have inv': "Buffer_inv (?b ?v)" using inv bounds grow True by (auto simp: Buffer_inv_def)
    have "len \<le> writableBytes (?b ?v)" using grow by (simp add: writableBytes_inv [OF inv'])
    moreover have "buf_content (?b ?v) = buf_content b" using bounds by (simp add: buf_content_def)
    ultimately show ?thesis
      using True grow inv' by (simp add: grows_to_def ms vector_resize_grow)
  next
    case False
    then show ?thesis by (simp add: grows_to_def ms vector_resize_def buf_fits_def)
  qed
qed

lemma makeSpace_move:
  assumes inv: "Buffer_inv b" and w: "writableBytes b < len" and len: "len \<le> vector_max_size"
    and large: "\<not> length (buffer_v b) - writerIndex b + readerIndex b < len + kCheapPrepend"
  shows "grows_to b len (makeSpace len b)"
proof -
  let ?size = "length (buffer_v b)" and ?r = "readerIndex b" and ?w = "writerIndex b"
  let ?v = "take kCheapPrepend (buffer_v b) @ buf_content b @
    drop (kCheapPrepend + length (buf_content b)) (buffer_v b)"
  let ?b = "b\<lparr>buffer_v := ?v, readerIndex := kCheapPrepend,
    writerIndex := kCheapPrepend + length (buf_content b)\<rparr>"
  have bounds: "?r \<le> ?w" "?w \<le> ?size" "?size \<le> vector_max_size"
    using inv by (auto simp: Buffer_inv_def)
  have r: "kCheapPrepend < ?r" using large w bounds by (simp add: writableBytes_inv [OF inv])
  have len_c: "length (buf_content b) = ?w - ?r"
    using inv by (simp add: length_buf_content readableBytes_inv)
  then have fit: "kCheapPrepend + length (buf_content b) \<le> ?size" using r bounds by auto
  have src: "read_at ?r (?w - ?r) b = Inr (buf_content b)"
    using bounds by (simp add: read_at_def buf_content_def)
  have lv: "length ?v = ?size" using fit by auto
  have inv': "Buffer_inv ?b" using inv fit by (auto simp: Buffer_inv_def lv)
  have "uadd64 kCheapPrepend (readableBytes b) = kCheapPrepend + length (buf_content b)"
    using fit bounds inv
    by (subst uadd64_exact) (auto simp: length_buf_content vector_max_size_def)
  then have "makeSpace len b = Inr ?b"
    using large r src copy_into_ok [OF fit] inv readableBytes_inv [OF inv'] len_c len
    by (simp add: makeSpace_def makeSpace_sums Let_def readableBytes_inv [OF inv])
  moreover have "buf_content ?b = buf_content b"
    using fit by (simp add: buf_content_def min_def)
  moreover have "writableBytes ?b = ?size - (kCheapPrepend + length (buf_content b))"
    by (subst writableBytes_inv [OF inv']) (use lv in simp)
  then have "len \<le> writableBytes ?b" using large len_c bounds by linarith
  ultimately show ?thesis using inv' r len_c bounds by (simp add: grows_to_def)
qed

lemma ensureWritableBytes_grows:
  assumes "Buffer_inv b" and "len \<le> vector_max_size"
  shows "grows_to b len (ensureWritableBytes len b)"
proof (cases "writableBytes b < len")
  case True
  with assms have "grows_to b len (makeSpace len b)"
    using makeSpace_grow makeSpace_move by blast
  with True show ?thesis
    by (auto simp: ensureWritableBytes_def grows_to_def c_assert_def split: sum.splits)
next
  case False
  with assms(1) show ?thesis by (auto simp: ensureWritableBytes_def c_assert_def grows_to_def)
qed

lemma ensureWritableBytes_spec:
  assumes "Buffer_inv b" and "buf_fits b len"
  shows "\<exists>b'. ensureWritableBytes len b = Inr b' \<and> Buffer_inv b' \<and>
    buf_content b' = buf_content b \<and> len \<le> writableBytes b' \<and> writerIndex b' \<le> writerIndex b"
proof -
  have "grows_to b len (ensureWritableBytes len b)"
    using assms by (intro ensureWritableBytes_grows) (auto simp: buf_fits_def)
  with assms(2) show ?thesis by (auto simp: grows_to_def split: sum.splits)
qed

text \<open>Writing \<open>xs\<close> behind the readable bytes of a buffer that has room for it.\<close>

lemma write_behind:
  assumes inv: "Buffer_inv b" and room: "length xs \<le> writableBytes b"
  defines "v \<equiv> take (writerIndex b) (buffer_v b) @ xs @
    drop (writerIndex b + length xs) (buffer_v b)"
  defines "b' \<equiv> b\<lparr>buffer_v := v, writerIndex := writerIndex b + length xs\<rparr>"
  shows "copy_into (buffer_v b) (writerIndex b) xs = Inr v" and "Buffer_inv b'"
    and "buf_content b' = buf_content b @ xs" and "length v = length (buffer_v b)"
    and "uadd64 (writerIndex b) (length xs) = writerIndex b + length xs"
proof -
  have fit: "writerIndex b + length xs \<le> length (buffer_v b)" and i: "readerIndex b \<le> writerIndex b"
    and m: "length (buffer_v b) \<le> vector_max_size"
    using inv room by (auto simp: writableBytes_inv Buffer_inv_def)
  from fit show "copy_into (buffer_v b) (writerIndex b) xs = Inr v"
    by (simp add: copy_into_ok v_def)
  from fit show lv: "length v = length (buffer_v b)" by (auto simp: v_def)
  with inv fit show "Buffer_inv b'" by (auto simp: Buffer_inv_def b'_def)
  from fit i show "buf_content b' = buf_content b @ xs"
    by (auto simp: buf_content_def b'_def v_def drop_take)
  show "uadd64 (writerIndex b) (length xs) = writerIndex b + length xs"
    by (rule uadd64_exact) (use fit m in \<open>auto simp: vector_max_size_def\<close>)
qed

lemma append_mem_appends:
  assumes "Buffer_inv b" and "len \<le> vector_max_size" and "len \<le> length mem"
  shows "case append_mem mem len b of
      Inl e \<Rightarrow> e = LengthError \<and> \<not> buf_fits b len
    | Inr b' \<Rightarrow> Buffer_inv b' \<and> buf_content b' = buf_content b @ take len mem \<and>
        writerIndex b' \<le> writerIndex b + len"
proof (cases "ensureWritableBytes len b")
  case (Inl e)
  with ensureWritableBytes_grows [OF assms(1,2)] show ?thesis
    by (simp add: grows_to_def append_mem_def)
next
  case (Inr b1)
  with ensureWritableBytes_grows [OF assms(1,2)] have b1: "Buffer_inv b1"
    "buf_content b1 = buf_content b" "len \<le> writableBytes b1" "writerIndex b1 \<le> writerIndex b"
    by (simp_all add: grows_to_def)
  have l: "length (take len mem) = len" using assms(3) by simp
  with b1(3) have room: "length (take len mem) \<le> writableBytes b1" by simp
  note wb = write_behind [OF b1(1) room]
  have "writableBytes (b1\<lparr>buffer_v := v\<rparr>) = writableBytes b1" if "length v = length (buffer_v b1)" for v
    using that by (simp add: writableBytes_def)
  with wb l b1 Inr assms(3) show ?thesis
    by (auto simp: append_mem_def beginWrite_def hasWritten_def c_assert_def)
qed

lemma append_mem_spec:
  assumes "Buffer_inv b" and "buf_fits b len" and "len \<le> length mem"
  shows "\<exists>b'. append_mem mem len b = Inr b' \<and> Buffer_inv b' \<and>
    buf_content b' = buf_content b @ take len mem \<and> writerIndex b' \<le> writerIndex b + len"
proof -
  have "len \<le> vector_max_size" using assms(2) by (simp add: buf_fits_def)
  from append_mem_appends [OF assms(1) this assms(3)] assms(2) show ?thesis
    by (auto split: sum.splits)
qed

lemma append_bytes_spec:
  assumes "Buffer_inv b" and "buf_fits b (length xs)"
  shows "\<exists>b'. append_bytes xs b = Inr b' \<and> Buffer_inv b' \<and> buf_content b' = buf_content b @ xs \<and>
    writerIndex b' \<le> writerIndex b + length xs"
  using append_mem_spec [OF assms order_refl] by (simp add: append_bytes_def)

lemma prepend_spec:
  assumes inv: "Buffer_inv b" and room: "length d \<le> prependableBytes b"
  shows "\<exists>b'. prepend d b = Inr b' \<and> Buffer_inv b' \<and> buf_content b' = d @ buf_content b"
proof -
  let ?r = "readerIndex b - length d"
  let ?v = "take ?r (buffer_v b) @ d @ drop (readerIndex b) (buffer_v b)"
  have b: "length d \<le> readerIndex b" "readerIndex b \<le> writerIndex b"
    "writerIndex b \<le> length (buffer_v b)" "readerIndex b < 2 ^ 64"
    using inv room by (auto simp: Buffer_inv_def prependableBytes_def vector_max_size_def)
  then have "prepend d b = Inr (b\<lparr>buffer_v := ?v, readerIndex := ?r\<rparr>)"
    using room by (simp add: prepend_def usub64_exact copy_into_ok c_assert_def Let_def)
  moreover have "Buffer_inv (b\<lparr>buffer_v := ?v, readerIndex := ?r\<rparr>)"
    using inv b by (auto simp: Buffer_inv_def)
  moreover have "buf_content (b\<lparr>buffer_v := ?v, readerIndex := ?r\<rparr>) = d @ buf_content b"
    using b by (auto simp: buf_content_def)
  ultimately show ?thesis by blast
qed

lemma buffer_v_same: "b\<lparr>buffer_v := buffer_v b, writerIndex := n\<rparr> = b\<lparr>writerIndex := n\<rparr>"
  by simp

lemma Buffer_swap_eq [simp]: "Buffer_swap b rhs = (rhs, b)"
  by (cases b; cases rhs) (simp add: Buffer_swap_def)

section \<open>Every operation refines its effect on the readable bytes\<close>

lemma retrieve_refines: "Buffer_inv b \<Longrightarrow> buf_op_refines (OpRetrieve n) b"
  using retrieve_spec [of b n] retrieve_fails [of b n]
  by (cases "n \<le> length (buf_content b)") (auto simp: buf_op_refines_def)

lemma retrieveUntil_refines:
  assumes "Buffer_inv b"
  shows "buf_op_refines (OpRetrieveUntil e) b"
proof (cases "peek b \<le> e \<and> e \<le> beginWrite b")
  case True
  then have "e - peek b \<le> length (buf_content b)"
    using assms by (auto simp: length_buf_content readableBytes_inv peek_def beginWrite_def)
  from retrieve_spec [OF assms this] True show ?thesis
    by (auto simp: buf_op_refines_def retrieveUntil_def c_assert_def)
next
  case False
  then show ?thesis by (auto simp: buf_op_refines_def retrieveUntil_def c_assert_def)
qed

lemma hasWritten_refines:
  assumes "Buffer_inv b"
  shows "buf_op_refines (OpHasWritten n) b"
proof (cases "n \<le> writableBytes b")
  case True
  let ?xs = "take n (drop (writerIndex b) (buffer_v b))"
  have l: "length ?xs = n" using True assms by (auto simp: writableBytes_inv)
  have v: "take (writerIndex b) (buffer_v b) @ ?xs @ drop (writerIndex b + n) (buffer_v b) = buffer_v b"
    by (metis add.commute append_take_drop_id drop_drop)
  have "uadd64 (writerIndex b) n = writerIndex b + n"
    and "Buffer_inv (b\<lparr>writerIndex := writerIndex b + n\<rparr>)"
    and "buf_content (b\<lparr>writerIndex := writerIndex b + n\<rparr>) = buf_content b @ ?xs"
    using write_behind(2,3,5) [OF assms, of ?xs] True by (simp_all only: l v Buffer.simps buffer_v_same)
  with True show ?thesis by (simp add: buf_op_refines_def hasWritten_def beginWrite_def c_assert_def)
next
  case False
  then show ?thesis by (simp add: buf_op_refines_def hasWritten_def)
qed

lemma unwrite_refines: "Buffer_inv b \<Longrightarrow> buf_op_refines (OpUnwrite n) b"
  using unwrite_spec [of b n]
  by (cases "n \<le> length (buf_content b)")
    (auto simp: buf_op_refines_def unwrite_def length_buf_content)

lemma prepend_refines: "Buffer_inv b \<Longrightarrow> buf_op_refines (OpPrepend xs) b"
  using prepend_spec [of b xs]
  by (cases "length xs \<le> prependableBytes b") (auto simp: buf_op_refines_def prepend_def)

lemma retrieveAsString_refines:
  assumes "Buffer_inv b"
  shows "buf_op_refines (OpRetrieveAsString n) b" and "buf_op_refines OpRetrieveAllAsString b"
proof -
  show "buf_op_refines (OpRetrieveAsString n) b"
    using retrieveAsString_spec [OF assms, of n] length_buf_content [OF assms]
    by (cases "n \<le> length (buf_content b)") (auto simp: buf_op_refines_def retrieveAsString_def)
  have "readableBytes b = length (buf_content b)" using length_buf_content [OF assms] by simp
  then show "buf_op_refines OpRetrieveAllAsString b"
    using retrieveAsString_spec [OF assms order_refl]
    by (auto simp: buf_op_refines_def retrieveAllAsString_def)
qed

lemma append_piece_refines:
  assumes "Buffer_inv b" and "sp_wf str"
  shows "buf_op_refines (OpAppendPiece str) b"
proof -
  have p: "plen str = int (nat (plen str))" "nat (plen str) < 2 ^ 31" using assms(2) by (auto simp: sp_wf_def)
  have "to_size_t (int (nat (plen str))) = nat (plen str)" using p(2) by (intro to_size_t_exact) simp
  with p(1) have n: "to_size_t (plen str) = nat (plen str)" by simp
  have m: "nat (plen str) \<le> vector_max_size"
    "nat (plen str) \<le> length (ptr str)" "sp_bytes str = take (nat (plen str)) (ptr str)"
    using assms(2) by (auto simp: sp_wf_def sp_bytes_def vector_max_size_def)
  from append_mem_appends [OF assms(1) m(1,2)] show ?thesis
    by (auto simp: buf_op_refines_def append_piece_def n m(3) split: sum.splits)
qed

lemma append_refines:
  "Buffer_inv b \<Longrightarrow> length xs \<le> vector_max_size \<Longrightarrow> buf_op_refines (OpAppend xs) b"
  using append_mem_appends [of b "length xs" xs]
  by (auto simp: buf_op_refines_def append_bytes_def split: sum.splits)

lemma ensure_refines:
  "Buffer_inv b \<Longrightarrow> n \<le> vector_max_size \<Longrightarrow> buf_op_refines (OpEnsure n) b"
  using ensureWritableBytes_grows [of b n]
  by (auto simp: buf_op_refines_def grows_to_def split: sum.splits)

lemma kInitialSize_fits: "kInitialSize + kCheapPrepend \<le> vector_max_size"
  by (simp add: kInitialSize_def kCheapPrepend_def vector_max_size_def)

lemma toStringPiece_small:
  assumes "Buffer_inv b" and "readableBytes b < 2 ^ 31"
  shows "sp_wf (toStringPiece b)" and "sp_bytes (toStringPiece b) = buf_content b"
    and "to_size_t (plen (toStringPiece b)) = length (buf_content b)"
proof -
  have p: "plen (toStringPiece b) = int (readableBytes b)"
    using assms(2) by (simp add: toStringPiece_def sp_of_mem_def to_int32_exact)
  have m: "ptr (toStringPiece b) = drop (readerIndex b) (buffer_v b)"
    by (simp add: toStringPiece_def sp_of_mem_def peek_def)
  have le: "readableBytes b \<le> length (drop (readerIndex b) (buffer_v b))"
    using assms(1) by (simp add: readableBytes_inv) (auto simp: Buffer_inv_def)
  show "sp_wf (toStringPiece b)" using assms(2) le by (simp add: sp_wf_def p m)
  show "sp_bytes (toStringPiece b) = buf_content b"
    using assms(1) by (simp add: sp_bytes_def p m buf_content_def readableBytes_inv)
  show "to_size_t (plen (toStringPiece b)) = length (buf_content b)"
    using assms by (simp add: p to_size_t_exact length_buf_content)
qed

lemma shrink_refines:
  assumes inv: "Buffer_inv b" and wf: "buf_op_wf (OpShrink n) b"
  shows "buf_op_refines (OpShrink n) b"
proof -
  let ?c = "buf_content b"
  have small: "readableBytes b < 2 ^ 31" and sum: "readableBytes b + n \<le> vector_max_size"
    using wf by simp_all
  obtain o1 where o1: "Buffer_ctor kInitialSize = Inr o1" "Buffer_inv o1" "buf_content o1 = []"
    using Buffer_ctor_ok [OF kInitialSize_fits] by blast
  have w1: "writerIndex o1 = kCheapPrepend" using o1(1) by (auto simp: Buffer_ctor_def result_simps Let_def)
  have u: "uadd64 (readableBytes b) n = readableBytes b + n"
    using sum by (intro uadd64_exact) (rule vector_max_size_less)
  have g: "grows_to o1 (readableBytes b + n) (ensureWritableBytes (readableBytes b + n) o1)"
    by (rule ensureWritableBytes_grows [OF o1(2) sum])
  show ?thesis
  proof (cases "ensureWritableBytes (readableBytes b + n) o1")
    case (Inl e)
    with g o1 w1 show ?thesis
      by (simp add: buf_op_refines_def shrink_def u grows_to_def buf_fits_def length_buf_content [OF inv])
  next
    case (Inr o2)
    with g o1 w1 have o2: "Buffer_inv o2" "buf_content o2 = []" "writerIndex o2 \<le> kCheapPrepend"
      by (simp_all add: grows_to_def)
    note sp = toStringPiece_small [OF inv small]
    have le: "length ?c \<le> length (ptr (toStringPiece b))"
      using sp(1,2) by (metis length_sp_bytes nat_le_iff sp_wf_def)
    have tk: "take (length ?c) (ptr (toStringPiece b)) = ?c"
      using sp by (metis length_sp_bytes sp_bytes_def)
    have "length ?c \<le> vector_max_size" using sum by (simp add: length_buf_content [OF inv])
    from append_mem_appends [OF o2(1) this le] show ?thesis
      using o1 Inr o2 sp(3)
      by (auto simp: buf_op_refines_def shrink_def u append_piece_def tk buf_fits_def split: sum.splits)
  qed
qed

lemma readFd_short:
  assumes "Buffer_inv b" and "length bs \<le> writableBytes b"
  shows "\<exists>b'. readFd (ReadOk bs) b = Inr (int (length bs), None, b') \<and> Buffer_inv b' \<and>
    buf_content b' = buf_content b @ bs"
  using write_behind [OF assms] assms(2) by (simp add: readFd_def Let_def)

lemma readFd_long:
  assumes inv: "Buffer_inv b" and long: "\<not> length bs \<le> writableBytes b"
    and cap: "length bs \<le> iov_capacity b"
  shows "\<exists>b1. readFd (ReadOk bs) b =
      rbind (append_mem (drop (writableBytes b) bs) (length bs - writableBytes b) b1)
        (\<lambda>b2. Inr (int (length bs), None, b2)) \<and>
    Buffer_inv b1 \<and> buf_content b1 = buf_content b @ take (writableBytes b) bs \<and>
    writerIndex b1 = writerIndex b + writableBytes b \<and> length bs - writableBytes b \<le> vector_max_size \<and>
    length (buffer_v b1) = length (buffer_v b)"
proof -
  let ?w = "writableBytes b"
  let ?v = "take (writerIndex b) (buffer_v b) @ take ?w bs @ drop (writerIndex b + ?w) (buffer_v b)"
  let ?b = "b\<lparr>buffer_v := ?v, writerIndex := length (buffer_v b)\<rparr>"
  have room: "length (take ?w bs) \<le> ?w" and l: "length (take ?w bs) = ?w" using long by simp_all
  note wb = write_behind [OF inv room, unfolded l]
  have wi: "writerIndex b + ?w = length (buffer_v b)"
    using inv by (simp add: writableBytes_inv) (auto simp: Buffer_inv_def)
  have b1: "Buffer_inv ?b" "buf_content ?b = buf_content b @ take ?w bs"
    using wb(2,3) by (simp_all only: wi)
  have n: "?w < 65536" "length bs - ?w \<le> 65536"
    using cap long by (auto simp: iov_capacity_def extrabuf_size_def split: if_splits)
  then have "usub64 (length bs) ?w = length bs - ?w"
    using long by (intro usub64_exact) auto
  then have "readFd (ReadOk bs) b = rbind (append_mem (drop ?w bs) (length bs - ?w) ?b)
      (\<lambda>b2. Inr (int (length bs), None, b2))"
    using wb(1,4) long by (simp add: readFd_def Let_def)
  moreover have "length (buffer_v ?b) = length (buffer_v b)" using wb(4) by simp
  ultimately show ?thesis using b1 wi n by (intro exI [of _ ?b]) (simp add: vector_max_size_def)
qed

lemma readFd_fits:
  assumes "Buffer_inv b" and "length bs \<le> iov_capacity b" and "buf_fits b (length bs)"
  shows "\<exists>b'. readFd (ReadOk bs) b = Inr (int (length bs), None, b')"
proof (cases "length bs \<le> writableBytes b")
  case True
  with readFd_short [OF assms(1) True] show ?thesis by auto
next
  case False
  from readFd_long [OF assms(1) False assms(2)] obtain b1
    where b1: "readFd (ReadOk bs) b =
        rbind (append_mem (drop (writableBytes b) bs) (length bs - writableBytes b) b1)
          (\<lambda>b2. Inr (int (length bs), None, b2))"
      "Buffer_inv b1" "writerIndex b1 = writerIndex b + writableBytes b"
    by auto
  have "buf_fits b1 (length bs - writableBytes b)"
    using b1(3) assms(3) False by (simp add: buf_fits_def)
  from append_mem_spec [OF b1(2) this, of "drop (writableBytes b) bs"] b1(1) show ?thesis by auto
qed

lemma readFd_refines:
  assumes inv: "Buffer_inv b" and wf: "buf_op_wf (OpReadFd rr) b"
  shows "buf_op_refines (OpReadFd rr) b"
proof (cases rr)
  case (ReadErr e)
  with inv show ?thesis by (simp add: buf_op_refines_def readFd_def)
next
  case (ReadOk bs)
  let ?w = "writableBytes b"
  show ?thesis
  proof (cases "length bs \<le> ?w")
    case True
    with readFd_short [OF inv True] ReadOk show ?thesis by (auto simp: buf_op_refines_def)
  next
    case False
    with readFd_long [OF inv False] wf ReadOk obtain b1
      where b1: "readFd rr b = rbind (append_mem (drop ?w bs) (length bs - ?w) b1)
          (\<lambda>b2. Inr (int (length bs), None, b2))"
        "Buffer_inv b1" "buf_content b1 = buf_content b @ take ?w bs" "length bs - ?w \<le> vector_max_size"
      by auto
    from append_mem_appends [OF b1(2,4), of "drop ?w bs"] b1 ReadOk readFd_fits [OF inv, of bs] wf show ?thesis
      by (auto simp: buf_op_refines_def split: sum.splits)
  qed
qed

lemma buf_op_refines_all: "Buffer_inv b \<Longrightarrow> buf_op_wf op b \<Longrightarrow> buf_op_refines op b"
proof (cases op)
  case OpRetrieveAll
  moreover assume "Buffer_inv b"
  ultimately show ?thesis using retrieveAll_spec by (simp add: buf_op_refines_def)
qed (auto intro: retrieve_refines retrieveUntil_refines retrieveAsString_refines append_refines append_piece_refines ensure_refines
    hasWritten_refines unwrite_refines prepend_refines shrink_refines readFd_refines)


section \<open>The interface of the connection\<close>

text \<open>
  What a connection relies on: bytes put at the end come out at the front, in order, and
  taking no more than is there always succeeds. \<open>cap\<close> bounds the size of one object.
\<close>

locale fifo_buffer =
  fixes inv :: "'b \<Rightarrow> bool" and content :: "'b \<Rightarrow> byte list" and fits :: "'b \<Rightarrow> nat \<Rightarrow> bool"
    and cap :: nat and put :: "byte list \<Rightarrow> 'b \<Rightarrow> 'b result" and get :: "nat \<Rightarrow> 'b \<Rightarrow> 'b result"
  assumes put_sound:
      "inv b \<Longrightarrow> length xs \<le> cap \<Longrightarrow> put xs b = Inr b' \<Longrightarrow> inv b' \<and> content b' = content b @ xs"
    and put_fits: "inv b \<Longrightarrow> fits b (length xs) \<Longrightarrow> isOK (put xs b)"
    and fits_cap: "fits b n \<Longrightarrow> n \<le> cap"
    and get_exact:
      "inv b \<Longrightarrow> n \<le> length (content b) \<Longrightarrow>
         \<exists>b'. get n b = Inr b' \<and> inv b' \<and> content b' = drop n (content b)"
begin

lemma put_conserves:
  assumes "inv b" and "out @ content b = sent" and "length xs \<le> cap" and "put xs b = Inr b'"
  shows "inv b' \<and> out @ content b' = sent @ xs"
  using put_sound [OF assms(1,3,4)] assms(2) by auto

lemma get_conserves:
  assumes "inv b" and "out @ content b = sent" and "n \<le> length (content b)"
  shows "\<exists>b'. get n b = Inr b' \<and> inv b' \<and> (out @ take n (content b)) @ content b' = sent"
  using get_exact [OF assms(1,3)] assms(2) by auto

lemma put_then_get:
  assumes "inv b" and "fits b (length xs)"
  shows "\<exists>b1 b2. put xs b = Inr b1 \<and> get (length (content b)) b1 = Inr b2 \<and> inv b2 \<and> content b2 = xs"
proof -
  from put_fits [OF assms] obtain b1 where b1: "put xs b = Inr b1" by (auto simp: isOK_iff)
  from put_sound [OF assms(1) fits_cap [OF assms(2)] b1] have c: "inv b1" "content b1 = content b @ xs"
    by auto
  with get_exact [of b1 "length (content b)"] b1 show ?thesis by auto
qed

end

interpretation net_buf: fifo_buffer Buffer_inv buf_content buf_fits vector_max_size append_bytes retrieve
proof
  show "Buffer_inv b' \<and> buf_content b' = buf_content b @ xs"
    if "Buffer_inv b" "length xs \<le> vector_max_size" "append_bytes xs b = Inr b'" for b xs b'
    using append_refines [OF that(1,2)] that(3) by (simp add: buf_op_refines_def)
  show "isOK (append_bytes xs b)" if "Buffer_inv b" "buf_fits b (length xs)" for b xs
    using append_bytes_spec [OF that] by auto
  show "n \<le> vector_max_size" if "buf_fits b n" for b n
    using that by (simp add: buf_fits_def)
  show "\<exists>b'. retrieve n b = Inr b' \<and> Buffer_inv b' \<and> buf_content b' = drop n (buf_content b)"
    if "Buffer_inv b" "n \<le> length (buf_content b)" for b n
    using retrieve_spec [OF that] by blast
qed

section \<open>Integers\<close>

lemma read_at_front:
  assumes "Buffer_inv b" and "buf_content b = xs @ rest"
  shows "length xs \<le> readableBytes b" and "read_at (peek b) (length xs) b = Inr xs"
proof -
  show "length xs \<le> readableBytes b"
    using assms by (metis length_append length_buf_content le_add1)
  from read_at_peek [OF assms(1) this] assms(2) show "read_at (peek b) (length xs) b = Inr xs"
    by simp
qed

lemma be_read_back:
  fixes w :: "'a::len word"
  assumes "LENGTH('a) = 8 * n"
  shows "bswap n (of_le_bytes (rev (le_bytes n w))) = w"
  using bswap_bswap [OF assms, of w] by (simp add: bswap_def)

lemmas endian_defs = hostToNetwork64_def hostToNetwork32_def hostToNetwork16_def
  networkToHost64_def networkToHost32_def networkToHost16_def

lemma network_bytes:
  "le_bytes 8 (hostToNetwork64 x) = rev (le_bytes 8 x)"
  "le_bytes 4 (hostToNetwork32 y) = rev (le_bytes 4 y)"
  "le_bytes 2 (hostToNetwork16 z) = rev (le_bytes 2 z)"
  by (simp_all add: endian_defs le_bytes_bswap)

lemma peekInt_front:
  assumes "Buffer_inv b"
  shows "buf_content b = rev (le_bytes 8 x) @ rest \<Longrightarrow> peekInt64 b = Inr x"
    and "buf_content b = rev (le_bytes 4 y) @ rest \<Longrightarrow> peekInt32 b = Inr y"
    and "buf_content b = rev (le_bytes 2 z) @ rest \<Longrightarrow> peekInt16 b = Inr z"
    and "buf_content b = [u] @ rest \<Longrightarrow> peekInt8 b = Inr u"
  using read_at_front [OF assms, of "rev (le_bytes 8 x)" rest]
    read_at_front [OF assms, of "rev (le_bytes 4 y)" rest]
    read_at_front [OF assms, of "rev (le_bytes 2 z)" rest]
    read_at_front [OF assms, of "[u]" rest]
  by (simp_all add: peekInt64_def peekInt32_def peekInt16_def peekInt8_def endian_defs
      be_read_back c_assert_def)

lemma retrieve_front:
  assumes "Buffer_inv b" and "buf_content b = xs @ rest" and "n = length xs"
  shows "\<exists>b'. retrieve n b = Inr b' \<and> Buffer_inv b' \<and> buf_content b' = rest"
  using retrieve_spec [OF assms(1), of n] assms(2,3) by auto

lemmas retrieveInt_defs = retrieveInt64_def retrieveInt32_def retrieveInt16_def retrieveInt8_def

lemma readInt_front:
  assumes "Buffer_inv b"
  shows "buf_content b = rev (le_bytes 4 y) @ rest \<Longrightarrow>
      \<exists>b'. readInt32 b = Inr (y, b') \<and> Buffer_inv b' \<and> buf_content b' = rest"
    and "buf_content b = rev (le_bytes 2 z) @ rest \<Longrightarrow>
      \<exists>b'. readInt16 b = Inr (z, b') \<and> Buffer_inv b' \<and> buf_content b' = rest"
    and "buf_content b = [u] @ rest \<Longrightarrow>
      \<exists>b'. readInt8 b = Inr (u, b') \<and> Buffer_inv b' \<and> buf_content b' = rest"
  using retrieve_front [OF assms, of "rev (le_bytes 4 y)" rest 4]
    retrieve_front [OF assms, of "rev (le_bytes 2 z)" rest 2]
    retrieve_front [OF assms, of "[u]" rest 1] peekInt_front [OF assms]
  by (auto simp: readInt32_def readInt16_def readInt8_def retrieveInt_defs)

section \<open>Searching\<close>

lemma search_list_le: "search_list pat xs \<le> length xs"
  by (induction pat xs rule: search_list.induct) auto

lemma search_list_found:
  "search_list pat xs < length xs \<Longrightarrow> take (length pat) (drop (search_list pat xs) xs) = pat"
  by (induction pat xs rule: search_list.induct) auto

lemma search_list_first: "k < search_list pat xs \<Longrightarrow> take (length pat) (drop k xs) \<noteq> pat"
proof (induction pat xs arbitrary: k rule: search_list.induct)
  case (2 pat x xs)
  then show ?case by (cases k) (auto split: if_splits)
qed simp

section \<open>Properties\<close>

definition small_buffer :: Buffer where
  "small_buffer = \<lparr>buffer_v = [0, 0, 0, 0, 0, 0, 0, 0, 104, 105, 13, 10, 0, 0, 0, 0],
     readerIndex = 8, writerIndex = 12\<rparr>"

lemmas buffer_eval = small_buffer_def Buffer_inv_def buf_content_def kCheapPrepend_def
  vector_max_size_def readableBytes_def writableBytes_def prependableBytes_def usub64_def uadd64_def
  peek_def beginWrite_def

text \<open>
  Property C12. Refinement of the buffer to its readable bytes. Take a buffer that satisfies the
  index invariant \<open>0 \<le> readerIndex \<le> writerIndex \<le> size\<close> and a call of \<open>retrieve\<close>, \<open>retrieveUntil\<close>,
  \<open>retrieveAll\<close>, \<open>retrieveAsString\<close>, \<open>retrieveAllAsString\<close>, \<open>append\<close> (of bytes or of a
  \<open>StringPiece\<close>), \<open>ensureWritableBytes\<close>, \<open>hasWritten\<close>, \<open>unwrite\<close>, \<open>prepend\<close>, \<open>shrink\<close> or
  \<open>readFd\<close> whose lengths are sizes of objects (\<open>buf_op_wf\<close>). If it succeeds it keeps the
  invariant, was called within its asserted precondition, changes the readable bytes exactly as
  the abstract operation says and returns the string that says; if it fails, it was called
  outside its precondition, or it throws \<open>length_error\<close> and the bytes it has to make room for
  do not fit into the largest vector behind \<open>writerIndex_\<close>. In particular it accesses no memory
  outside the vector.
\<close>

theorem buffer_ops_refine:
  assumes "Buffer_inv b" and "buf_op_wf op b"
  shows "case exec_buf_op op b of
      Inr (out, b') \<Rightarrow> Buffer_inv b' \<and> buf_op_pre op b \<and> buf_content b' = buf_op_abs op b \<and> out = buf_op_out op b
    | Inl e \<Rightarrow> e = AssertFailed \<and> \<not> buf_op_pre op b \<or> e = LengthError \<and> buf_op_full op b"
  using buf_op_refines_all [OF assms] by (simp add: buf_op_refines_def)

theorem buffer_ops_refine_witness:
  "\<exists>b'. exec_buf_op (OpAppend [1, 2, 3, 4, 5]) small_buffer = Inr ([], b') \<and> Buffer_inv b' \<and>
     buf_content b' = [104, 105, 13, 10, 1, 2, 3, 4, 5]"
proof -
  have "Buffer_inv small_buffer" and "buf_op_wf (OpAppend [1, 2, 3, 4, 5]) small_buffer"
    and c: "buf_content small_buffer = [104, 105, 13, 10]"
    and f: "\<not> buf_op_full (OpAppend [1, 2, 3, 4, 5]) small_buffer"
    by (simp_all add: buffer_eval buf_fits_def)
  from buffer_ops_refine [OF this(1,2)] c f show ?thesis
    by (cases "exec_buf_op (OpAppend [1, 2, 3, 4, 5]) small_buffer") (auto simp del: exec_buf_op.simps)
qed



text \<open>
  Round trip of integers through the prepend space: with 8 bytes of prepend space,
  an integer of each width that is prepended is the next integer read, and reading it leaves
  the buffer's old readable bytes.
\<close>

lemma prependInt_readInt_roundtrip:
  assumes "Buffer_inv b" and "8 \<le> prependableBytes b"
  shows "(\<exists>b1 b2. prependInt64 x b = Inr b1 \<and> peekInt64 b1 = Inr x \<and> retrieveInt64 b1 = Inr b2 \<and>
            buf_content b2 = buf_content b) \<and>
    (\<exists>b1 b2. prependInt32 y b = Inr b1 \<and> readInt32 b1 = Inr (y, b2) \<and> buf_content b2 = buf_content b) \<and>
    (\<exists>b1 b2. prependInt16 z b = Inr b1 \<and> readInt16 b1 = Inr (z, b2) \<and> buf_content b2 = buf_content b) \<and>
    (\<exists>b1 b2. prependInt8 u b = Inr b1 \<and> readInt8 b1 = Inr (u, b2) \<and> buf_content b2 = buf_content b)"
proof -
  have p: "\<exists>b1. prepend d b = Inr b1 \<and> Buffer_inv b1 \<and> buf_content b1 = d @ buf_content b"
    if "length d \<le> 8" for d
    using prepend_spec [OF assms(1)] that assms(2) by auto
  have "\<exists>b1 b2. prependInt64 x b = Inr b1 \<and> peekInt64 b1 = Inr x \<and> retrieveInt64 b1 = Inr b2 \<and>
      buf_content b2 = buf_content b"
    using p [of "rev (le_bytes 8 x)"] peekInt_front(1) retrieve_front
    by (fastforce simp: prependInt64_def network_bytes retrieveInt64_def)
  moreover have "\<exists>b1 b2. prependInt32 y b = Inr b1 \<and> readInt32 b1 = Inr (y, b2) \<and>
      buf_content b2 = buf_content b"
    using p [of "rev (le_bytes 4 y)"] readInt_front(1)
    by (fastforce simp: prependInt32_def network_bytes)
  moreover have "\<exists>b1 b2. prependInt16 z b = Inr b1 \<and> readInt16 b1 = Inr (z, b2) \<and>
      buf_content b2 = buf_content b"
    using p [of "rev (le_bytes 2 z)"] readInt_front(2)
    by (fastforce simp: prependInt16_def network_bytes)
  moreover have "\<exists>b1 b2. prependInt8 u b = Inr b1 \<and> readInt8 b1 = Inr (u, b2) \<and>
      buf_content b2 = buf_content b"
    using p [of "[u]"] readInt_front(3) by (fastforce simp: prependInt8_def)
  ultimately show ?thesis by blast
qed

lemma prependInt_readInt_roundtrip_witness:
  "\<exists>b1 b2. prependInt32 305419896 small_buffer = Inr b1 \<and> readInt32 b1 = Inr (305419896, b2) \<and>
     buf_content b2 = [104, 105, 13, 10]"
proof -
  have "Buffer_inv small_buffer" and "8 \<le> prependableBytes small_buffer"
    and "buf_content small_buffer = [104, 105, 13, 10]"
    by (simp_all add: buffer_eval)
  with prependInt_readInt_roundtrip [of small_buffer 0 305419896 0 0] show ?thesis by simp
qed

text \<open>
  Property C17. Round trip of integers through the stream: an integer of each width that is
  appended is read back once the bytes before it are consumed, and nothing is left.
\<close>

theorem appendInt_readInt_roundtrip:
  assumes "Buffer_inv b" and "buf_fits b 8"
  defines "n \<equiv> length (buf_content b)"
  shows "(\<exists>b1 b2. appendInt64 x b = Inr b1 \<and> retrieve n b1 = Inr b2 \<and> peekInt64 b2 = Inr x) \<and>
    (\<exists>b1 b2 b3. appendInt32 y b = Inr b1 \<and> retrieve n b1 = Inr b2 \<and> readInt32 b2 = Inr (y, b3) \<and>
       buf_content b3 = []) \<and>
    (\<exists>b1 b2 b3. appendInt16 z b = Inr b1 \<and> retrieve n b1 = Inr b2 \<and> readInt16 b2 = Inr (z, b3) \<and>
       buf_content b3 = []) \<and>
    (\<exists>b1 b2 b3. appendInt8 u b = Inr b1 \<and> retrieve n b1 = Inr b2 \<and> readInt8 b2 = Inr (u, b3) \<and>
       buf_content b3 = [])"
proof -
  have p: "\<exists>b1 b2. append_bytes d b = Inr b1 \<and> retrieve n b1 = Inr b2 \<and> Buffer_inv b2 \<and> buf_content b2 = d"
    if "length d \<le> 8" for d
    using net_buf.put_then_get [OF assms(1), of d] that assms(2) by (auto simp: buf_fits_def n_def)
  have "\<exists>b1 b2. appendInt64 x b = Inr b1 \<and> retrieve n b1 = Inr b2 \<and> peekInt64 b2 = Inr x"
    using p [of "rev (le_bytes 8 x)"] peekInt_front(1) [where rest = "[]"]
    by (fastforce simp: appendInt64_def network_bytes)
  moreover have "\<exists>b1 b2 b3. appendInt32 y b = Inr b1 \<and> retrieve n b1 = Inr b2 \<and>
      readInt32 b2 = Inr (y, b3) \<and> buf_content b3 = []"
    using p [of "rev (le_bytes 4 y)"] readInt_front(1) [where rest = "[]"]
    by (fastforce simp: appendInt32_def network_bytes)
  moreover have "\<exists>b1 b2 b3. appendInt16 z b = Inr b1 \<and> retrieve n b1 = Inr b2 \<and>
      readInt16 b2 = Inr (z, b3) \<and> buf_content b3 = []"
    using p [of "rev (le_bytes 2 z)"] readInt_front(2) [where rest = "[]"]
    by (fastforce simp: appendInt16_def network_bytes)
  moreover have "\<exists>b1 b2 b3. appendInt8 u b = Inr b1 \<and> retrieve n b1 = Inr b2 \<and>
      readInt8 b2 = Inr (u, b3) \<and> buf_content b3 = []"
    using p [of "[u]"] readInt_front(3) [where rest = "[]"] by (fastforce simp: appendInt8_def)
  ultimately show ?thesis by blast
qed

theorem appendInt_readInt_roundtrip_witness:
  "\<exists>b1 b2. appendInt64 (- 2) small_buffer = Inr b1 \<and> retrieve 4 b1 = Inr b2 \<and> peekInt64 b2 = Inr (- 2)"
proof -
  have "Buffer_inv small_buffer" and "buf_fits small_buffer 8"
    and "length (buf_content small_buffer) = 4"
    by (simp_all add: buffer_eval buf_fits_def)
  with appendInt_readInt_roundtrip [of small_buffer "- 2"] show ?thesis by simp
qed

text \<open>
  \<open>findCRLF\<close> returns the position of the first carriage return followed by a line
  feed inside the readable bytes, and a null pointer exactly when there is none.
\<close>

lemma findCRLF_first:
  assumes "Buffer_inv b"
  shows "case findCRLF b of
      None \<Rightarrow> \<forall>k. take 2 (drop k (buf_content b)) \<noteq> kCRLF
    | Some p \<Rightarrow> peek b \<le> p \<and> take 2 (drop (p - peek b) (buf_content b)) = kCRLF \<and>
        (\<forall>k < p - peek b. take 2 (drop k (buf_content b)) \<noteq> kCRLF)"
proof -
  let ?xs = "buf_content b" and ?s = "search_list kCRLF (buf_content b)"
  have l: "length ?xs = writerIndex b - readerIndex b" "readerIndex b \<le> writerIndex b"
    using assms by (simp add: length_buf_content readableBytes_inv) (simp add: assms [unfolded Buffer_inv_def])
  have k: "length kCRLF = 2" by (simp add: kCRLF_def)
  have f: "findCRLF b = (if ?s = length ?xs then None else Some (readerIndex b + ?s))"
    using l by (auto simp: findCRLF_def std_search_def peek_def beginWrite_def Let_def
        buf_content_def [symmetric])
  show ?thesis
  proof (cases "?s = length ?xs")
    case True
    have "take 2 (drop k ?xs) \<noteq> kCRLF" for k
      using True search_list_first [of k kCRLF ?xs] k
      by (cases "k < length ?xs") (simp_all, simp add: kCRLF_def)
    with f True show ?thesis by simp
  next
    case False
    then have "?s < length ?xs" using search_list_le [of kCRLF ?xs] by simp
    with f False show ?thesis
      using search_list_found [of kCRLF ?xs] search_list_first [of _ kCRLF ?xs] k
      by (simp add: peek_def)
  qed
qed

lemma findCRLF_first_witness:
  "findCRLF small_buffer = Some 10 \<and> take 2 (drop 2 (buf_content small_buffer)) = kCRLF"
proof -
  have i: "Buffer_inv small_buffer" by (simp add: buffer_eval)
  have "findCRLF small_buffer = Some 10"
    by (simp add: findCRLF_def std_search_def buffer_eval kCRLF_def)
  with findCRLF_first [OF i] show ?thesis by (simp add: peek_def small_buffer_def)
qed

text \<open>
  Property C16. \<open>readFd\<close> delivers exactly what \<open>readv\<close> received: for any number of bytes that fits
  the two scatter buffers it returns that number and appends all of them, in order, whether or
  not they overflowed into \<open>extrabuf\<close>; a failed read returns \<open>-1\<close>, saves \<open>errno\<close> and leaves the
  buffer alone.
\<close>

theorem readFd_delivers:
  assumes "Buffer_inv b" and "length bs \<le> iov_capacity b" and "buf_fits b (length bs)"
  shows "(\<exists>b'. readFd (ReadOk bs) b = Inr (int (length bs), None, b') \<and> Buffer_inv b' \<and>
      buf_content b' = buf_content b @ bs) \<and>
    readFd (ReadErr e) b = Inr (- 1, Some e, b)"
proof -
  have r: "buf_op_refines (OpReadFd (ReadOk bs)) b" using assms(1,2) by (intro readFd_refines) auto
  from readFd_fits [OF assms] r show ?thesis
    by (auto simp: buf_op_refines_def) (simp add: readFd_def)
qed

theorem readFd_delivers_witness:
  "\<exists>b'. readFd (ReadOk [1, 2, 3, 4, 5, 6, 7]) small_buffer = Inr (7, None, b') \<and>
     buf_content b' = [104, 105, 13, 10, 1, 2, 3, 4, 5, 6, 7]"
proof -
  have "Buffer_inv small_buffer" "length [1, 2, 3, 4, 5, 6, 7 :: byte] \<le> iov_capacity small_buffer"
    "buf_fits small_buffer (length [1, 2, 3, 4, 5, 6, 7 :: byte])"
    and c: "buf_content small_buffer = [104, 105, 13, 10]"
    by (simp_all add: buffer_eval buf_fits_def iov_capacity_def extrabuf_size_def)
  from readFd_delivers [OF this(1-3)] show ?thesis by (auto simp: c)
qed

text \<open>
  \<open>ensureWritableBytes\<close> does not survive a length near \<open>2 ^ 64\<close>: the sum
  \<open>writerIndex_ + len\<close> wraps around, the vector is resized to a smaller size, and the final
  \<open>assert(writableBytes() >= len)\<close> holds because its subtraction wraps as well. On a buffer with
  four readable bytes the call succeeds and leaves \<open>writerIndex_\<close> behind the end of the vector.
\<close>

lemma ensureWritableBytes_wraps:
  "\<exists>b'. ensureWritableBytes (2 ^ 64 - 10) small_buffer = Inr b' \<and>
     length (buffer_v b') < writerIndex b' \<and> \<not> Buffer_inv b'"
  by (simp add: ensureWritableBytes_def makeSpace_def vector_resize_def buffer_eval c_assert_def)

end
