(* ===== verification/NW_TcpConnection.thy ===== *)
theory NW_TcpConnection
  imports NW_Buffer NW_Channel
begin

text \<open>
  \<^verbatim>\<open>networker/net/TcpConnection.h\<close> and \<^verbatim>\<open>TcpConnection.cpp\<close>: the life of one connection.

  The record holds the fields of the class. The kernel's answers are arguments
  (\<open>read_result\<close> for \<open>readv\<close>, \<open>write_result\<close> for \<open>write\<close>). The user's callbacks are the parameter
  \<open>user\<close>: the calls (\<open>ucmd\<close>) the callback for an event makes on the connection it is given, run at
  once in the loop thread as the code does. What the connection does to the outside is the trace \<open>fx\<close>
  (callbacks run or queued, channel updates for the poller, \<open>shutdown(2)\<close>). \<open>wire\<close>,
  \<open>accepted\<close>, \<open>received\<close> and \<open>consumed\<close> are history: the bytes the kernel took, the bytes
  \<open>sendInLoop\<close> took responsibility for, and the same for input.

  The invariant \<open>tcp_inv\<close> says that no byte is lost, duplicated or reordered in either
  direction, that the channel waits for writability exactly while output is pending, and that
  callbacks and channel updates follow the life cycle.
\<close>

section \<open>State\<close>

datatype StateE = kDisconnected | kConnecting | kConnected | kDisconnecting

datatype conn_fx =
    FxUp | FxDown | FxMessage | FxClose | FxQueueWriteComplete | FxQueueHighWater nat
  | FxQueueForceClose | FxDelayForceClose | FxQueueStartRead | FxQueueSend "byte list" | FxShutdownWrite | FxUpdate "32 word" | FxRemove

record TcpConnection =
  state :: StateE
  reading :: bool
  channel :: Channel
  inputBuffer :: Buffer
  outputBuffer :: Buffer
  highWaterMark :: nat
  writeCompleteCallback :: bool
  highWaterMarkCallback :: bool
  fx :: "conn_fx list"
  wire :: "byte list"
  accepted :: "byte list"
  received :: "byte list"
  consumed :: "byte list"

definition TcpConnection_ctor :: "int \<Rightarrow> TcpConnection result" where
  "TcpConnection_ctor sockfd =
     rbind (Buffer_ctor kInitialSize) (\<lambda>inb. rbind (Buffer_ctor kInitialSize) (\<lambda>outb.
       Inr \<lparr>state = kConnecting, reading = True, channel = Channel_ctor sockfd, inputBuffer = inb,
            outputBuffer = outb, highWaterMark = 64 * 1024 * 1024, writeCompleteCallback = False,
            highWaterMarkCallback = False, fx = [], wire = [], accepted = [], received = [], consumed = []\<rparr>))"

definition TcpConnection_dtor :: "TcpConnection \<Rightarrow> unit result" where
  "TcpConnection_dtor s = c_assert (state s = kDisconnected) (Inr ())"

definition setState :: "StateE \<Rightarrow> TcpConnection \<Rightarrow> TcpConnection" where
  "setState st s = s\<lparr>state := st\<rparr>"

definition emit :: "conn_fx \<Rightarrow> TcpConnection \<Rightarrow> TcpConnection" where
  "emit e s = s\<lparr>fx := fx s @ [e]\<rparr>"

text \<open>A mask change of the channel and its \<open>update()\<close>.\<close>

definition on_channel :: "(Channel \<Rightarrow> Channel) \<Rightarrow> TcpConnection \<Rightarrow> TcpConnection" where
  "on_channel f s = emit (FxUpdate (events (f (channel s)))) (s\<lparr>channel := f (channel s)\<rparr>)"

definition setWriteCompleteCallback :: "TcpConnection \<Rightarrow> TcpConnection" where
  "setWriteCompleteCallback s = s\<lparr>writeCompleteCallback := True\<rparr>"

definition setHighWaterMarkCallback :: "nat \<Rightarrow> TcpConnection \<Rightarrow> TcpConnection" where
  "setHighWaterMarkCallback m s = s\<lparr>highWaterMarkCallback := True, highWaterMark := m\<rparr>"

section \<open>Sending\<close>

text \<open>\<open>write(2)\<close>: an \<open>errno\<close>, or the number of bytes taken, which is at most the number offered.\<close>

datatype write_result = WriteErr int | WriteOk nat

fun write_fits :: "write_result \<Rightarrow> nat \<Rightarrow> bool" where
  "write_fits (WriteOk n) len = (n \<le> len)"
| "write_fits (WriteErr e) len = True"

definition EWOULDBLOCK :: int where "EWOULDBLOCK = 11"

definition EPIPE :: int where "EPIPE = 32"

definition ECONNRESET :: int where "ECONNRESET = 104"

text \<open>The direct write of \<open>sendInLoop\<close>: \<open>nwrote\<close>, \<open>faultError\<close> and the state.\<close>

definition send_direct :: "byte list \<Rightarrow> write_result \<Rightarrow> TcpConnection \<Rightarrow> nat \<times> bool \<times> TcpConnection" where
  "send_direct data wr s =
     (if \<not> isWriting (channel s) \<and> readableBytes (outputBuffer s) = 0
      then (case wr of
              WriteOk nwrote \<Rightarrow>
                (let s1 = s\<lparr>wire := wire s @ take nwrote data\<rparr>
                 in (nwrote, False,
                     if length data - nwrote = 0 \<and> writeCompleteCallback s then emit FxQueueWriteComplete s1 else s1))
            | WriteErr e \<Rightarrow> (0, e \<noteq> EWOULDBLOCK \<and> (e = EPIPE \<or> e = ECONNRESET), s))
      else (0, False, s))"

definition sendInLoop :: "byte list \<Rightarrow> write_result \<Rightarrow> TcpConnection \<Rightarrow> TcpConnection result" where
  "sendInLoop data wr s =
     (if state s = kDisconnected then Inr s
      else case send_direct data wr s of (nwrote, faultError, s1) \<Rightarrow>
        let remaining = length data - nwrote in
        c_assert (remaining \<le> length data) (
          if \<not> faultError \<and> remaining > 0
          then let oldLen = readableBytes (outputBuffer s1);
                   s2 = (if highWaterMark s1 \<le> uadd64 oldLen remaining \<and> oldLen < highWaterMark s1 \<and>
                            highWaterMarkCallback s1
                         then emit (FxQueueHighWater (uadd64 oldLen remaining)) s1 else s1)
               in rbind (append_bytes (drop nwrote data) (outputBuffer s2)) (\<lambda>b.
                    let s3 = s2\<lparr>outputBuffer := b, accepted := accepted s2 @ data\<rparr>
                    in Inr (if \<not> isWriting (channel s3) then on_channel enableWriting s3 else s3))
          else Inr (if faultError then s1 else s1\<lparr>accepted := accepted s1 @ data\<rparr>)))"

definition sendInLoop_piece :: "StringPiece \<Rightarrow> write_result \<Rightarrow> TcpConnection \<Rightarrow> TcpConnection result" where
  "sendInLoop_piece message wr s =
     (if length (ptr message) < to_size_t (plen message) then Inl OutOfBounds
      else sendInLoop (take (to_size_t (plen message)) (ptr message)) wr s)"

text \<open>
  \<open>send(const StringPiece&)\<close>: in the loop thread the message is written at once; in another
  thread a copy is bound to a functor, and the functor converts it back to a \<open>StringPiece\<close>.
\<close>

definition send_piece :: "bool \<Rightarrow> StringPiece \<Rightarrow> write_result \<Rightarrow> TcpConnection \<Rightarrow> TcpConnection result" where
  "send_piece isInLoopThread message wr s =
     (if state s = kConnected
      then (if isInLoopThread then sendInLoop_piece message wr s
            else rbind (sp_as_string message) (\<lambda>str. Inr (emit (FxQueueSend str) s)))
      else Inr s)"

definition send_mem :: "bool \<Rightarrow> byte list \<Rightarrow> int \<Rightarrow> write_result \<Rightarrow> TcpConnection \<Rightarrow> TcpConnection result" where
  "send_mem isInLoopThread data len wr s = send_piece isInLoopThread (sp_of_mem data len) wr s"

definition send_buffer ::
    "bool \<Rightarrow> Buffer \<Rightarrow> write_result \<Rightarrow> TcpConnection \<Rightarrow> (Buffer \<times> TcpConnection) result" where
  "send_buffer isInLoopThread buf wr s =
     (if state s = kConnected
      then (if isInLoopThread
            then rbind (read_at (peek buf) (readableBytes buf) buf) (\<lambda>data.
                 rbind (sendInLoop data wr s) (\<lambda>s'. Inr (retrieveAll buf, s')))
            else rbind (retrieveAllAsString buf) (\<lambda>(str, buf'). Inr (buf', emit (FxQueueSend str) s)))
      else Inr (buf, s))"

text \<open>The functor of a cross-thread \<open>send\<close>: the bound \<open>string\<close> becomes a \<open>StringPiece\<close> again.\<close>

definition run_queued_send :: "byte list \<Rightarrow> write_result \<Rightarrow> TcpConnection \<Rightarrow> TcpConnection result" where
  "run_queued_send str wr s = rbind (sp_of_string str) (\<lambda>p. sendInLoop_piece p wr s)"

section \<open>Closing\<close>

definition shutdownInLoop :: "TcpConnection \<Rightarrow> TcpConnection" where
  "shutdownInLoop s = (if \<not> isWriting (channel s) then emit FxShutdownWrite s else s)"

text \<open>\<open>shutdown()\<close> in the loop thread; in another thread the functor runs \<open>shutdownInLoop\<close> later.\<close>

definition tcp_shutdown :: "bool \<Rightarrow> TcpConnection \<Rightarrow> TcpConnection" where
  "tcp_shutdown isInLoopThread s =
     (if state s = kConnected
      then (let s1 = setState kDisconnecting s in if isInLoopThread then shutdownInLoop s1 else s1)
      else s)"

definition forceClose :: "TcpConnection \<Rightarrow> TcpConnection" where
  "forceClose s =
     (if state s = kConnected \<or> state s = kDisconnecting
      then emit FxQueueForceClose (setState kDisconnecting s) else s)"

text \<open>\<open>forceCloseWithDelay\<close> leaves the close to a timer that holds the connection weakly.\<close>

definition forceCloseWithDelay :: "TcpConnection \<Rightarrow> TcpConnection" where
  "forceCloseWithDelay s =
     (if state s = kConnected \<or> state s = kDisconnecting
      then emit FxDelayForceClose (setState kDisconnecting s) else s)"

text \<open>
  A \<open>WeakCallback\<close> calls its function if its object is still alive (\<open>alive\<close> is the outcome of \<open>lock()\<close>);
  the timer of \<open>forceCloseWithDelay\<close> is one for \<open>forceClose\<close>.
\<close>

definition weak_call :: "bool \<Rightarrow> ('a \<Rightarrow> 'a) \<Rightarrow> 'a \<Rightarrow> 'a" where
  "weak_call alive f s = (if alive then f s else s)"

definition delayed_forceClose :: "bool \<Rightarrow> TcpConnection \<Rightarrow> TcpConnection" where
  "delayed_forceClose alive s = weak_call alive forceClose s"

definition stateToString :: "TcpConnection \<Rightarrow> string" where
  "stateToString s =
     (case state s of kDisconnected \<Rightarrow> ''kDisconnected'' | kConnecting \<Rightarrow> ''kConnecting''
      | kConnected \<Rightarrow> ''kConnected'' | kDisconnecting \<Rightarrow> ''kDisconnecting'')"

definition tcp_connected :: "TcpConnection \<Rightarrow> bool" where
  "tcp_connected s \<longleftrightarrow> state s = kConnected"

definition tcp_disconnected :: "TcpConnection \<Rightarrow> bool" where
  "tcp_disconnected s \<longleftrightarrow> state s = kDisconnected"

definition defaultMessageCallback :: "Buffer \<Rightarrow> Buffer" where
  "defaultMessageCallback buf = retrieveAll buf"

definition startReadInLoop :: "TcpConnection \<Rightarrow> TcpConnection" where
  "startReadInLoop s =
     (if \<not> reading s \<or> \<not> isReading (channel s)
      then (on_channel enableReading s)\<lparr>reading := True\<rparr> else s)"

definition startRead :: "bool \<Rightarrow> TcpConnection \<Rightarrow> TcpConnection" where
  "startRead isInLoopThread s = (if isInLoopThread then startReadInLoop s else emit FxQueueStartRead s)"

section \<open>Callbacks and handlers\<close>

datatype conn_event = UpEv | DownEv | MessageEv

datatype ucmd = USend "byte list" write_result | UShutdown | UForceClose | UStartRead | UConsume nat

type_synonym user = "conn_event \<Rightarrow> TcpConnection \<Rightarrow> ucmd list"

fun exec_ucmd :: "ucmd \<Rightarrow> TcpConnection \<Rightarrow> TcpConnection result" where
  "exec_ucmd (USend data wr) s = (if state s = kConnected then sendInLoop data wr s else Inr s)"
| "exec_ucmd UShutdown s = Inr (tcp_shutdown True s)"
| "exec_ucmd UForceClose s = Inr (forceClose s)"
| "exec_ucmd UStartRead s = Inr (startReadInLoop s)"
| "exec_ucmd (UConsume n) s =
     (let k = min n (readableBytes (inputBuffer s)) in
      rbind (retrieveAsString k (inputBuffer s)) (\<lambda>(str, b).
        Inr (s\<lparr>inputBuffer := b, consumed := consumed s @ str\<rparr>)))"

definition ev_fx :: "conn_event \<Rightarrow> conn_fx" where
  "ev_fx ev = (case ev of UpEv \<Rightarrow> FxUp | DownEv \<Rightarrow> FxDown | MessageEv \<Rightarrow> FxMessage)"

text \<open>The callback sees the connection, its input buffer above all, and decides what to call.\<close>

definition run_callback :: "user \<Rightarrow> conn_event \<Rightarrow> TcpConnection \<Rightarrow> TcpConnection result" where
  "run_callback user ev s = (let s1 = emit (ev_fx ev) s in rfold exec_ucmd (user ev s1) s1)"

definition tcp_handleClose :: "user \<Rightarrow> TcpConnection \<Rightarrow> TcpConnection result" where
  "tcp_handleClose user s =
     c_assert (state s = kConnected \<or> state s = kDisconnecting) (
       rbind (run_callback user DownEv (on_channel disableAll (setState kDisconnected s)))
         (\<lambda>s1. Inr (emit FxClose s1)))"

definition tcp_handleError :: "TcpConnection \<Rightarrow> TcpConnection" where
  "tcp_handleError s = s"

definition tcp_handleRead :: "user \<Rightarrow> read_result \<Rightarrow> TcpConnection \<Rightarrow> TcpConnection result" where
  "tcp_handleRead user rr s =
     rbind (readFd rr (inputBuffer s)) (\<lambda>(n, err, b).
       let s1 = s\<lparr>inputBuffer := b, received := received s @ (case rr of ReadOk bs \<Rightarrow> bs | ReadErr e \<Rightarrow> [])\<rparr>
       in if n > 0 then run_callback user MessageEv s1
          else if n = 0 then tcp_handleClose user s1
          else Inr (tcp_handleError s1))"

definition tcp_handleWrite :: "write_result \<Rightarrow> TcpConnection \<Rightarrow> TcpConnection result" where
  "tcp_handleWrite wr s =
     (if isWriting (channel s)
      then (case wr of
              WriteOk n \<Rightarrow>
                if n > 0
                then rbind (read_at (peek (outputBuffer s)) n (outputBuffer s)) (\<lambda>sent.
                     rbind (retrieve n (outputBuffer s)) (\<lambda>b.
                       let s1 = s\<lparr>outputBuffer := b, wire := wire s @ sent\<rparr> in
                       if readableBytes b = 0
                       then let s2 = on_channel disableWriting s1;
                                s3 = (if writeCompleteCallback s2 then emit FxQueueWriteComplete s2 else s2)
                            in Inr (if state s3 = kDisconnecting then shutdownInLoop s3 else s3)
                       else Inr s1))
                else Inr s
            | WriteErr e \<Rightarrow> Inr s)
      else Inr s)"

definition forceCloseInLoop :: "user \<Rightarrow> TcpConnection \<Rightarrow> TcpConnection result" where
  "forceCloseInLoop user s =
     (if state s = kConnected \<or> state s = kDisconnecting then tcp_handleClose user s else Inr s)"

definition connectEstablished :: "user \<Rightarrow> TcpConnection \<Rightarrow> TcpConnection result" where
  "connectEstablished user s =
     c_assert (state s = kConnecting) (
       let s1 = setState kConnected s; s2 = s1\<lparr>channel := Channel_tie (channel s1)\<rparr>
       in run_callback user UpEv (on_channel enableReading s2))"

definition connectDestroyed :: "user \<Rightarrow> TcpConnection \<Rightarrow> TcpConnection result" where
  "connectDestroyed user s =
     rbind (if state s = kConnected
            then run_callback user DownEv (on_channel disableAll (setState kDisconnected s))
            else Inr s)
       (\<lambda>s1. rbind (Channel_remove (channel s1)) (\<lambda>ch. Inr (emit FxRemove (s1\<lparr>channel := ch\<rparr>))))"

text \<open>
  The callbacks the constructor installs in the channel, and a whole dispatch. \<open>rd\<close> and \<open>wt\<close>
  are the kernel's answers to \<open>readv\<close> and \<open>write\<close>, given the number of bytes offered.
\<close>

fun tcp_invoke ::
    "user \<Rightarrow> (nat \<Rightarrow> read_result) \<Rightarrow> (nat \<Rightarrow> write_result) \<Rightarrow> chan_cb \<Rightarrow> TcpConnection \<Rightarrow> TcpConnection result" where
  "tcp_invoke user rd wt ReadCallback s = tcp_handleRead user (rd (iov_capacity (inputBuffer s))) s"
| "tcp_invoke user rd wt WriteCallback s = tcp_handleWrite (wt (readableBytes (outputBuffer s))) s"
| "tcp_invoke user rd wt CloseCallback s = tcp_handleClose user s"
| "tcp_invoke user rd wt ErrorCallback s = Inr (tcp_handleError s)"

definition tcp_handleEvent ::
    "user \<Rightarrow> 32 word \<Rightarrow> (nat \<Rightarrow> read_result) \<Rightarrow> (nat \<Rightarrow> write_result) \<Rightarrow> TcpConnection \<Rightarrow> TcpConnection result" where
  "tcp_handleEvent user rv rd wt s =
     handleEvent True channel (\<lambda>f s. s\<lparr>channel := f (channel s)\<rparr>) (\<lambda>cb. True) (tcp_invoke user rd wt)
       (s\<lparr>channel := set_revents rv (channel s)\<rparr>)"

section \<open>Invariant\<close>

definition fx_mask :: "conn_fx \<Rightarrow> 32 word option" where
  "fx_mask e = (case e of FxUpdate ev \<Rightarrow> Some ev | _ \<Rightarrow> None)"

definition masks :: "TcpConnection \<Rightarrow> 32 word list" where
  "masks s = List.map_filter fx_mask (fx s)"

definition active :: "TcpConnection \<Rightarrow> bool" where
  "active s \<longleftrightarrow> state s = kConnected \<or> state s = kDisconnecting"

text \<open>The bytes: buffers are sound and nothing is lost, duplicated or reordered.\<close>

definition tcp_data :: "TcpConnection \<Rightarrow> bool" where
  "tcp_data s \<longleftrightarrow> Buffer_inv (inputBuffer s) \<and> Buffer_inv (outputBuffer s) \<and>
     wire s @ buf_content (outputBuffer s) = accepted s \<and>
     consumed s @ buf_content (inputBuffer s) = received s"

text \<open>The channel: what it waits for, and the updates it sent to the poller.\<close>

definition tcp_chan :: "TcpConnection \<Rightarrow> bool" where
  "tcp_chan s \<longleftrightarrow>
     (active s \<longrightarrow> (isWriting (channel s) \<longleftrightarrow> buf_content (outputBuffer s) \<noteq> []) \<and> isReading (channel s) \<and>
        masks s \<noteq> [] \<and> 0 \<notin> set (masks s) \<and> last (masks s) = events (channel s)) \<and>
     (state s = kConnecting \<longrightarrow> buf_content (outputBuffer s) = [] \<and> fx s = [] \<and> events (channel s) = 0) \<and>
     (state s = kDisconnected \<longrightarrow> events (channel s) = 0 \<and>
        (\<exists>ms. masks s = ms @ [0] \<and> ms \<noteq> [] \<and> 0 \<notin> set ms))"

text \<open>The callbacks: up once, down once, close at most once and only after down.\<close>

definition tcp_calls :: "TcpConnection \<Rightarrow> bool" where
  "tcp_calls s \<longleftrightarrow> count_list (fx s) FxUp = (if state s = kConnecting then 0 else 1) \<and>
     count_list (fx s) FxDown = (if state s = kDisconnected then 1 else 0) \<and>
     count_list (fx s) FxClose \<le> count_list (fx s) FxDown"

definition tcp_inv :: "TcpConnection \<Rightarrow> bool" where
  "tcp_inv s \<longleftrightarrow> tcp_data s \<and> tcp_chan s \<and> tcp_calls s"

text \<open>What the user's code and the kernel owe the connection.\<close>

fun ucmd_ok :: "ucmd \<Rightarrow> bool" where
  "ucmd_ok (USend data wr) = (write_fits wr (length data) \<and> length data \<le> vector_max_size)"
| "ucmd_ok c = True"

definition user_ok :: "user \<Rightarrow> bool" where
  "user_ok user \<longleftrightarrow> (\<forall>ev s. tcp_inv s \<longrightarrow> (\<forall>c \<in> set (user ev s). ucmd_ok c \<and> (ev = DownEv \<longrightarrow> c \<noteq> UStartRead)))"

definition kernel_ok :: "(nat \<Rightarrow> read_result) \<Rightarrow> (nat \<Rightarrow> write_result) \<Rightarrow> bool" where
  "kernel_ok rd wt \<longleftrightarrow> (\<forall>cap bs. rd cap = ReadOk bs \<longrightarrow> length bs \<le> cap) \<and> (\<forall>len. write_fits (wt len) len)"

text \<open>The only exception the connection can raise is that of a buffer that cannot grow.\<close>

definition ok_or_len :: "'a result \<Rightarrow> ('a \<Rightarrow> bool) \<Rightarrow> bool" where
  "ok_or_len r P \<longleftrightarrow> (case r of Inl e \<Rightarrow> e = LengthError | Inr x \<Rightarrow> P x)"

lemma ok_or_len_Inr [simp]: "ok_or_len (Inr x) P = P x"
  by (simp add: ok_or_len_def)

lemma ok_or_len_bind:
  assumes "ok_or_len r P" and "\<And>x. P x \<Longrightarrow> ok_or_len (f x) Q"
  shows "ok_or_len (rbind r f) Q"
proof (cases r)
  case (Inl e)
  with assms(1) show ?thesis by (simp add: ok_or_len_def)
qed (use assms in simp)

lemma ok_or_len_mono: "ok_or_len r P \<Longrightarrow> (\<And>x. P x \<Longrightarrow> Q x) \<Longrightarrow> ok_or_len r Q"
  by (auto simp: ok_or_len_def split: sum.splits)

lemma ok_or_len_rfold:
  assumes "\<And>x s. x \<in> set xs \<Longrightarrow> P s \<Longrightarrow> ok_or_len (f x s) P" and "P s"
  shows "ok_or_len (rfold f xs s) P"
  using assms
proof (induction xs arbitrary: s)
  case (Cons x xs)
  have "ok_or_len (rfold f xs t) P" if "P t" for t
    using Cons.IH [OF _ that] Cons.prems(1) by auto
  with Cons.prems show ?case by (auto intro: ok_or_len_bind)
qed simp

section \<open>Lemmas on the trace and the channel\<close>

lemma masks_emit [simp]:
  "masks (emit e s) = masks s @ (case fx_mask e of None \<Rightarrow> [] | Some ev \<Rightarrow> [ev])"
  by (simp add: masks_def emit_def map_filter_def fx_mask_def split: conn_fx.splits)

lemma fx_mask_simps [simp]:
  "fx_mask (FxUpdate ev) = Some ev" "fx_mask FxUp = None" "fx_mask FxDown = None" "fx_mask FxMessage = None"
  "fx_mask FxClose = None" "fx_mask FxQueueWriteComplete = None" "fx_mask (FxQueueHighWater n) = None"
  "fx_mask FxQueueForceClose = None" "fx_mask (FxQueueSend d) = None" "fx_mask FxShutdownWrite = None"
  "fx_mask FxRemove = None" "fx_mask FxDelayForceClose = None" "fx_mask FxQueueStartRead = None"
  by (simp_all add: fx_mask_def)

lemma masks_update [simp]:
  "masks (s\<lparr>state := a\<rparr>) = masks s" "masks (s\<lparr>reading := b\<rparr>) = masks s" "masks (s\<lparr>channel := c\<rparr>) = masks s"
  "masks (s\<lparr>inputBuffer := d\<rparr>) = masks s" "masks (s\<lparr>outputBuffer := d\<rparr>) = masks s"
  "masks (s\<lparr>wire := w\<rparr>) = masks s" "masks (s\<lparr>accepted := w\<rparr>) = masks s"
  "masks (s\<lparr>received := w\<rparr>) = masks s" "masks (s\<lparr>consumed := w\<rparr>) = masks s"
  by (simp_all add: masks_def)

text \<open>Effects that the invariant does not count.\<close>

definition quiet_fx :: "conn_fx \<Rightarrow> bool" where
  "quiet_fx e \<longleftrightarrow> e \<noteq> FxUp \<and> e \<noteq> FxDown \<and> e \<noteq> FxClose \<and> fx_mask e = None"

lemma tcp_inv_emit: "quiet_fx e \<Longrightarrow> state s \<noteq> kConnecting \<Longrightarrow> tcp_inv s \<Longrightarrow> tcp_inv (emit e s)"
  unfolding tcp_inv_def tcp_data_def tcp_chan_def tcp_calls_def quiet_fx_def active_def
  by (auto simp: emit_def masks_def map_filter_def)

lemma reading_nonzero: "isReading ch \<Longrightarrow> events ch \<noteq> 0"
  by (auto simp: isReading_bit)

lemma enable_keeps:
  "isReading (enableWriting ch) = isReading ch" "isWriting (enableWriting ch)"
  "isReading (disableWriting ch) = isReading ch" "\<not> isWriting (disableWriting ch)"
  "isReading (enableReading ch)" "isWriting (enableReading ch) = isWriting ch"
  by (auto simp: isReading_bit isWriting_bit bit_channel_ops)

lemma disableAll_zero [simp]: "events (disableAll ch) = 0"
  by (simp add: disableAll_def Channel_set_events_def kNoneEvent_def)

lemma on_channel_sel [simp]:
  "state (on_channel f s) = state s" "channel (on_channel f s) = f (channel s)"
  "masks (on_channel f s) = masks s @ [events (f (channel s))]" "outputBuffer (on_channel f s) = outputBuffer s"
  "inputBuffer (on_channel f s) = inputBuffer s" "wire (on_channel f s) = wire s"
  "accepted (on_channel f s) = accepted s" "received (on_channel f s) = received s"
  "consumed (on_channel f s) = consumed s" "fx (on_channel f s) = fx s @ [FxUpdate (events (f (channel s)))]"
  by (simp_all add: on_channel_def) (simp_all add: emit_def)

lemma emit_sel [simp]:
  "state (emit e s) = state s" "channel (emit e s) = channel s" "outputBuffer (emit e s) = outputBuffer s"
  "inputBuffer (emit e s) = inputBuffer s" "wire (emit e s) = wire s" "accepted (emit e s) = accepted s"
  "received (emit e s) = received s" "consumed (emit e s) = consumed s" "fx (emit e s) = fx s @ [e]"
  "reading (emit e s) = reading s"
  by (simp_all add: emit_def)

text \<open>What the channel part of the invariant says of an active connection.\<close>

lemma tcp_chan_active:
  "active s \<Longrightarrow> tcp_chan s \<longleftrightarrow> (isWriting (channel s) \<longleftrightarrow> buf_content (outputBuffer s) \<noteq> []) \<and> isReading (channel s) \<and>
     masks s \<noteq> [] \<and> 0 \<notin> set (masks s) \<and> last (masks s) = events (channel s)"
  by (auto simp: tcp_chan_def active_def)

lemma tcp_chan_disconnected:
  "state s = kDisconnected \<Longrightarrow> tcp_chan s \<longleftrightarrow> events (channel s) = 0 \<and>
     (\<exists>ms. masks s = ms @ [0] \<and> ms \<noteq> [] \<and> 0 \<notin> set ms)"
  by (simp add: tcp_chan_def active_def)

lemmas tcp_inv_defs = tcp_inv_def tcp_data_def tcp_chan_def tcp_calls_def active_def

section \<open>Sending keeps the invariant\<close>

text \<open>The tail of \<open>sendInLoop\<close>: \<open>pre\<close> is on the wire, \<open>rest\<close> goes to the output buffer.\<close>

lemma send_rest:
  assumes inv: "tcp_inv s" "active s" and rest: "rest \<noteq> []" "length rest \<le> vector_max_size"
    and pre: "pre = [] \<or> buf_content (outputBuffer s) = []" and app: "append_bytes rest (outputBuffer s) = Inr b"
  defines "s3 \<equiv> s\<lparr>wire := wire s @ pre, outputBuffer := b, accepted := accepted s @ pre @ rest\<rparr>"
  shows "tcp_inv (if \<not> isWriting (channel s3) then on_channel enableWriting s3 else s3)"
proof -
  have out: "Buffer_inv (outputBuffer s)" using inv(1) by (simp add: tcp_inv_def tcp_data_def)
  from net_buf.put_sound [OF out rest(2) app] have b: "Buffer_inv b" "buf_content b = buf_content (outputBuffer s) @ rest"
    by simp_all
  then have data: "tcp_data s3"
    using inv(1) pre by (auto simp: s3_def tcp_inv_def tcp_data_def)
  have ne: "buf_content b \<noteq> []" using b(2) rest(1) by simp
  have act: "active s3" using inv(2) by (simp add: s3_def active_def)
  have c: "tcp_chan s" "tcp_calls s" using inv(1) by (simp_all add: tcp_inv_def)
  show ?thesis
  proof (cases "isWriting (channel s)")
    case True
    have "tcp_chan s3"
      using c(1) act ne True unfolding tcp_chan_active [OF inv(2)] tcp_chan_active [OF act] by (simp add: s3_def)
    moreover have "tcp_calls s3" using c(2) by (simp add: s3_def tcp_calls_def)
    ultimately show ?thesis using data True by (simp add: tcp_inv_def) (simp add: s3_def)
  next
    case False
    have "active (on_channel enableWriting s3)" using act by (simp add: active_def)
    then have "tcp_chan (on_channel enableWriting s3)"
      using c(1) ne enable_keeps reading_nonzero [of "enableWriting (channel s)"]
      unfolding tcp_chan_active [OF inv(2)] by (simp add: tcp_chan_active) (simp add: s3_def)
    moreover have "tcp_data (on_channel enableWriting s3)"
      using data by (simp add: tcp_data_def)
    moreover have "tcp_calls (on_channel enableWriting s3)"
      using c(2) by (simp add: s3_def tcp_calls_def)
    ultimately show ?thesis using False by (simp add: tcp_inv_def) (simp add: s3_def)
  qed
qed

lemma append_only_length:
  "Buffer_inv b \<Longrightarrow> length xs \<le> vector_max_size \<Longrightarrow> append_bytes xs b = Inl e \<Longrightarrow> e = LengthError"
  using append_refines [of b xs] by (simp add: buf_op_refines_def)

lemma send_direct_cases:
  assumes "write_fits wr (length data)" and "send_direct data wr s = (n, fault, s1)"
  shows "fault \<and> s1 = s \<or> \<not> fault \<and> n \<le> length data \<and> (n = 0 \<or> readableBytes (outputBuffer s) = 0) \<and>
    (s1 = s\<lparr>wire := wire s @ take n data\<rparr> \<or>
     n = length data \<and> s1 = emit FxQueueWriteComplete (s\<lparr>wire := wire s @ take n data\<rparr>))"
  using assms by (cases wr) (auto simp: send_direct_def Let_def split: if_splits)

text \<open>All of it went out at once: the wire and the history grow together.\<close>

lemma send_all:
  assumes "tcp_inv s" "active s" "data = [] \<or> buf_content (outputBuffer s) = []"
  shows "tcp_inv (s\<lparr>wire := wire s @ data, accepted := accepted s @ data\<rparr>)"
  using assms by (auto simp: tcp_inv_defs)

lemma sendInLoop_ok:
  assumes inv: "tcp_inv s" "state s \<noteq> kConnecting"
    and data: "write_fits wr (length data)" "length data \<le> vector_max_size"
  shows "ok_or_len (sendInLoop data wr s) (\<lambda>s'. tcp_inv s' \<and> state s' = state s \<and>
    (accepted s' = accepted s \<or> accepted s' = accepted s @ data))"
proof (cases "state s = kDisconnected")
  case False
  with inv(2) have act: "active s" by (cases "state s") (simp_all add: active_def)
  have out: "Buffer_inv (outputBuffer s)" using inv(1) by (simp add: tcp_inv_def tcp_data_def)
  obtain n fault s1 where d: "send_direct data wr s = (n, fault, s1)" by (metis prod_cases3)
  note cases = send_direct_cases [OF data(1) d]
  have none: "take n data = [] \<or> buf_content (outputBuffer s) = []" if "\<not> fault"
    using cases that out by (auto simp: buf_content_Nil_iff)
  consider "fault" | "\<not> fault" "n = length data" | "\<not> fault" "n < length data"
      "s1 = s\<lparr>wire := wire s @ take n data\<rparr>"
    using cases by fastforce
  then show ?thesis
  proof cases
    case 1
    with cases have "s1 = s" by auto
    with 1 inv d False show ?thesis by (simp add: sendInLoop_def)
  next
    case 2
    have "tcp_inv (s\<lparr>wire := wire s @ data, accepted := accepted s @ data\<rparr>)"
      using none [OF 2(1)] 2(2) inv(1) act by (intro send_all) auto
    then have inv': "tcp_inv (emit FxQueueWriteComplete (s\<lparr>wire := wire s @ data, accepted := accepted s @ data\<rparr>))"
      using inv(2) by (intro tcp_inv_emit) (simp_all add: quiet_fx_def)
    have "s1 = s\<lparr>wire := wire s @ data\<rparr> \<or> s1 = emit FxQueueWriteComplete (s\<lparr>wire := wire s @ data\<rparr>)"
      using cases 2 by auto
    then have "s1\<lparr>accepted := accepted s1 @ data\<rparr> = s\<lparr>wire := wire s @ data, accepted := accepted s @ data\<rparr> \<or>
      s1\<lparr>accepted := accepted s1 @ data\<rparr> = emit FxQueueWriteComplete (s\<lparr>wire := wire s @ data, accepted := accepted s @ data\<rparr>)"
      by (cases s) (auto simp: emit_def)
    moreover have "sendInLoop data wr s = Inr (s1\<lparr>accepted := accepted s1 @ data\<rparr>)"
      using 2 d False by (simp add: sendInLoop_def)
    ultimately show ?thesis using inv' \<open>tcp_inv (s\<lparr>wire := _, accepted := _\<rparr>)\<close> by (elim disjE) simp_all
  next
    case 3
    define hw where "hw \<longleftrightarrow> highWaterMark s1 \<le> uadd64 (readableBytes (outputBuffer s1)) (length data - n) \<and>
      readableBytes (outputBuffer s1) < highWaterMark s1 \<and> highWaterMarkCallback s1"
    define s0 where "s0 = (if hw then emit (FxQueueHighWater (uadd64 (readableBytes (outputBuffer s1)) (length data - n))) s else s)"
    have s0: "tcp_inv s0" "active s0" "outputBuffer s0 = outputBuffer s" "state s0 = state s" "accepted s0 = accepted s"
      using inv act tcp_inv_emit by (auto simp: s0_def active_def quiet_fx_def)
    let ?s3 = "\<lambda>b. s0\<lparr>wire := wire s0 @ take n data, outputBuffer := b, accepted := accepted s0 @ take n data @ drop n data\<rparr>"
    let ?s2 = "if hw then emit (FxQueueHighWater (uadd64 (readableBytes (outputBuffer s1)) (length data - n))) s1 else s1"
    have s2: "?s2 = s0\<lparr>wire := wire s0 @ take n data\<rparr>"
      unfolding s0_def 3(3) by (cases s) (simp add: emit_def)
    have "sendInLoop data wr s = rbind (append_bytes (drop n data) (outputBuffer ?s2)) (\<lambda>b.
        let s3 = ?s2\<lparr>outputBuffer := b, accepted := accepted ?s2 @ data\<rparr>
        in Inr (if \<not> isWriting (channel s3) then on_channel enableWriting s3 else s3))"
      using 3(1,2) d False by (simp only: sendInLoop_def hw_def Let_def if_False prod.case) (simp only: diff_le_self c_assert_True zero_less_diff if_True simp_thms)
    then have call: "sendInLoop data wr s = rbind (append_bytes (drop n data) (outputBuffer s0)) (\<lambda>b.
        Inr (if \<not> isWriting (channel (?s3 b)) then on_channel enableWriting (?s3 b) else ?s3 b))"
      unfolding s2 append_take_drop_id by (simp add: Let_def)
    show ?thesis
    proof (cases "append_bytes (drop n data) (outputBuffer s0)")
      case (Inl e)
      with append_only_length [of "outputBuffer s0" "drop n data" e] out s0(3) data(2) call show ?thesis
        by (simp add: ok_or_len_def)
    next
      case (Inr b)
      have "tcp_inv (if \<not> isWriting (channel (?s3 b)) then on_channel enableWriting (?s3 b) else ?s3 b)"
        by (rule send_rest [OF s0(1,2) _ _ _ Inr]) (use 3 data(2) none s0(3) in auto)
      with call Inr s0 show ?thesis by simp
    qed
  qed
qed (use inv in \<open>simp add: sendInLoop_def\<close>)

section \<open>The other operations keep the invariant\<close>

lemma tcp_inv_connected:
  "tcp_inv s \<Longrightarrow> state s = kConnected \<Longrightarrow> tcp_inv (setState kDisconnecting s)"
  by (simp add: tcp_inv_defs setState_def)

lemma tcp_inv_emit_if: "quiet_fx e \<Longrightarrow> state s \<noteq> kConnecting \<Longrightarrow> tcp_inv s \<Longrightarrow> tcp_inv (if b then emit e s else s)"
  by (simp add: tcp_inv_emit)

lemma shutdownInLoop_inv: "tcp_inv s \<Longrightarrow> state s \<noteq> kConnecting \<Longrightarrow> tcp_inv (shutdownInLoop s) \<and> state (shutdownInLoop s) = state s"
  unfolding shutdownInLoop_def using tcp_inv_emit_if [of FxShutdownWrite s] by (simp add: quiet_fx_def)

text \<open>The phase of a connection: before, while and after it is up.\<close>

definition phase :: "TcpConnection \<Rightarrow> nat" where
  "phase s = (case state s of kConnecting \<Rightarrow> 0 | kDisconnected \<Rightarrow> 2 | _ \<Rightarrow> 1)"

lemma phase_simps: "phase s = 0 \<longleftrightarrow> state s = kConnecting" "phase s = Suc 0 \<longleftrightarrow> active s" "phase s = 2 \<longleftrightarrow> state s = kDisconnected"
  by (auto simp: phase_def active_def split: StateE.splits)

lemma tcp_shutdown_inv:
  assumes "tcp_inv s"
  shows "tcp_inv (tcp_shutdown b s) \<and> phase (tcp_shutdown b s) = phase s"
proof (cases "state s = kConnected")
  case True
  have "tcp_inv (setState kDisconnecting s)" using assms True by (rule tcp_inv_connected)
  with shutdownInLoop_inv [OF this] True show ?thesis
    by (auto simp: tcp_shutdown_def Let_def phase_def) (auto simp: setState_def)
qed (use assms in \<open>simp add: tcp_shutdown_def\<close>)

lemma forceClose_inv:
  assumes "tcp_inv s"
  shows "tcp_inv (forceClose s) \<and> phase (forceClose s) = phase s"
proof (cases "active s")
  case True
  then have "tcp_inv (setState kDisconnecting s)" using assms by (auto simp: tcp_inv_defs setState_def)
  with tcp_inv_emit [of FxQueueForceClose "setState kDisconnecting s"] True show ?thesis
    by (auto simp: forceClose_def active_def phase_def quiet_fx_def) (auto simp: setState_def)
qed (use assms in \<open>simp add: forceClose_def active_def\<close>)

lemma forceCloseWithDelay_inv:
  assumes "tcp_inv s"
  shows "tcp_inv (forceCloseWithDelay s) \<and> phase (forceCloseWithDelay s) = phase s"
proof (cases "active s")
  case True
  then have "tcp_inv (setState kDisconnecting s)" using assms by (auto simp: tcp_inv_defs setState_def)
  with tcp_inv_emit [of FxDelayForceClose "setState kDisconnecting s"] True show ?thesis
    by (auto simp: forceCloseWithDelay_def active_def phase_def quiet_fx_def) (auto simp: setState_def)
qed (use assms in \<open>simp add: forceCloseWithDelay_def active_def\<close>)

text \<open>The delayed close may come at any time, also when the connection is down or gone.\<close>

lemma delayed_forceClose_inv:
  "tcp_inv s \<Longrightarrow> tcp_inv (delayed_forceClose alive s) \<and> phase (delayed_forceClose alive s) = phase s \<and>
     (\<not> alive \<or> \<not> active s \<longrightarrow> delayed_forceClose alive s = s)"
  using forceClose_inv by (auto simp: delayed_forceClose_def weak_call_def forceClose_def active_def)

lemma startReadInLoop_inv:
  assumes "tcp_inv s" "active s"
  shows "tcp_inv (startReadInLoop s) \<and> state (startReadInLoop s) = state s"
proof -
  have "active (on_channel enableReading s)" using assms(2) by (simp add: active_def)
  then have "tcp_chan (on_channel enableReading s)"
    using assms enable_keeps reading_nonzero [of "enableReading (channel s)"]
    unfolding tcp_inv_def tcp_chan_active [OF assms(2)] by (simp add: tcp_chan_active)
  then have "tcp_inv (on_channel enableReading s)"
    using assms(1) by (simp add: tcp_inv_def tcp_data_def tcp_calls_def)
  moreover have "tcp_inv (t\<lparr>reading := b\<rparr>) = tcp_inv t" for t b by (simp add: tcp_inv_defs)
  ultimately show ?thesis using assms(1) by (simp add: startReadInLoop_def)
qed

lemma consume_inv:
  assumes inv: "tcp_inv s"
  shows "ok_or_len (exec_ucmd (UConsume n) s) (\<lambda>s'. tcp_inv s' \<and> phase s' = phase s)"
proof -
  let ?b = "inputBuffer s" and ?k = "min n (readableBytes (inputBuffer s))"
  have b: "Buffer_inv ?b" using inv by (simp add: tcp_inv_def tcp_data_def)
  then have "?k \<le> length (buf_content ?b)" by (simp add: length_buf_content)
  from retrieveAsString_spec [OF b this] obtain b' where b': "Buffer_inv b'"
    "retrieveAsString ?k ?b = Inr (take ?k (buf_content ?b), b')" "buf_content b' = drop ?k (buf_content ?b)" by blast
  have "tcp_inv (s\<lparr>inputBuffer := b', consumed := consumed s @ take ?k (buf_content ?b)\<rparr>)"
    using inv b' by (simp add: tcp_inv_defs)
  with b' show ?thesis by (simp add: Let_def phase_def)
qed

lemma exec_ucmd_ok:
  assumes "tcp_inv s" "phase s \<noteq> 0" "ucmd_ok c" "phase s = 2 \<longrightarrow> c \<noteq> UStartRead"
  shows "ok_or_len (exec_ucmd c s) (\<lambda>s'. tcp_inv s' \<and> phase s' = phase s)"
proof (cases c)
  case (USend data wr)
  with assms sendInLoop_ok [of s wr data] show ?thesis
    by (auto simp: phase_simps) (auto simp: phase_def elim: ok_or_len_mono)
next
  case UStartRead
  with assms have "active s" by (cases "state s") (auto simp: phase_def active_def)
  with startReadInLoop_inv [OF assms(1) this] UStartRead show ?thesis by (simp add: phase_def)
next
  case (UConsume n)
  with consume_inv [OF assms(1)] show ?thesis by simp
qed (use assms tcp_shutdown_inv forceClose_inv in auto)

lemma run_callback_ok:
  assumes user: "user_ok user" and ev: "phase s = 2 \<longrightarrow> ev = DownEv"
    and inv: "tcp_inv (emit (ev_fx ev) s)" "phase s \<noteq> 0"
  shows "ok_or_len (run_callback user ev s) (\<lambda>s'. tcp_inv s' \<and> phase s' = phase s)"
  unfolding run_callback_def Let_def
proof (rule ok_or_len_rfold)
  fix c t assume c: "c \<in> set (user ev (emit (ev_fx ev) s))" and t: "tcp_inv t \<and> phase t = phase s"
  have "ucmd_ok c" "ev = DownEv \<longrightarrow> c \<noteq> UStartRead" using user c inv(1) unfolding user_ok_def by blast+
  with exec_ucmd_ok [of t c] t inv(2) ev show "ok_or_len (exec_ucmd c t) (\<lambda>s'. tcp_inv s' \<and> phase s' = phase s)"
    by auto
qed (use inv in \<open>simp add: phase_def\<close>)

text \<open>The user's calls never run the close callback.\<close>

lemma sendInLoop_close:
  "sendInLoop data wr s = Inr s' \<Longrightarrow> count_list (fx s') FxClose = count_list (fx s) FxClose"
  by (auto simp: sendInLoop_def send_direct_def Let_def result_simps split: if_splits write_result.splits)

lemma run_callback_close:
  assumes "run_callback user ev s = Inr s'"
  shows "count_list (fx s') FxClose = count_list (fx s) FxClose"
proof -
  have step: "count_list (fx t') FxClose = count_list (fx t) FxClose" if "exec_ucmd c t = Inr t'" for c t t'
    using that sendInLoop_close
    by (cases c) (auto simp: tcp_shutdown_def shutdownInLoop_def forceClose_def startReadInLoop_def setState_def
        Let_def result_simps split: if_splits)
  show ?thesis
    by (rule rfold_invariant [OF _ _ assms [unfolded run_callback_def Let_def],
          where P = "\<lambda>t. count_list (fx t) FxClose = count_list (fx s) FxClose"])
      (auto simp: ev_fx_def dest: step split: conn_event.splits)
qed

text \<open>Going down: the state, the channel and the callback, as \<open>handleClose\<close> and \<open>connectDestroyed\<close> do it.\<close>

lemma go_down_ok:
  assumes user: "user_ok user" and inv: "tcp_inv s" "active s"
  shows "ok_or_len (run_callback user DownEv (on_channel disableAll (setState kDisconnected s)))
    (\<lambda>s'. tcp_inv s' \<and> state s' = kDisconnected \<and> count_list (fx s') FxClose = 0)"
proof -
  let ?s = "on_channel disableAll (setState kDisconnected s)"
  have c: "tcp_chan s" "tcp_calls s" "tcp_data s" using inv(1) by (simp_all add: tcp_inv_def)
  have masks: "masks s \<noteq> []" "0 \<notin> set (masks s)" using c(1) tcp_chan_active [OF inv(2)] by auto
  have calls: "count_list (fx s) FxClose = 0" "count_list (fx s) FxDown = 0" "count_list (fx s) FxUp = 1"
    using c(2) inv(2) by (auto simp: tcp_calls_def active_def)
  have st: "state (emit FxDown ?s) = kDisconnected" by (simp add: setState_def)
  have "tcp_inv (emit FxDown ?s)"
    using masks calls c(3) unfolding tcp_inv_def tcp_chan_disconnected [OF st]
    by (auto simp: tcp_data_def tcp_calls_def setState_def)
  then have run: "ok_or_len (run_callback user DownEv ?s) (\<lambda>s'. tcp_inv s' \<and> phase s' = phase ?s)"
    using run_callback_ok [OF user, of ?s DownEv] by (simp add: ev_fx_def phase_def setState_def)
  show ?thesis
  proof (cases "run_callback user DownEv ?s")
    case (Inr s1)
    with run have "tcp_inv s1" "state s1 = kDisconnected" by (auto simp: phase_def setState_def split: StateE.splits)
    moreover have "count_list (fx s1) FxClose = 0"
      using run_callback_close [OF Inr] calls(1) by (simp add: setState_def)
    ultimately show ?thesis using Inr by simp
  qed (use run in \<open>simp add: ok_or_len_def\<close>)
qed

lemma tcp_handleClose_ok:
  assumes user: "user_ok user" and inv: "tcp_inv s" "active s"
  shows "ok_or_len (tcp_handleClose user s) (\<lambda>s'. tcp_inv s' \<and> state s' = kDisconnected)"
proof -
  have "tcp_inv (emit FxClose t)" if "tcp_inv t" "state t = kDisconnected" "count_list (fx t) FxClose = 0" for t
    using that by (simp add: tcp_inv_def tcp_data_def tcp_calls_def tcp_chan_disconnected)
  with go_down_ok [OF assms] inv(2) show ?thesis
    by (auto simp: tcp_handleClose_def c_assert_holds active_def intro: ok_or_len_bind)
qed

lemma readFd_count: "readFd (ReadOk bs) b = Inr (n, e, b') \<Longrightarrow> n = int (length bs)"
  by (auto simp: readFd_def Let_def result_simps split: if_splits)

lemma tcp_handleRead_ok:
  assumes user: "user_ok user" and inv: "tcp_inv s" "active s" and rr: "buf_op_wf (OpReadFd rr) (inputBuffer s)"
  shows "ok_or_len (tcp_handleRead user rr s) (\<lambda>s'. tcp_inv s' \<and> phase s' \<noteq> 0)"
proof (cases rr)
  case (ReadErr e)
  have "s\<lparr>inputBuffer := inputBuffer s, received := received s\<rparr> = s" by simp
  with inv ReadErr show ?thesis
    by (auto simp: tcp_handleRead_def readFd_def tcp_handleError_def phase_simps active_def)
next
  case (ReadOk bs)
  have b: "Buffer_inv (inputBuffer s)" using inv by (simp add: tcp_inv_def tcp_data_def)
  have ref: "buf_op_refines (OpReadFd rr) (inputBuffer s)" using b rr by (rule readFd_refines)
  show ?thesis
  proof (cases "readFd rr (inputBuffer s)")
    case (Inl e)
    with ref ReadOk show ?thesis by (simp add: tcp_handleRead_def buf_op_refines_def ok_or_len_def)
  next
    case (Inr r)
    obtain n e b' where r: "r = (n, e, b')" by (metis prod_cases3)
    let ?s = "s\<lparr>inputBuffer := b', received := received s @ bs\<rparr>"
    have n: "n = int (length bs)" using Inr r ReadOk by (auto dest: readFd_count)
    have "Buffer_inv b' \<and> buf_content b' = buf_content (inputBuffer s) @ bs"
      using ref Inr r ReadOk by (simp add: buf_op_refines_def)
    then have s1: "tcp_inv ?s" "active ?s" using inv by (auto simp: tcp_inv_defs)
    have msg: "ok_or_len (run_callback user MessageEv ?s) (\<lambda>s'. tcp_inv s' \<and> phase s' = phase ?s)"
      using run_callback_ok [OF user, of ?s MessageEv] tcp_inv_emit [of FxMessage ?s] s1
      by (auto simp: ev_fx_def quiet_fx_def active_def phase_def)
    show ?thesis
    proof (cases "bs = []")
      case True
      with tcp_handleClose_ok [OF user s1] Inr r n ReadOk show ?thesis
        by (auto simp: tcp_handleRead_def phase_def elim!: ok_or_len_mono)
    next
      case False
      with msg Inr r n ReadOk s1(2) show ?thesis
        by (auto simp: tcp_handleRead_def phase_def active_def elim!: ok_or_len_mono)
    qed
  qed
qed

text \<open>A write that leaves output pending, and one that drains it.\<close>

lemma tcp_inv_partial:
  assumes inv: "tcp_inv s" "active s" and b: "Buffer_inv b" "sent @ buf_content b = buf_content (outputBuffer s)"
    "buf_content b \<noteq> []"
  shows "tcp_inv (s\<lparr>outputBuffer := b, wire := wire s @ sent\<rparr>)"
proof -
  have "active (s\<lparr>outputBuffer := b, wire := wire s @ sent\<rparr>)" using inv(2) by (simp add: active_def)
  moreover have "buf_content (outputBuffer s) \<noteq> []" using b(2,3) by auto
  ultimately show ?thesis
    using inv(1) b unfolding tcp_inv_def tcp_chan_active [OF inv(2)]
    by (simp add: tcp_chan_active tcp_data_def tcp_calls_def)
qed

lemma tcp_inv_drained:
  assumes inv: "tcp_inv s" "active s" and b: "Buffer_inv b" "buf_content b = []"
    and w: "w = accepted s"
  shows "tcp_inv (on_channel disableWriting (s\<lparr>outputBuffer := b, wire := w\<rparr>))"
proof -
  have "active (on_channel disableWriting (s\<lparr>outputBuffer := b, wire := w\<rparr>))" using inv(2) by (simp add: active_def)
  then show ?thesis
    using inv(1) b w enable_keeps reading_nonzero [of "disableWriting (channel s)"]
    unfolding tcp_inv_def tcp_chan_active [OF inv(2)]
    by (simp add: tcp_chan_active tcp_data_def tcp_calls_def)
qed

lemma tcp_handleWrite_cases:
  assumes inv: "tcp_inv s" and wr: "write_fits wr (readableBytes (outputBuffer s))"
    and pc: "isWriting (channel s)" "wr = WriteOk n" "0 < n"
  shows "\<exists>b. Buffer_inv b \<and> buf_content b = drop n (buf_content (outputBuffer s)) \<and>
    tcp_handleWrite wr s = Inr (
      let s1 = s\<lparr>outputBuffer := b, wire := wire s @ take n (buf_content (outputBuffer s))\<rparr> in
      if buf_content b = []
      then let s2 = on_channel disableWriting s1;
               s3 = (if writeCompleteCallback s2 then emit FxQueueWriteComplete s2 else s2)
           in if state s3 = kDisconnecting then shutdownInLoop s3 else s3
      else s1)"
proof -
  have out: "Buffer_inv (outputBuffer s)" using inv by (simp add: tcp_inv_def tcp_data_def)
  have n: "n \<le> length (buf_content (outputBuffer s))" using wr pc(2) out by (simp add: length_buf_content)
  from retrieve_spec [OF out n] obtain b where b: "retrieve n (outputBuffer s) = Inr b" "Buffer_inv b"
    "buf_content b = drop n (buf_content (outputBuffer s))" by blast
  moreover have "read_at (peek (outputBuffer s)) n (outputBuffer s) = Inr (take n (buf_content (outputBuffer s)))"
    using out n by (intro read_at_peek) (simp_all add: length_buf_content)
  ultimately show ?thesis
    using pc by (intro exI [of _ b]) (simp add: tcp_handleWrite_def Let_def buf_content_Nil_iff [symmetric])
qed

lemma tcp_handleWrite_ok:
  assumes inv: "tcp_inv s" "phase s \<noteq> 0" and wr: "write_fits wr (readableBytes (outputBuffer s))"
  shows "ok_or_len (tcp_handleWrite wr s) (\<lambda>s'. tcp_inv s' \<and> phase s' = phase s)"
proof (cases "isWriting (channel s) \<and> (\<exists>n>0. wr = WriteOk n)")
  case False
  with inv(1) show ?thesis by (cases wr) (auto simp: tcp_handleWrite_def)
next
  case True
  then obtain n where n: "isWriting (channel s)" "wr = WriteOk n" "0 < n" by blast
  have act: "active s"
  proof (rule ccontr)
    assume "\<not> active s"
    with inv have "state s = kDisconnected" by (cases "state s") (auto simp: phase_def active_def)
    with inv(1) have "events (channel s) = 0" by (simp add: tcp_inv_def tcp_chan_disconnected)
    with n(1) show False by (simp add: isWriting_bit)
  qed
  let ?c = "buf_content (outputBuffer s)"
  from tcp_handleWrite_cases [OF inv(1) wr n] obtain b where b: "Buffer_inv b" "buf_content b = drop n ?c"
    "tcp_handleWrite wr s = Inr (
      let s1 = s\<lparr>outputBuffer := b, wire := wire s @ take n ?c\<rparr> in
      if buf_content b = []
      then let s2 = on_channel disableWriting s1;
               s3 = (if writeCompleteCallback s2 then emit FxQueueWriteComplete s2 else s2)
           in if state s3 = kDisconnecting then shutdownInLoop s3 else s3
      else s1)" by blast
  show ?thesis
  proof (cases "buf_content b = []")
    case False
    have "tcp_inv (s\<lparr>outputBuffer := b, wire := wire s @ take n ?c\<rparr>)"
      by (rule tcp_inv_partial [OF inv(1) act b(1)]) (use b(2) False in simp_all)
    with b False show ?thesis by (simp add: phase_def)
  next
    case True
    let ?s2 = "on_channel disableWriting (s\<lparr>outputBuffer := b, wire := wire s @ take n ?c\<rparr>)"
    let ?s3 = "if writeCompleteCallback ?s2 then emit FxQueueWriteComplete ?s2 else ?s2"
    have "wire s @ take n ?c = accepted s"
      using True b(2) inv(1) by (auto simp: tcp_inv_def tcp_data_def)
    then have s2: "tcp_inv ?s2" by (intro tcp_inv_drained [OF inv(1) act b(1) True])
    have st: "state ?s3 = state s" "state s \<noteq> kConnecting" using act by (auto simp: active_def)
    then have s3: "tcp_inv ?s3" using s2 by (intro tcp_inv_emit_if) (auto simp: quiet_fx_def)
    have "tcp_handleWrite wr s = Inr (if state ?s3 = kDisconnecting then shutdownInLoop ?s3 else ?s3)"
      using b(3) unfolding Let_def if_P [OF True] .
    with s3 st shutdownInLoop_inv [OF s3] show ?thesis by (simp add: phase_def)
  qed
qed

section \<open>Dispatch and life cycle\<close>

lemma tcp_inv_channel:
  "events ch = events (channel s) \<Longrightarrow> tcp_inv (s\<lparr>channel := ch\<rparr>) = tcp_inv s"
  by (simp add: tcp_inv_defs isWriting_def isReading_def)

lemma tcp_invoke_ok:
  assumes user: "user_ok user" and kernel: "kernel_ok rd wt" and inv: "tcp_inv s" "phase s \<noteq> 0"
    and cb: "cb = CloseCallback \<or> cb = ReadCallback \<longrightarrow> active s"
  shows "ok_or_len (tcp_invoke user rd wt cb s)
    (\<lambda>s'. tcp_inv s' \<and> phase s' \<noteq> 0 \<and> (cb = ErrorCallback \<or> cb = WriteCallback \<longrightarrow> phase s' = phase s))"
proof (cases cb)
  case ReadCallback
  have "buf_op_wf (OpReadFd (rd (iov_capacity (inputBuffer s)))) (inputBuffer s)"
    using kernel by (cases "rd (iov_capacity (inputBuffer s))") (auto simp: kernel_ok_def)
  from tcp_handleRead_ok [OF user inv(1) _ this] ReadCallback cb show ?thesis
    by (auto elim!: ok_or_len_mono)
next
  case WriteCallback
  with tcp_handleWrite_ok [OF inv, of "wt (readableBytes (outputBuffer s))"] kernel inv(2) show ?thesis
    by (auto simp: kernel_ok_def elim!: ok_or_len_mono)
next
  case CloseCallback
  with tcp_handleClose_ok [OF user inv(1)] cb show ?thesis
    by (auto simp: phase_def elim!: ok_or_len_mono)
next
  case ErrorCallback
  with inv show ?thesis by (simp add: tcp_handleError_def)
qed

text \<open>A list of callbacks with at most one that may close the connection.\<close>

definition closers :: "chan_cb list \<Rightarrow> nat" where
  "closers cbs = length (filter (\<lambda>cb. cb = CloseCallback \<or> cb = ReadCallback) cbs)"

lemma dispatch_ok:
  assumes user: "user_ok user" and kernel: "kernel_ok rd wt" and inv: "tcp_inv s" "phase s \<noteq> 0"
    and cbs: "closers cbs \<le> (if active s then 1 else 0)"
  shows "ok_or_len (rfold (tcp_invoke user rd wt) cbs s) (\<lambda>s'. tcp_inv s' \<and> phase s' \<noteq> 0)"
  using inv cbs
proof (induction cbs arbitrary: s)
  case (Cons cb cbs)
  have "cb = CloseCallback \<or> cb = ReadCallback \<longrightarrow> active s"
    using Cons.prems(3) by (auto simp: closers_def split: if_splits)
  note head = tcp_invoke_ok [OF user kernel Cons.prems(1,2) this]
  have "ok_or_len (rfold (tcp_invoke user rd wt) cbs t) (\<lambda>s'. tcp_inv s' \<and> phase s' \<noteq> 0)"
    if t: "tcp_inv t \<and> phase t \<noteq> 0 \<and> (cb = ErrorCallback \<or> cb = WriteCallback \<longrightarrow> phase t = phase s)" for t
  proof (rule Cons.IH)
    show "closers cbs \<le> (if active t then 1 else 0)"
      using Cons.prems(3) t by (cases cb) (auto simp: closers_def phase_simps(2) [symmetric] split: if_splits)
  qed (use t in auto)
  with head show ?case by (auto intro: ok_or_len_bind)
qed simp

text \<open>The masks a poller may report: a hang-up without data comes with no other readable event.\<close>

definition safe_mask :: "32 word \<Rightarrow> bool" where
  "safe_mask rv \<longleftrightarrow> \<not> (has_bits rv POLLHUP \<and> \<not> has_bits rv POLLIN \<and> has_bits rv (POLLPRI OR POLLRDHUP))"

lemma safe_mask_closers: "safe_mask rv \<Longrightarrow> closers (dispatch rv) \<le> 1"
  unfolding safe_mask_def closers_def dispatch_def by (auto simp: has_bits_or)

lemma tcp_handleEvent_ok:
  assumes user: "user_ok user" and kernel: "kernel_ok rd wt" and inv: "tcp_inv s" "active s" and rv: "safe_mask rv"
  shows "ok_or_len (tcp_handleEvent user rv rd wt s) (\<lambda>s'. tcp_inv s' \<and> phase s' \<noteq> 0)"
proof -
  let ?s = "s\<lparr>channel := (set_revents rv (channel s))\<lparr>eventHandling := True\<rparr>\<rparr>"
  have s: "tcp_inv ?s" "active ?s" "phase ?s \<noteq> 0"
    using inv by (simp_all add: tcp_inv_channel set_revents_def active_def) (auto simp: phase_def)
  have "ok_or_len (rfold (tcp_invoke user rd wt) (dispatch rv) ?s) (\<lambda>s'. tcp_inv s' \<and> phase s' \<noteq> 0)"
    by (rule dispatch_ok [OF user kernel s(1,3)]) (use safe_mask_closers [OF rv] s(2) in simp)
  moreover have "tcp_handleEvent user rv rd wt s = rbind (rfold (tcp_invoke user rd wt) (dispatch rv) ?s)
      (\<lambda>s'. Inr (s'\<lparr>channel := (channel s')\<lparr>eventHandling := False\<rparr>\<rparr>))"
    by (simp add: tcp_handleEvent_def handleEvent_def handleEventWithGuard_def set_revents_def)
  ultimately show ?thesis
    by (auto simp: tcp_inv_channel phase_def intro: ok_or_len_bind)
qed

lemma connectEstablished_ok:
  assumes user: "user_ok user" and inv: "tcp_inv s" "state s = kConnecting"
  shows "ok_or_len (connectEstablished user s) (\<lambda>s'. tcp_inv s' \<and> active s')"
proof -
  let ?s = "on_channel enableReading ((setState kConnected s)\<lparr>channel := Channel_tie (channel s)\<rparr>)"
  have fx: "fx s = []" "events (channel s) = 0" "buf_content (outputBuffer s) = []"
    using inv by (auto simp: tcp_inv_def tcp_chan_def)
  have act: "active (emit FxUp ?s)" by (simp add: active_def setState_def)
  have w: "\<not> isWriting (Channel_tie (channel s))" using fx(2) by (simp add: isWriting_bit Channel_tie_def)
  have "tcp_inv (emit FxUp ?s)"
    using inv(1) fx enable_keeps w reading_nonzero [of "enableReading (Channel_tie (channel s))"]
    unfolding tcp_inv_def tcp_chan_active [OF act]
    by (simp add: tcp_data_def tcp_calls_def setState_def masks_def map_filter_def)
  then have "ok_or_len (run_callback user UpEv ?s) (\<lambda>s'. tcp_inv s' \<and> phase s' = phase ?s)"
    using run_callback_ok [OF user, of ?s UpEv] by (simp add: ev_fx_def phase_def setState_def)
  moreover have "phase ?s = Suc 0" by (simp add: phase_def setState_def)
  moreover have "connectEstablished user s = run_callback user UpEv ?s"
    using inv(2) by (simp add: connectEstablished_def Let_def setState_def)
  ultimately show ?thesis by (simp add: phase_simps)
qed

lemma connectDestroyed_ok:
  assumes user: "user_ok user" and inv: "tcp_inv s" "state s = kConnected \<or> state s = kDisconnected"
  shows "ok_or_len (connectDestroyed user s) (\<lambda>s'. tcp_inv s' \<and> state s' = kDisconnected \<and>
    isOK (TcpConnection_dtor s') \<and> FxRemove \<in> set (fx s'))"
proof -
  have fin: "ok_or_len (rbind (Channel_remove (channel t)) (\<lambda>ch. Inr (emit FxRemove (t\<lparr>channel := ch\<rparr>))))
      (\<lambda>s'. tcp_inv s' \<and> state s' = kDisconnected \<and> isOK (TcpConnection_dtor s') \<and> FxRemove \<in> set (fx s'))"
    if t: "tcp_inv t \<and> state t = kDisconnected" for t
  proof -
    have "events (channel t) = 0" using t tcp_chan_disconnected [of t] by (simp add: tcp_inv_def)
    then have "Channel_remove (channel t) = Inr ((channel t)\<lparr>addedToLoop := False\<rparr>)"
      by (simp add: Channel_remove_def isNoneEvent_def kNoneEvent_def)
    moreover have "tcp_inv (emit FxRemove (t\<lparr>channel := (channel t)\<lparr>addedToLoop := False\<rparr>\<rparr>))"
      using t by (intro tcp_inv_emit) (simp_all add: quiet_fx_def tcp_inv_channel)
    ultimately show ?thesis using t by (simp add: TcpConnection_dtor_def)
  qed
  show ?thesis
  proof (cases "state s = kConnected")
    case True
    then have "active s" by (simp add: active_def)
    from go_down_ok [OF user inv(1) this] True show ?thesis
      unfolding connectDestroyed_def by (auto intro!: ok_or_len_bind [OF _ fin] elim: ok_or_len_mono)
  next
    case False
    with inv fin [of s] show ?thesis by (simp add: connectDestroyed_def)
  qed
qed

section \<open>The connection as a transition system\<close>

text \<open>
  What happens to a connection in its loop: events of the poller, functors of other threads,
  and the calls of its owner. \<open>call\<close> is one of them with its outcome.
\<close>

datatype conn_call =
    CallEstablished | CallEvent "32 word" "nat \<Rightarrow> read_result" "nat \<Rightarrow> write_result"
  | CallSend "byte list" write_result | CallShutdown bool | CallShutdownInLoop | CallForceClose | CallForceCloseDelay
  | CallForceCloseInLoop | CallStartRead | CallDestroyed

fun do_call :: "user \<Rightarrow> conn_call \<Rightarrow> TcpConnection \<Rightarrow> TcpConnection result" where
  "do_call user CallEstablished s = connectEstablished user s"
| "do_call user (CallEvent rv rd wt) s = tcp_handleEvent user rv rd wt s"
| "do_call user (CallSend data wr) s = sendInLoop data wr s"
| "do_call user (CallShutdown b) s = Inr (tcp_shutdown b s)"
| "do_call user CallShutdownInLoop s = Inr (shutdownInLoop s)"
| "do_call user CallForceClose s = Inr (forceClose s)"
| "do_call user CallForceCloseDelay s = Inr (forceCloseWithDelay s)"
| "do_call user CallForceCloseInLoop s = forceCloseInLoop user s"
| "do_call user CallStartRead s = Inr (startReadInLoop s)"
| "do_call user CallDestroyed s = connectDestroyed user s"

text \<open>When a call may come: the poller reports only while the channel is registered, and so on.\<close>

fun enabled :: "conn_call \<Rightarrow> TcpConnection \<Rightarrow> bool" where
  "enabled CallEstablished s = (state s = kConnecting)"
| "enabled (CallEvent rv rd wt) s = (active s \<and> kernel_ok rd wt \<and> safe_mask rv)"
| "enabled (CallSend data wr) s =
     (state s \<noteq> kConnecting \<and> write_fits wr (length data) \<and> length data \<le> vector_max_size)"
| "enabled CallShutdownInLoop s = (state s \<noteq> kConnecting)"
| "enabled CallStartRead s = active s"
| "enabled CallDestroyed s = ((state s = kConnected \<or> state s = kDisconnected) \<and> FxRemove \<notin> set (fx s))"
| "enabled _ s = True"

text \<open>A new connection, with the optional callbacks its owner has installed.\<close>

definition with_callbacks :: "bool \<Rightarrow> nat option \<Rightarrow> TcpConnection \<Rightarrow> TcpConnection" where
  "with_callbacks wc hw s =
     (let s1 = (if wc then setWriteCompleteCallback s else s)
      in case hw of None \<Rightarrow> s1 | Some m \<Rightarrow> setHighWaterMarkCallback m s1)"

definition tcp_init :: "TcpConnection \<Rightarrow> bool" where
  "tcp_init s \<longleftrightarrow> (\<exists>sockfd s0 wc hw. TcpConnection_ctor sockfd = Inr s0 \<and> s = with_callbacks wc hw s0)"

definition tcp_step :: "user \<Rightarrow> TcpConnection \<Rightarrow> TcpConnection \<Rightarrow> bool" where
  "tcp_step user s s' \<longleftrightarrow> (\<exists>c. enabled c s \<and> do_call user c s = Inr s')"

lemma with_callbacks_sel [simp]:
  "state (with_callbacks wc hw s) = state s" "fx (with_callbacks wc hw s) = fx s" "channel (with_callbacks wc hw s) = channel s"
  "inputBuffer (with_callbacks wc hw s) = inputBuffer s" "outputBuffer (with_callbacks wc hw s) = outputBuffer s"
  "wire (with_callbacks wc hw s) = wire s" "accepted (with_callbacks wc hw s) = accepted s"
  "received (with_callbacks wc hw s) = received s" "consumed (with_callbacks wc hw s) = consumed s"
  by (simp_all add: with_callbacks_def Let_def setWriteCompleteCallback_def setHighWaterMarkCallback_def split: option.split)

lemma forceCloseInLoop_ok:
  "user_ok user \<Longrightarrow> tcp_inv s \<Longrightarrow> ok_or_len (forceCloseInLoop user s) tcp_inv"
  using tcp_handleClose_ok [of user s]
  by (auto simp: forceCloseInLoop_def active_def elim: ok_or_len_mono)

lemma do_call_ok:
  assumes "user_ok user" "tcp_inv s" "enabled c s"
  shows "ok_or_len (do_call user c s) tcp_inv"
proof (cases c)
  case CallEstablished
  with connectEstablished_ok [of user s] assms show ?thesis by (auto elim: ok_or_len_mono)
next
  case (CallEvent rv rd wt)
  with tcp_handleEvent_ok [of user rd wt s rv] assms show ?thesis by (auto elim: ok_or_len_mono)
next
  case (CallSend data wr)
  with sendInLoop_ok [of s wr data] assms show ?thesis by (auto elim: ok_or_len_mono)
next
  case (CallShutdown b)
  with tcp_shutdown_inv [of s b] assms show ?thesis by simp
next
  case CallForceClose
  with forceClose_inv [of s] assms show ?thesis by simp
next
  case CallForceCloseDelay
  with forceCloseWithDelay_inv [of s] assms show ?thesis by simp
next
  case CallForceCloseInLoop
  with forceCloseInLoop_ok [of user s] assms show ?thesis by simp
next
  case CallStartRead
  with startReadInLoop_inv [of s] assms show ?thesis by simp
next
  case CallDestroyed
  with connectDestroyed_ok [of user s] assms show ?thesis by (auto elim: ok_or_len_mono)
next
  case CallShutdownInLoop
  with shutdownInLoop_inv [of s] assms show ?thesis by simp
qed

locale tcp_user =
  fixes user :: user
  assumes user_ok: "user_ok user"

sublocale tcp_user \<subseteq> tcp: transition_system tcp_init "tcp_step user" tcp_inv
proof
  show "tcp_inv s" if init: "tcp_init s" for s
  proof -
    obtain b where b: "Buffer_ctor kInitialSize = Inr b" "Buffer_inv b" "buf_content b = []"
      using Buffer_ctor_ok [OF kInitialSize_fits] by blast
    from init b show ?thesis
      by (auto simp: tcp_init_def TcpConnection_ctor_def tcp_inv_defs Channel_ctor_def)
  qed
  show "tcp_inv t" if "tcp_inv s" "tcp_step user s t" for s t
    using that do_call_ok [OF user_ok that(1)] by (fastforce simp: tcp_step_def ok_or_len_def)
qed

context tcp_user
begin

lemmas conn_reachable = tcp.reachable_inv

end

text \<open>A user that answers every message with three bytes and closes.\<close>

definition demo_conn_user :: user where
  "demo_conn_user ev s = (case ev of MessageEv \<Rightarrow> [UConsume 3, USend [101, 120, 105] (WriteOk 1), UShutdown] | _ \<Rightarrow> [])"

interpretation demo_conn: tcp_user demo_conn_user
  by unfold_locales (auto simp: user_ok_def demo_conn_user_def vector_max_size_def split: conn_event.splits)

section \<open>Properties\<close>

lemma conn_reach:
  "user_ok user \<Longrightarrow> tcp_init s0 \<Longrightarrow> (tcp_step user)\<^sup>*\<^sup>* s0 s \<Longrightarrow> tcp_inv s"
  using tcp_user.conn_reachable [OF tcp_user.intro] by blast

text \<open>A connection that has just been established.\<close>

lemma up_conn:
  "\<exists>s0 s. tcp_init s0 \<and> (tcp_step demo_conn_user)\<^sup>*\<^sup>* s0 s \<and> state s = kConnected \<and> wire s = accepted s \<and> tcp_inv s \<and>
     writerIndex (outputBuffer s) = kCheapPrepend \<and> \<not> highWaterMarkCallback s"
proof -
  obtain b where b: "Buffer_ctor kInitialSize = Inr b" using Buffer_ctor_ok [OF kInitialSize_fits] by blast
  then have "writerIndex b = kCheapPrepend" by (auto simp: Buffer_ctor_def Let_def result_simps)
  let ?ini = "\<lparr>state = kConnecting, reading = True, channel = Channel_ctor 9, inputBuffer = b,
    outputBuffer = b, highWaterMark = 64 * 1024 * 1024, writeCompleteCallback = False,
    highWaterMarkCallback = False, fx = [], wire = [], accepted = [], received = [], consumed = []\<rparr>"
  let ?s = "emit FxUp (on_channel enableReading ((setState kConnected ?ini)\<lparr>channel := Channel_tie (channel ?ini)\<rparr>))"
  have "TcpConnection_ctor 9 = Inr ?ini" using b by (simp add: TcpConnection_ctor_def)
  moreover have "?ini = with_callbacks False None ?ini" by (simp add: with_callbacks_def)
  ultimately have init: "tcp_init ?ini" unfolding tcp_init_def by blast
  have "do_call demo_conn_user CallEstablished ?ini = Inr ?s"
    by (simp add: connectEstablished_def Let_def run_callback_def ev_fx_def demo_conn_user_def setState_def)
  moreover have "enabled CallEstablished ?ini" by simp
  ultimately have "tcp_step demo_conn_user ?ini ?s" unfolding tcp_step_def by blast
  then have reach: "(tcp_step demo_conn_user)\<^sup>*\<^sup>* ?ini ?s" by (rule r_into_rtranclp)
  moreover have "state ?s = kConnected" "wire ?s = accepted ?s" by (simp_all add: setState_def)
  moreover have "writerIndex (outputBuffer ?s) = kCheapPrepend" "\<not> highWaterMarkCallback ?s"
    using \<open>writerIndex b = kCheapPrepend\<close> by (simp_all add: setState_def emit_def on_channel_def)
  ultimately show ?thesis using init conn_reach [OF demo_conn.user_ok init reach] by blast
qed

text \<open>
  Property C2. In every state a connection can reach, under any events, partial writes, errors and
  calls: the bytes the kernel took followed by the output buffer are exactly the bytes accepted
  for sending, the bytes the user took followed by the input buffer are exactly the bytes
  received; while the connection is up the channel waits for writability exactly while output is
  pending and always reads; a closed connection has no events; and the connection callback ran
  once up, once down after closing, the close callback at most once.
\<close>

theorem tcp_reachable_invariant:
  assumes "user_ok user" and "tcp_init s0" and "(tcp_step user)\<^sup>*\<^sup>* s0 s"
  shows "wire s @ buf_content (outputBuffer s) = accepted s \<and>
    consumed s @ buf_content (inputBuffer s) = received s \<and>
    (active s \<longrightarrow> (isWriting (channel s) \<longleftrightarrow> buf_content (outputBuffer s) \<noteq> []) \<and> isReading (channel s)) \<and>
    (state s = kDisconnected \<longrightarrow> events (channel s) = 0) \<and>
    count_list (fx s) FxUp = (if state s = kConnecting then 0 else 1) \<and>
    count_list (fx s) FxDown = (if state s = kDisconnected then 1 else 0) \<and>
    count_list (fx s) FxClose \<le> count_list (fx s) FxDown"
  using conn_reach [OF assms] by (simp add: tcp_inv_defs)

theorem tcp_reachable_invariant_witness:
  "\<exists>s :: TcpConnection. state s = kConnected \<and> wire s @ buf_content (outputBuffer s) = accepted s \<and>
     count_list (fx s) FxUp = 1 \<and> isReading (channel s)"
proof -
  obtain s0 s where s: "tcp_init s0" "(tcp_step demo_conn_user)\<^sup>*\<^sup>* s0 s" "state s = kConnected" using up_conn by blast
  from tcp_reachable_invariant [OF demo_conn.user_ok s(1,2)] s(3) show ?thesis by (auto simp: active_def)
qed

text \<open>
  Property C3. In every reachable state every call that may come, with any outcome of the system
  calls and any well-behaved user callbacks inside it, returns normally: no assertion of the
  connection, the channel or the buffers fails and no access is out of bounds. The only
  exception is \<open>length_error\<close> of a buffer that cannot grow.
\<close>

theorem tcp_calls_never_fail:
  assumes "user_ok user" and "tcp_init s0" and "(tcp_step user)\<^sup>*\<^sup>* s0 s" and "enabled c s"
  shows "do_call user c s = Inl LengthError \<or> isOK (do_call user c s)"
  using do_call_ok [OF assms(1) conn_reach [OF assms(1-3)] assms(4)]
  by (auto simp: ok_or_len_def isOK_def split: sum.splits)

theorem tcp_calls_never_fail_witness:
  "\<exists>s :: TcpConnection. state s = kConnected \<and>
     (do_call demo_conn_user (CallSend [1, 2] (WriteOk 1)) s = Inl LengthError \<or>
      isOK (do_call demo_conn_user (CallSend [1, 2] (WriteOk 1)) s))"
proof -
  obtain s0 s where s: "tcp_init s0" "(tcp_step demo_conn_user)\<^sup>*\<^sup>* s0 s" "state s = kConnected" using up_conn by blast
  have "enabled (CallSend [1, 2] (WriteOk 1)) s" using s(3) by (simp add: vector_max_size_def)
  from tcp_calls_never_fail [OF demo_conn.user_ok s(1,2) this] s(3) show ?thesis by blast
qed

text \<open>
  A graceful shutdown sends everything first: \<open>shutdownInLoop\<close> half-closes the socket
  only when all accepted bytes are on the wire, and otherwise the write that drains the output
  buffer does it.
\<close>

lemma shutdown_after_flush:
  assumes "tcp_inv s" and "state s = kDisconnecting"
  shows "shutdownInLoop s = (if wire s = accepted s then emit FxShutdownWrite s else s) \<and>
    (wire s \<noteq> accepted s \<longrightarrow>
      (\<exists>s'. tcp_handleWrite (WriteOk (readableBytes (outputBuffer s))) s = Inr s' \<and> wire s' = accepted s \<and>
        last (fx s') = FxShutdownWrite \<and> \<not> isWriting (channel s')))"
proof -
  let ?c = "buf_content (outputBuffer s)" and ?n = "readableBytes (outputBuffer s)"
  have d: "wire s @ ?c = accepted s" "Buffer_inv (outputBuffer s)" using assms(1) by (simp_all add: tcp_inv_def tcp_data_def)
  have w: "isWriting (channel s) \<longleftrightarrow> wire s \<noteq> accepted s"
    using assms d(1) tcp_chan_active [of s] by (auto simp: tcp_inv_def active_def)
  have "\<exists>s'. tcp_handleWrite (WriteOk ?n) s = Inr s' \<and> wire s' = accepted s \<and>
      last (fx s') = FxShutdownWrite \<and> \<not> isWriting (channel s')" if "wire s \<noteq> accepted s"
  proof -
    have n: "length ?c = ?n" using d(2) by (rule length_buf_content)
    have n: "0 < ?n" "length ?c = ?n" using that d(1) n by (cases ?c; auto)+
    from tcp_handleWrite_cases [OF assms(1) _ _ refl n(1)] w that obtain b
      where b: "buf_content b = drop ?n ?c" "tcp_handleWrite (WriteOk ?n) s = Inr (
        let s1 = s\<lparr>outputBuffer := b, wire := wire s @ take ?n ?c\<rparr> in
        if buf_content b = []
        then let s2 = on_channel disableWriting s1;
                 s3 = (if writeCompleteCallback s2 then emit FxQueueWriteComplete s2 else s2)
             in if state s3 = kDisconnecting then shutdownInLoop s3 else s3
        else s1)" by auto
    with n d(1) assms(2) enable_keeps(4) [of "channel s"] show ?thesis
      by (auto simp: Let_def shutdownInLoop_def)
  qed
  then show ?thesis using w by (auto simp: shutdownInLoop_def)
qed

lemma shutdown_after_flush_witness:
  "\<exists>s :: TcpConnection. state s = kDisconnecting \<and> shutdownInLoop s = emit FxShutdownWrite s"
proof -
  obtain s where s: "state s = kConnected" "wire s = accepted s" "tcp_inv s" using up_conn by blast
  have "state (setState kDisconnecting s) = kDisconnecting" "wire (setState kDisconnecting s) = accepted (setState kDisconnecting s)"
    using s(2) by (simp_all add: setState_def)
  with shutdown_after_flush [OF tcp_inv_connected [OF s(3,1)]] show ?thesis by fastforce
qed

text \<open>Writable events in a row; \<open>take_n n\<close> is what \<open>write\<close> takes of \<open>n\<close> bytes.\<close>

fun write_rounds :: "nat \<Rightarrow> (nat \<Rightarrow> nat) \<Rightarrow> TcpConnection \<Rightarrow> TcpConnection result" where
  "write_rounds 0 take_n s = Inr s"
| "write_rounds (Suc k) take_n s =
     rbind (tcp_handleWrite (WriteOk (take_n (readableBytes (outputBuffer s)))) s) (write_rounds k take_n)"

lemma handleWrite_progress:
  assumes inv: "tcp_inv s" "active s" and n: "0 < n" "n \<le> length (buf_content (outputBuffer s))"
  shows "\<exists>s'. tcp_handleWrite (WriteOk n) s = Inr s' \<and> tcp_inv s' \<and> state s' = state s \<and> accepted s' = accepted s \<and>
    buf_content (outputBuffer s') = drop n (buf_content (outputBuffer s)) \<and> set (fx s) \<subseteq> set (fx s') \<and>
    (buf_content (outputBuffer s') = [] \<and> state s = kDisconnecting \<longrightarrow> FxShutdownWrite \<in> set (fx s'))"
proof -
  let ?c = "buf_content (outputBuffer s)"
  have out: "Buffer_inv (outputBuffer s)" using inv(1) by (simp add: tcp_inv_def tcp_data_def)
  have fits: "write_fits (WriteOk n) (readableBytes (outputBuffer s))" using n(2) length_buf_content [OF out] by simp
  have "?c \<noteq> []" using n by auto
  then have w: "isWriting (channel s)" using inv tcp_chan_active [of s] by (simp add: tcp_inv_def)
  from tcp_handleWrite_cases [OF inv(1) fits w refl n(1)] obtain b where b: "buf_content b = drop n ?c"
    "tcp_handleWrite (WriteOk n) s = Inr (
      let s1 = s\<lparr>outputBuffer := b, wire := wire s @ take n ?c\<rparr> in
      if buf_content b = []
      then let s2 = on_channel disableWriting s1;
               s3 = (if writeCompleteCallback s2 then emit FxQueueWriteComplete s2 else s2)
           in if state s3 = kDisconnecting then shutdownInLoop s3 else s3
      else s1)" (is "_ = Inr ?s'") by blast
  have "phase s \<noteq> 0" using inv(2) by (auto simp: phase_def active_def)
  from tcp_handleWrite_ok [OF inv(1) this fits] b(2) have "tcp_inv ?s'" by simp
  moreover have "state ?s' = state s" "accepted ?s' = accepted s" "buf_content (outputBuffer ?s') = drop n ?c" "set (fx s) \<subseteq> set (fx ?s')"
    using b(1) by (auto simp: Let_def shutdownInLoop_def)
  moreover have "FxShutdownWrite \<in> set (fx ?s')" if "buf_content b = []" "state s = kDisconnecting"
    using that enable_keeps(4) [of "channel s"] by (simp add: Let_def shutdownInLoop_def)
  ultimately show ?thesis using b by auto
qed

lemma handleWrite_idle:
  "tcp_inv s \<Longrightarrow> active s \<Longrightarrow> buf_content (outputBuffer s) = [] \<Longrightarrow> tcp_handleWrite wr s = Inr s"
  using tcp_chan_active [of s] by (simp add: tcp_inv_def tcp_handleWrite_def)

text \<open>
  Property C19. Output drains. However little \<open>write\<close> takes each time, as long as it takes something, as many
  writable events as there are bytes pending put all of them on the wire; then the channel stops
  waiting for writability, and if the user has shut the connection down meanwhile its socket is half-closed, and not before.
\<close>

theorem output_drains:
  assumes "tcp_inv s" and "active s" and "\<forall>n > 0. 0 < take_n n \<and> take_n n \<le> n" and "length (buf_content (outputBuffer s)) \<le> k"
  shows "\<exists>s'. write_rounds k take_n s = Inr s' \<and> wire s' = accepted s \<and> buf_content (outputBuffer s') = [] \<and>
    \<not> isWriting (channel s') \<and> state s' = state s \<and>
    (state s = kDisconnecting \<and> buf_content (outputBuffer s) \<noteq> [] \<longrightarrow> FxShutdownWrite \<in> set (fx s'))"
proof -
  have "\<exists>s'. write_rounds k take_n s = Inr s' \<and> tcp_inv s' \<and> accepted s' = accepted s \<and> buf_content (outputBuffer s') = [] \<and>
      state s' = state s \<and> set (fx s) \<subseteq> set (fx s') \<and>
      (state s = kDisconnecting \<and> buf_content (outputBuffer s) \<noteq> [] \<longrightarrow> FxShutdownWrite \<in> set (fx s'))"
    using assms(1,2,4)
  proof (induction k arbitrary: s)
    case (Suc k)
    let ?c = "buf_content (outputBuffer s)" and ?n = "take_n (readableBytes (outputBuffer s))"
    show ?case
    proof (cases "?c = []")
      case True
      with handleWrite_idle [OF Suc.prems(1,2)] Suc.IH [OF Suc.prems(1,2)] show ?thesis by simp
    next
      case False
      have "Buffer_inv (outputBuffer s)" using Suc.prems(1) by (simp add: tcp_inv_def tcp_data_def)
      then have "length ?c = readableBytes (outputBuffer s)" by (rule length_buf_content)
      then have n: "0 < ?n" "?n \<le> length ?c" using assms(3) False by auto
      from handleWrite_progress [OF Suc.prems(1,2) n] obtain t where t: "tcp_handleWrite (WriteOk ?n) s = Inr t" "tcp_inv t"
        "state t = state s" "accepted t = accepted s" "buf_content (outputBuffer t) = drop ?n ?c" "set (fx s) \<subseteq> set (fx t)"
        "buf_content (outputBuffer t) = [] \<and> state s = kDisconnecting \<longrightarrow> FxShutdownWrite \<in> set (fx t)" by blast
      have "active t" "length (buf_content (outputBuffer t)) \<le> k" using t(3,5) n Suc.prems(2,3) by (simp_all add: active_def)
      from Suc.IH [OF t(2) this] obtain u where u: "write_rounds k take_n t = Inr u" "tcp_inv u" "accepted u = accepted t"
        "buf_content (outputBuffer u) = []" "state u = state t" "set (fx t) \<subseteq> set (fx u)"
        "state t = kDisconnecting \<and> buf_content (outputBuffer t) \<noteq> [] \<longrightarrow> FxShutdownWrite \<in> set (fx u)" by blast
      have "FxShutdownWrite \<in> set (fx u)" if "state s = kDisconnecting" using that t(3,7) u(6,7) by auto
      moreover have "write_rounds (Suc k) take_n s = Inr u" "set (fx s) \<subseteq> set (fx u)" using t(1,6) u(1,6) by auto
      ultimately show ?thesis using t(3,4) u(2-5) by auto
    qed
  qed auto
  then obtain s' where s': "write_rounds k take_n s = Inr s'" "tcp_inv s'" "accepted s' = accepted s" "buf_content (outputBuffer s') = []"
    "state s' = state s" "state s = kDisconnecting \<and> buf_content (outputBuffer s) \<noteq> [] \<longrightarrow> FxShutdownWrite \<in> set (fx s')" by blast
  have "active s'" using assms(2) s'(5) by (simp add: active_def)
  with s'(2,4) have "\<not> isWriting (channel s')" "wire s' = accepted s'" by (simp_all add: tcp_inv_def tcp_data_def tcp_chan_active)
  with s' show ?thesis by auto
qed

text \<open>A connection with two bytes pending.\<close>

lemma pending_conn: "\<exists>s. tcp_inv s \<and> active s \<and> length (buf_content (outputBuffer s)) = 2"
proof -
  obtain s where s: "state s = kConnected" "wire s = accepted s" "tcp_inv s" "writerIndex (outputBuffer s) = kCheapPrepend"
    "\<not> highWaterMarkCallback s" using up_conn by blast
  then have out: "Buffer_inv (outputBuffer s)" "buf_content (outputBuffer s) = []" "active s"
    by (auto simp: active_def tcp_inv_def tcp_data_def)
  then have w: "\<not> isWriting (channel s)" "readableBytes (outputBuffer s) = 0"
    using s(3) tcp_chan_active [OF out(3)] by (simp_all add: tcp_inv_def buf_content_Nil_iff)
  have "buf_fits (outputBuffer s) (length ([2, 3] :: byte list))" by (simp add: buf_fits_def s(4) kCheapPrepend_def vector_max_size_def)
  from append_bytes_spec [OF out(1) this] obtain b where b: "append_bytes [2, 3] (outputBuffer s) = Inr b"
    "buf_content b = buf_content (outputBuffer s) @ [2, 3]" by blast
  then have "length (buf_content b) = 2" using out(2) by simp
  moreover obtain t where t: "sendInLoop [1, 2, 3] (WriteOk 1) s = Inr t" "outputBuffer t = b"
    using s(1,5) w b(1) by (simp add: sendInLoop_def send_direct_def Let_def)
  ultimately show ?thesis
    using sendInLoop_ok [OF s(3), of "WriteOk 1" "[1, 2, 3]"] s(1) by (auto simp: vector_max_size_def active_def)
qed

theorem output_drains_witness:
  "\<exists>s s' :: TcpConnection. length (buf_content (outputBuffer s)) = 2 \<and> write_rounds 2 (\<lambda>n. 1) s = Inr s' \<and>
     wire s' = accepted s \<and> \<not> isWriting (channel s')"
proof -
  obtain s where s: "tcp_inv s" "active s" "length (buf_content (outputBuffer s)) = 2" using pending_conn by blast
  then have "length (buf_content (outputBuffer s)) \<le> 2" by simp
  with output_drains [OF s(1,2), of "\<lambda>n. 1" 2] s(3) show ?thesis by auto
qed

text \<open>
  A message sent from another thread loses everything from its first NUL byte on: the
  functor turns the bound \<open>string\<close> into a \<open>StringPiece\<close> with \<open>strlen\<close>, so it behaves as if only the
  bytes before the NUL had been sent. The echo server loses them in the loop thread too.
\<close>

lemma queued_send_truncates:
  assumes "length str < 2 ^ 31"
  shows "run_queued_send str wr s = sendInLoop (takeWhile (\<lambda>c. c \<noteq> 0) str) wr s"
proof -
  let ?n = "length (takeWhile (\<lambda>c. c \<noteq> 0) str)"
  have n: "?n \<le> length str" by (rule length_takeWhile_le)
  have l: "to_int32 ?n = int ?n" using n assms by (intro to_int32_exact) linarith
  have "?n < 2 ^ 64" using n assms by simp
  then have "to_size_t (int ?n) = ?n" by (rule to_size_t_exact)
  moreover have "take ?n str = takeWhile (\<lambda>c. c \<noteq> 0) str" by (simp add: takeWhile_eq_take [symmetric])
  ultimately show ?thesis
    using n by (simp add: run_queued_send_def sp_of_string_def strlen_terminated l sendInLoop_piece_def)
qed

lemma queued_send_truncates_witness:
  "\<forall>s. run_queued_send [1, 0, 2] (WriteOk 1) s = sendInLoop [1] (WriteOk 1) s"
  using queued_send_truncates [of "[1, 0, 2]" "WriteOk 1"] by simp

text \<open>
  Property C21. Two ways to fail the assertion of \<open>Channel::remove\<close>: destroying a connection that was
  shut down but not yet closed by its peer (\<open>connectDestroyed\<close> disables the channel only in the
  state \<open>kConnected\<close>), and calling \<open>startRead\<close> on a closed connection before it is destroyed.
\<close>

theorem destroy_asserts:
  assumes "tcp_inv s"
  shows "(state s = kDisconnecting \<longrightarrow> connectDestroyed user s = Inl AssertFailed) \<and>
    (state s = kDisconnected \<longrightarrow> connectDestroyed user (startReadInLoop s) = Inl AssertFailed)"
proof (intro conjI impI)
  assume st: "state s = kDisconnecting"
  then have "isReading (channel s)" using assms tcp_chan_active [of s] by (simp add: tcp_inv_def active_def)
  then have "events (channel s) \<noteq> 0" by (rule reading_nonzero)
  with st show "connectDestroyed user s = Inl AssertFailed"
    by (simp add: connectDestroyed_def Channel_remove_def isNoneEvent_def kNoneEvent_def)
next
  assume st: "state s = kDisconnected"
  then have "events (channel s) = 0" using assms tcp_chan_disconnected [of s] by (simp add: tcp_inv_def)
  then have "\<not> isReading (channel s)" by (simp add: isReading_bit)
  moreover have "events (enableReading (channel s)) \<noteq> 0" by (rule reading_nonzero) (rule enable_keeps)
  ultimately show "connectDestroyed user (startReadInLoop s) = Inl AssertFailed"
    using st by (simp add: connectDestroyed_def startReadInLoop_def Channel_remove_def isNoneEvent_def kNoneEvent_def)
qed

theorem destroy_asserts_witness:
  "\<exists>s :: TcpConnection. state s = kDisconnecting \<and> connectDestroyed demo_conn_user s = Inl AssertFailed"
proof -
  obtain s where s: "state s = kConnected" "tcp_inv s" using up_conn by blast
  have "state (setState kDisconnecting s) = kDisconnecting" by (simp add: setState_def)
  with destroy_asserts [OF tcp_inv_connected [OF s(2,1)]] show ?thesis by blast
qed

end
