(* ===== verification/NW_Sockets.thy ===== *)
theory NW_Sockets
  imports NW_Buffer NW_Text
begin

unbundle bit_operations_syntax

text \<open>
  \<^verbatim>\<open>networker/net/SocketsOps.cpp\<close>, \<^verbatim>\<open>networker/net/Socket.cpp\<close> and
  \<^verbatim>\<open>networker/net/InetAddress.cpp\<close>: the wrappers of the socket calls, and addresses.

  The kernel keeps a descriptor table (\<open>fdflags\<close>: status and descriptor flags of every open
  descriptor) and the thread keeps \<open>errno\<close>; \<open>fcntl\<close> on a descriptor that is not open sets
  \<open>errno\<close> to \<open>EBADF\<close>, as documented. What a call such as \<open>accept\<close> or \<open>getsockname\<close>
  answers is an argument of the wrapper that makes it. The errno and flag values are those of
  Linux. \<open>InetAddress\<close> is the union of \<open>sockaddr_in\<close> and \<open>sockaddr_in6\<close> by offset, so that a
  field both structures place at one offset is one field here.
\<close>

section \<open>Errno values and flags\<close>

definition EPERM :: int where "EPERM = 1"
definition EINTR :: int where "EINTR = 4"
definition EBADF :: int where "EBADF = 9"
definition EAGAIN :: int where "EAGAIN = 11"
definition ENOMEM :: int where "ENOMEM = 12"
definition EACCES :: int where "EACCES = 13"
definition EFAULT :: int where "EFAULT = 14"
definition EINVAL :: int where "EINVAL = 22"
definition ENFILE :: int where "ENFILE = 23"
definition EMFILE :: int where "EMFILE = 24"
definition EPROTO :: int where "EPROTO = 71"
definition ENOTSOCK :: int where "ENOTSOCK = 88"
definition EOPNOTSUPP :: int where "EOPNOTSUPP = 95"
definition EAFNOSUPPORT :: int where "EAFNOSUPPORT = 97"
definition EADDRINUSE :: int where "EADDRINUSE = 98"
definition EADDRNOTAVAIL :: int where "EADDRNOTAVAIL = 99"
definition ENETUNREACH :: int where "ENETUNREACH = 101"
definition ECONNABORTED :: int where "ECONNABORTED = 103"
definition EISCONN :: int where "EISCONN = 106"
definition ENOBUFS :: int where "ENOBUFS = 105"
definition ECONNREFUSED :: int where "ECONNREFUSED = 111"
definition EALREADY :: int where "EALREADY = 114"
definition EINPROGRESS :: int where "EINPROGRESS = 115"

lemmas errno_defs = EPERM_def EINTR_def EBADF_def EAGAIN_def ENOMEM_def EACCES_def EFAULT_def
  EINVAL_def ENFILE_def EMFILE_def EPROTO_def ENOTSOCK_def EOPNOTSUPP_def EAFNOSUPPORT_def
  EADDRINUSE_def EADDRNOTAVAIL_def ENETUNREACH_def ECONNABORTED_def EISCONN_def ENOBUFS_def
  ECONNREFUSED_def EALREADY_def EINPROGRESS_def

definition O_RDWR :: "32 word" where "O_RDWR = 2"
definition O_NONBLOCK :: "32 word" where "O_NONBLOCK = 2048"
definition FD_CLOEXEC :: "32 word" where "FD_CLOEXEC = 1"

definition AF_INET :: "16 word" where "AF_INET = 2"
definition AF_INET6 :: "16 word" where "AF_INET6 = 10"

section \<open>The descriptor table\<close>

record kstate =
  kerrno :: int
  fdflags :: "int \<rightharpoonup> 32 word \<times> 32 word"

definition fcntl_GETFL :: "int \<Rightarrow> kstate \<Rightarrow> 32 word \<times> kstate" where
  "fcntl_GETFL n k = (case fdflags k n of None \<Rightarrow> (- 1, k\<lparr>kerrno := EBADF\<rparr>) | Some (fl, fdf) \<Rightarrow> (fl, k))"

definition fcntl_SETFL :: "int \<Rightarrow> 32 word \<Rightarrow> kstate \<Rightarrow> 32 word \<times> kstate" where
  "fcntl_SETFL n flags k =
     (case fdflags k n of None \<Rightarrow> (- 1, k\<lparr>kerrno := EBADF\<rparr>)
      | Some (fl, fdf) \<Rightarrow> (0, k\<lparr>fdflags := (fdflags k)(n \<mapsto> (flags, fdf))\<rparr>))"

definition fcntl_GETFD :: "int \<Rightarrow> kstate \<Rightarrow> 32 word \<times> kstate" where
  "fcntl_GETFD n k = (case fdflags k n of None \<Rightarrow> (- 1, k\<lparr>kerrno := EBADF\<rparr>) | Some (fl, fdf) \<Rightarrow> (fdf, k))"

definition fcntl_SETFD :: "int \<Rightarrow> 32 word \<Rightarrow> kstate \<Rightarrow> 32 word \<times> kstate" where
  "fcntl_SETFD n flags k =
     (case fdflags k n of None \<Rightarrow> (- 1, k\<lparr>kerrno := EBADF\<rparr>)
      | Some (fl, fdf) \<Rightarrow> (0, k\<lparr>fdflags := (fdflags k)(n \<mapsto> (fl, flags))\<rparr>))"

definition k_close :: "int \<Rightarrow> kstate \<Rightarrow> int \<times> kstate" where
  "k_close n k =
     (case fdflags k n of None \<Rightarrow> (- 1, k\<lparr>kerrno := EBADF\<rparr>)
      | Some _ \<Rightarrow> (0, k\<lparr>fdflags := (fdflags k)(n := None)\<rparr>))"

section \<open>Addresses\<close>

record InetAddress =
  sin_family :: "16 word"       \<comment> \<open>offset 0 of both structures\<close>
  sin_port :: "16 word"         \<comment> \<open>offset 2 of both structures, network order\<close>
  sin_addr :: "32 word"         \<comment> \<open>offset 4: \<open>sin_addr.s_addr\<close>, or \<open>sin6_flowinfo\<close>\<close>
  sin6_addr :: "byte list"      \<comment> \<open>offset 8, 16 bytes; \<open>sin_zero\<close> is its first half\<close>
  sin6_scope_id :: "32 word"    \<comment> \<open>offset 24\<close>

definition sockaddr_zero :: InetAddress where
  "sockaddr_zero = \<lparr>sin_family = 0, sin_port = 0, sin_addr = 0, sin6_addr = replicate 16 0, sin6_scope_id = 0\<rparr>"

text \<open>\<open>memZero(&addr_, sizeof(addr_))\<close> clears the 16 bytes of \<open>sockaddr_in\<close> only.\<close>

definition zero_addr4 :: "InetAddress \<Rightarrow> InetAddress" where
  "zero_addr4 old = old\<lparr>sin_family := 0, sin_port := 0, sin_addr := 0,
     sin6_addr := replicate 8 0 @ drop 8 (sin6_addr old)\<rparr>"

definition kInaddrAny :: "32 word" where "kInaddrAny = 0"

definition kInaddrLoopback :: "32 word" where "kInaddrLoopback = 2130706433"

definition in6addr_loopback :: "byte list" where
  "in6addr_loopback = replicate 15 0 @ [1]"

definition InetAddress_port :: "InetAddress \<Rightarrow> 16 word \<Rightarrow> bool \<Rightarrow> bool \<Rightarrow> InetAddress" where
  "InetAddress_port uninit port loopbackOnly ipv6 =
     (if ipv6 then sockaddr_zero\<lparr>sin_family := AF_INET6,
        sin6_addr := (if loopbackOnly then in6addr_loopback else replicate 16 0),
        sin_port := hostToNetwork16 port\<rparr>
      else (zero_addr4 uninit)\<lparr>sin_family := AF_INET,
        sin_addr := hostToNetwork32 (if loopbackOnly then kInaddrLoopback else kInaddrAny),
        sin_port := hostToNetwork16 port\<rparr>)"

text \<open>\<open>pton4\<close> and \<open>pton6\<close> are \<open>inet_pton\<close>: the address in network order, if the text is one.\<close>

definition fromIpPort4 :: "(string \<Rightarrow> 32 word option) \<Rightarrow> string \<Rightarrow> 16 word \<Rightarrow> InetAddress \<Rightarrow> InetAddress" where
  "fromIpPort4 pton4 ip port a =
     (let a' = a\<lparr>sin_family := AF_INET, sin_port := hostToNetwork16 port\<rparr>
      in case pton4 ip of Some w \<Rightarrow> a'\<lparr>sin_addr := w\<rparr> | None \<Rightarrow> a')"

definition fromIpPort6 :: "(string \<Rightarrow> byte list option) \<Rightarrow> string \<Rightarrow> 16 word \<Rightarrow> InetAddress \<Rightarrow> InetAddress" where
  "fromIpPort6 pton6 ip port a =
     (let a' = a\<lparr>sin_family := AF_INET6, sin_port := hostToNetwork16 port\<rparr>
      in case pton6 ip of Some bs \<Rightarrow> a'\<lparr>sin6_addr := bs\<rparr> | None \<Rightarrow> a')"

definition InetAddress_ip ::
    "(string \<Rightarrow> 32 word option) \<Rightarrow> (string \<Rightarrow> byte list option) \<Rightarrow> InetAddress \<Rightarrow> string \<Rightarrow> 16 word \<Rightarrow> bool \<Rightarrow> InetAddress" where
  "InetAddress_ip pton4 pton6 uninit ip port ipv6 =
     (if ipv6 then fromIpPort6 pton6 ip port sockaddr_zero
      else fromIpPort4 pton4 ip port (zero_addr4 uninit))"

definition ipNetEndian :: "InetAddress \<Rightarrow> 32 word result" where
  "ipNetEndian a = c_assert (sin_family a = AF_INET) (Inr (sin_addr a))"

definition toPort :: "InetAddress \<Rightarrow> 16 word" where
  "toPort a = networkToHost16 (sin_port a)"

definition setScopeId :: "32 word \<Rightarrow> InetAddress \<Rightarrow> InetAddress" where
  "setScopeId scope_id a = (if sin_family a = AF_INET6 then a\<lparr>sin6_scope_id := scope_id\<rparr> else a)"

text \<open>
  \<open>gethostbyname_r\<close> answers its return code and, if it found one, the address type, the
  length and the bytes of the first address.
\<close>

definition resolve ::
    "int \<times> (16 word \<times> nat \<times> 32 word) option \<Rightarrow> InetAddress \<Rightarrow> (bool \<times> InetAddress) result" where
  "resolve answer out =
     (case answer of (ret, he) \<Rightarrow>
       (case he of
          Some (ty, len, addr) \<Rightarrow>
            (if ret = 0 then c_assert (ty = AF_INET \<and> len = 4) (Inr (True, out\<lparr>sin_addr := addr\<rparr>))
             else Inr (False, out))
        | None \<Rightarrow> Inr (False, out)))"

text \<open>\<open>inet_ntop(AF_INET, ...)\<close>: the four bytes in memory order; \<open>ntop6\<close> is its IPv6 half.\<close>

definition ntop4 :: "32 word \<Rightarrow> string" where
  "ntop4 w = (case map (\<lambda>b. dec (unat b)) (le_bytes 4 w) of
     [a, b, c, d] \<Rightarrow> a @ ''.'' @ b @ ''.'' @ c @ ''.'' @ d | _ \<Rightarrow> [])"

definition INET_ADDRSTRLEN :: nat where "INET_ADDRSTRLEN = 16"

definition INET6_ADDRSTRLEN :: nat where "INET6_ADDRSTRLEN = 46"

text \<open>The text left in a buffer of \<open>sz\<close> bytes that held the empty string.\<close>

definition sockets_toIp :: "(byte list \<Rightarrow> string) \<Rightarrow> nat \<Rightarrow> InetAddress \<Rightarrow> string result" where
  "sockets_toIp ntop6 sz a =
     (if sin_family a = AF_INET then c_assert (sz \<ge> INET_ADDRSTRLEN) (Inr (ntop4 (sin_addr a)))
      else if sin_family a = AF_INET6 then c_assert (sz \<ge> INET6_ADDRSTRLEN) (Inr (ntop6 (sin6_addr a)))
      else Inr [])"

definition sockets_toIpPort :: "(byte list \<Rightarrow> string) \<Rightarrow> nat \<Rightarrow> InetAddress \<Rightarrow> string result" where
  "sockets_toIpPort ntop6 sz a =
     rbind (sockets_toIp ntop6 sz a) (\<lambda>ip.
       c_assert (sz > length ip)
         (Inr (ip @ c_snprintf (sz - length ip) ('':'' @ dec (unat (networkToHost16 (sin_port a)))))))"

definition toIpPort :: "(byte list \<Rightarrow> string) \<Rightarrow> InetAddress \<Rightarrow> string result" where
  "toIpPort ntop6 a = sockets_toIpPort ntop6 64 a"

definition toIp :: "(byte list \<Rightarrow> string) \<Rightarrow> InetAddress \<Rightarrow> string result" where
  "toIp ntop6 a = sockets_toIp ntop6 64 a"

section \<open>Socket calls\<close>

definition setNonBlockAndCloseOnExec :: "int \<Rightarrow> kstate \<Rightarrow> kstate" where
  "setNonBlockAndCloseOnExec sockfd k =
     (let (flags, k1) = fcntl_GETFL sockfd k;
          (ret, k2) = fcntl_SETFL sockfd (flags OR O_NONBLOCK) k1;
          (flags, k3) = fcntl_GETFD sockfd k2;
          (ret, k4) = fcntl_SETFD sockfd (flags OR FD_CLOEXEC) k3
      in k4)"

text \<open>\<open>socket(2)\<close>, given what it returns; a failure is only logged.\<close>

definition createNonblockingOrDie :: "int \<Rightarrow> int result" where
  "createNonblockingOrDie sys = Inr sys"

definition bindOrDie :: "int \<Rightarrow> unit result" where
  "bindOrDie ret = (if ret < 0 then Inl Fatal else Inr ())"

definition listenOrDie :: "int \<Rightarrow> unit result" where
  "listenOrDie ret = (if ret < 0 then Inl Fatal else Inr ())"

text \<open>What \<open>accept(2)\<close> does: a new descriptor with the peer's address, or an errno.\<close>

datatype accept_result = AcceptOk int InetAddress | AcceptErr int

definition k_accept :: "accept_result \<Rightarrow> kstate \<Rightarrow> (int \<times> InetAddress) \<times> kstate" where
  "k_accept r k =
     (case r of AcceptOk n a \<Rightarrow> ((n, a), k\<lparr>fdflags := (fdflags k)(n \<mapsto> (O_RDWR, 0))\<rparr>)
      | AcceptErr e \<Rightarrow> ((- 1, sockaddr_zero), k\<lparr>kerrno := e\<rparr>))"

definition sockets_accept :: "accept_result \<Rightarrow> kstate \<Rightarrow> ((int \<times> InetAddress) \<times> kstate) result" where
  "sockets_accept r k =
     (let ((connfd, addr), k1) = k_accept r k;
          k2 = setNonBlockAndCloseOnExec connfd k1
      in if connfd < 0
         then (let savedErrno = kerrno k2 in
               if savedErrno \<in> {EAGAIN, ECONNABORTED, EINTR, EPROTO, EPERM, EMFILE}
               then Inr ((connfd, addr), k2\<lparr>kerrno := savedErrno\<rparr>)
               else if savedErrno \<in> {EBADF, EFAULT, EINVAL, ENFILE, ENOBUFS, ENOMEM, ENOTSOCK, EOPNOTSUPP}
               then Inl Fatal
               else Inl Fatal)
         else Inr ((connfd, addr), k2))"

text \<open>\<open>Socket::accept\<close> stores the peer's address only when a connection came.\<close>

definition Socket_accept ::
    "accept_result \<Rightarrow> InetAddress \<Rightarrow> kstate \<Rightarrow> ((int \<times> InetAddress) \<times> kstate) result" where
  "Socket_accept r peeraddr k =
     rbind (sockets_accept r k) (\<lambda>((connfd, addr), k').
       Inr ((connfd, if connfd \<ge> 0 then addr else peeraddr), k'))"

definition sockets_close :: "int \<Rightarrow> kstate \<Rightarrow> kstate" where
  "sockets_close sockfd k = snd (k_close sockfd k)"

definition Socket_dtor :: "int \<Rightarrow> kstate \<Rightarrow> kstate" where
  "Socket_dtor sockfd k = sockets_close sockfd k"

text \<open>\<open>getsockopt(SO_ERROR)\<close> answers its return code, the option value and \<open>errno\<close>.\<close>

definition getSocketError :: "int \<times> int \<times> int \<Rightarrow> int" where
  "getSocketError answer = (case answer of (ret, optval, errno') \<Rightarrow> if ret < 0 then errno' else optval)"

text \<open>\<open>getsockname\<close> and \<open>getpeername\<close> answer an address or fail, which leaves it zeroed.\<close>

definition getLocalAddr :: "InetAddress option \<Rightarrow> InetAddress" where
  "getLocalAddr answer = (case answer of Some a \<Rightarrow> a | None \<Rightarrow> sockaddr_zero)"

definition getPeerAddr :: "InetAddress option \<Rightarrow> InetAddress" where
  "getPeerAddr answer = (case answer of Some a \<Rightarrow> a | None \<Rightarrow> sockaddr_zero)"

definition isSelfConnect :: "InetAddress option \<Rightarrow> InetAddress option \<Rightarrow> bool" where
  "isSelfConnect lans pans =
     (let localaddr = getLocalAddr lans; peeraddr = getPeerAddr pans in
      if sin_family localaddr = AF_INET
      then sin_port localaddr = sin_port peeraddr \<and> sin_addr localaddr = sin_addr peeraddr
      else if sin_family localaddr = AF_INET6
      then sin_port localaddr = sin_port peeraddr \<and> sin6_addr localaddr = sin6_addr peeraddr
      else False)"

text \<open>Socket options: which option is set to which value.\<close>

text \<open>
  The fields of the kernel's \<open>tcp_info\<close> that are printed, all unsigned. The answer of \<open>getsockopt\<close>
  is an argument; without it the buffer of the caller stays as it was.
\<close>

record tcp_info =
  tcpi_retransmits :: nat
  tcpi_rto :: nat
  tcpi_ato :: nat
  tcpi_snd_mss :: nat
  tcpi_rcv_mss :: nat
  tcpi_lost :: nat
  tcpi_retrans :: nat
  tcpi_rtt :: nat
  tcpi_rttvar :: nat
  tcpi_snd_ssthresh :: nat
  tcpi_snd_cwnd :: nat
  tcpi_total_retrans :: nat

definition tcp_info_text :: "tcp_info \<Rightarrow> string" where
  "tcp_info_text i =
     ''unrecovered='' @ dec (tcpi_retransmits i) @ '' rto='' @ dec (tcpi_rto i) @ '' ato='' @ dec (tcpi_ato i) @
     '' snd_mss='' @ dec (tcpi_snd_mss i) @ '' rcv_mss='' @ dec (tcpi_rcv_mss i) @ '' lost='' @ dec (tcpi_lost i) @
     '' retrans='' @ dec (tcpi_retrans i) @ '' rtt='' @ dec (tcpi_rtt i) @ '' rttvar='' @ dec (tcpi_rttvar i) @
     '' sshthresh='' @ dec (tcpi_snd_ssthresh i) @ '' cwnd='' @ dec (tcpi_snd_cwnd i) @
     '' total_retrans='' @ dec (tcpi_total_retrans i)"

definition getTcpInfoString :: "tcp_info option \<Rightarrow> nat \<Rightarrow> string \<Rightarrow> bool \<times> string" where
  "getTcpInfoString tcpi len buf =
     (case tcpi of None \<Rightarrow> (False, buf) | Some i \<Rightarrow> (True, c_snprintf len (tcp_info_text i)))"

definition conn_getTcpInfoString :: "tcp_info option \<Rightarrow> string" where
  "conn_getTcpInfoString tcpi = snd (getTcpInfoString tcpi 1024 [])"

datatype sockopt = TCP_NODELAY | SO_REUSEADDR | SO_REUSEPORT | SO_KEEPALIVE

type_synonym sockopts = "sockopt \<Rightarrow> int"

definition setTcpNoDelay :: "bool \<Rightarrow> sockopts \<Rightarrow> sockopts" where
  "setTcpNoDelay on o' = o'(TCP_NODELAY := (if on then 1 else 0))"

definition setReuseAddr :: "bool \<Rightarrow> sockopts \<Rightarrow> sockopts" where
  "setReuseAddr on o' = o'(SO_REUSEADDR := (if on then 1 else 0))"

definition setReusePort :: "bool \<Rightarrow> sockopts \<Rightarrow> sockopts" where
  "setReusePort on o' = o'(SO_REUSEPORT := (if on then 1 else 0))"

definition setKeepAlive :: "bool \<Rightarrow> sockopts \<Rightarrow> sockopts" where
  "setKeepAlive on o' = o'(SO_KEEPALIVE := (if on then 1 else 0))"

section \<open>Lemmas\<close>

lemma ntop4_length: "length (ntop4 w) \<le> 15"
proof -
  have d: "length (dec (unat b)) \<le> 3" for b :: byte
    using dec_length [of "unat b" 2] unsigned_less [of b, where 'a = nat] by simp
  show ?thesis
    using d [of "ucast w"] d [of "ucast (drop_bit 8 w)"] d [of "ucast (drop_bit 16 w)"] d [of "ucast (drop_bit 24 w)"]
    by (simp add: ntop4_def le_bytes_def upt_rec)
qed

lemma setNonBlock_closed:
  "fdflags k n = None \<Longrightarrow> setNonBlockAndCloseOnExec n k = k\<lparr>kerrno := EBADF\<rparr>"
  by (simp add: setNonBlockAndCloseOnExec_def fcntl_GETFL_def fcntl_SETFL_def fcntl_GETFD_def fcntl_SETFD_def)

lemma setNonBlock_open:
  "fdflags k n = Some (fl, fdf) \<Longrightarrow>
     setNonBlockAndCloseOnExec n k = k\<lparr>fdflags := (fdflags k)(n \<mapsto> (fl OR O_NONBLOCK, fdf OR FD_CLOEXEC))\<rparr>"
  by (simp add: setNonBlockAndCloseOnExec_def fcntl_GETFL_def fcntl_SETFL_def fcntl_GETFD_def fcntl_SETFD_def)

lemma sockets_accept_fails: "fdflags k (- 1) = None \<Longrightarrow> sockets_accept (AcceptErr e) k = Inl Fatal"
  by (simp add: sockets_accept_def k_accept_def setNonBlock_closed errno_defs Let_def)

lemma sockets_accept_ok:
  "0 \<le> n \<Longrightarrow> sockets_accept (AcceptOk n a) k =
     Inr ((n, a), k\<lparr>fdflags := (fdflags k)(n \<mapsto> (O_RDWR OR O_NONBLOCK, FD_CLOEXEC))\<rparr>)"
  by (simp add: sockets_accept_def k_accept_def setNonBlock_open)

text \<open>\<open>ntop6\<close> answers at most the 45 characters the system reserves for an IPv6 address.\<close>

definition ntop6_ok :: "(byte list \<Rightarrow> string) \<Rightarrow> bool" where
  "ntop6_ok ntop6 \<longleftrightarrow> (\<forall>bs. length (ntop6 bs) \<le> 45)"

lemma toIpPort_ok:
  assumes "ntop6_ok ntop6"
  obtains ip where "toIp ntop6 a = Inr ip" "length ip \<le> 45"
    "toIpPort ntop6 a = Inr (ip @ '':'' @ dec (unat (toPort a)))"
    "length (ip @ '':'' @ dec (unat (toPort a))) \<le> 51"
proof -
  obtain ip where ip: "toIp ntop6 a = Inr ip" "length ip \<le> 45"
  proof -
    have "\<exists>ip. toIp ntop6 a = Inr ip \<and> length ip \<le> 45"
      using assms ntop4_length [of "sin_addr a"]
      by (auto simp: toIp_def sockets_toIp_def ntop6_ok_def INET_ADDRSTRLEN_def INET6_ADDRSTRLEN_def)
    then show ?thesis using that by blast
  qed
  have port: "length (dec (unat (toPort a))) \<le> 5"
    using dec_length [of "unat (toPort a)" 4] unsigned_less [of "toPort a", where 'a = nat] by simp
  have "sockets_toIp ntop6 64 a = Inr ip" using ip(1) by (simp add: toIp_def)
  then have "toIpPort ntop6 a = Inr (ip @ '':'' @ dec (unat (toPort a)))"
    using ip(2) port
    by (simp add: toIpPort_def sockets_toIpPort_def c_snprintf_def c_assert_def toPort_def)
  with ip port that show ?thesis by auto
qed

lemma toPort_port: "toPort (InetAddress_port u p l v6) = p"
  by (simp add: toPort_def InetAddress_port_def networkToHost16_def hostToNetwork16_def bswap_bswap zero_addr4_def)

text \<open>The 1024 bytes that \<open>TcpConnection::getTcpInfoString\<close> provides are enough for every value of the 32-bit fields.\<close>

lemma tcp_info_text_fits:
  assumes "\<forall>f \<in> {tcpi_retransmits, tcpi_rto, tcpi_ato, tcpi_snd_mss, tcpi_rcv_mss, tcpi_lost, tcpi_retrans, tcpi_rtt,
      tcpi_rttvar, tcpi_snd_ssthresh, tcpi_snd_cwnd, tcpi_total_retrans}. f i < 2 ^ 32"
  shows "getTcpInfoString (Some i) 1024 buf = (True, tcp_info_text i)"
proof -
  have "length (dec (f i)) \<le> 10" if "f i < 2 ^ 32" for f :: "tcp_info \<Rightarrow> nat"
    using that dec_length [of "f i" 9] by simp
  from this [of tcpi_retransmits] this [of tcpi_rto] this [of tcpi_ato] this [of tcpi_snd_mss] this [of tcpi_rcv_mss]
    this [of tcpi_lost] this [of tcpi_retrans] this [of tcpi_rtt] this [of tcpi_rttvar] this [of tcpi_snd_ssthresh]
    this [of tcpi_snd_cwnd] this [of tcpi_total_retrans] assms
  have "length (tcp_info_text i) \<le> 1023" by (simp add: tcp_info_text_def)
  then show ?thesis by (simp add: getTcpInfoString_def c_snprintf_def)
qed

end
