(* ===== verification/NW_Sync.thy ===== *)
theory NW_Sync
  imports NW_Prelude
begin

text \<open>
  \<^verbatim>\<open>networker/base/Atomic.h\<close>, \<^verbatim>\<open>networker/base/MutexLock.h\<close>, \<^verbatim>\<open>networker/base/Condition.h\<close> and
  \<^verbatim>\<open>networker/base/CountDownLatch.cpp\<close>.

  An atomic integer is a machine word; its operations are the value they return and the new
  value. A mutex is the owner the pthread library knows and the \<open>holder_\<close> the class keeps beside
  it. The latch is a step relation of any number of threads that run \<open>wait\<close> or \<open>countDown\<close>: one
  step per access to shared state, with \<open>pthread_cond_wait\<close> split into going to sleep (which gives
  up the mutex) and coming back (which needs it), and spurious wake-ups allowed.
\<close>

section \<open>Atomic integers\<close>

definition getAndAdd :: "'a::len word \<Rightarrow> 'a word \<Rightarrow> 'a word \<times> 'a word" where
  "getAndAdd x v = (v, v + x)"

definition addAndGet :: "'a::len word \<Rightarrow> 'a word \<Rightarrow> 'a word \<times> 'a word" where
  "addAndGet x v = (case getAndAdd x v of (old, v') \<Rightarrow> (old + x, v'))"

definition incrementAndGet :: "'a::len word \<Rightarrow> 'a word \<times> 'a word" where
  "incrementAndGet v = addAndGet 1 v"

definition decrementAndGet :: "'a::len word \<Rightarrow> 'a word \<times> 'a word" where
  "decrementAndGet v = addAndGet (- 1) v"

definition getAndSet :: "'a::len word \<Rightarrow> 'a word \<Rightarrow> 'a word \<times> 'a word" where
  "getAndSet newValue v = (v, newValue)"

text \<open>\<open>__sync_val_compare_and_swap(&value_, 0, 0)\<close> leaves the value as it is.\<close>

definition atomic_get :: "'a::len word \<Rightarrow> 'a word \<times> 'a word" where
  "atomic_get v = (v, if v = 0 then 0 else v)"

section \<open>Mutex and condition\<close>

text \<open>Threads are their tids, which are positive; 0 is no thread.\<close>

record MutexLock =
  mowner :: nat
  mholder :: nat

definition MutexLock_ctor :: MutexLock where
  "MutexLock_ctor = \<lparr>mowner = 0, mholder = 0\<rparr>"

definition MutexLock_dtor :: "MutexLock \<Rightarrow> unit result" where
  "MutexLock_dtor m = c_assert (mholder m = 0) (Inr ())"

definition isLockedByThisThread :: "nat \<Rightarrow> MutexLock \<Rightarrow> bool" where
  "isLockedByThisThread tid m \<longleftrightarrow> mholder m = tid"

text \<open>\<open>lock\<close> returns once the mutex is free; \<open>None\<close> is that the thread has to wait.\<close>

definition mutex_lock :: "nat \<Rightarrow> MutexLock \<Rightarrow> MutexLock option" where
  "mutex_lock tid m = (if mowner m = 0 then Some (m\<lparr>mowner := tid, mholder := tid\<rparr>) else None)"

definition mutex_unlock :: "MutexLock \<Rightarrow> MutexLock" where
  "mutex_unlock m = m\<lparr>mholder := 0, mowner := 0\<rparr>"

text \<open>\<open>pthread_cond_wait\<close> works on the pthread mutex alone: \<open>holder_\<close> stays as it is.\<close>

definition cond_sleep :: "MutexLock \<Rightarrow> MutexLock" where
  "cond_sleep m = m\<lparr>mowner := 0\<rparr>"

definition cond_resume :: "nat \<Rightarrow> MutexLock \<Rightarrow> MutexLock option" where
  "cond_resume tid m = (if mowner m = 0 then Some (m\<lparr>mowner := tid\<rparr>) else None)"

section \<open>CountDownLatch\<close>

datatype latch_pc =
    WaitLock      \<comment> \<open>\<open>wait\<close>: before the lock\<close>
  | WaitCheck     \<comment> \<open>at the loop condition, mutex held\<close>
  | WaitSleep     \<comment> \<open>inside \<open>pthread_cond_wait\<close>, not signalled\<close>
  | WaitResume    \<comment> \<open>signalled, needs the mutex\<close>
  | WaitUnlock    \<comment> \<open>left the loop, mutex held\<close>
  | WaitDone
  | DownLock      \<comment> \<open>\<open>countDown\<close>: before the lock\<close>
  | DownDec       \<comment> \<open>before \<open>--count_\<close>, mutex held\<close>
  | DownNotify    \<comment> \<open>before the test for 0, mutex held\<close>
  | DownUnlock
  | DownDone

record latch =
  lcount :: int
  lmutex :: MutexLock
  lpc :: "nat \<Rightarrow> latch_pc"

definition at_pc :: "nat \<Rightarrow> latch_pc \<Rightarrow> latch \<Rightarrow> latch" where
  "at_pc t p s = s\<lparr>lpc := (lpc s)(t := p)\<rparr>"

definition wake_all :: "(nat \<Rightarrow> latch_pc) \<Rightarrow> nat \<Rightarrow> latch_pc" where
  "wake_all pc t = (if pc t = WaitSleep then WaitResume else pc t)"

definition CountDownLatch_ctor :: "int \<Rightarrow> (nat \<Rightarrow> latch_pc) \<Rightarrow> latch" where
  "CountDownLatch_ctor n pc = \<lparr>lcount = n, lmutex = MutexLock_ctor, lpc = pc\<rparr>"

text \<open>One step of thread \<open>t\<close>; \<open>None\<close> when it is blocked or has returned.\<close>

definition latch_run :: "nat \<Rightarrow> latch \<Rightarrow> latch option" where
  "latch_run t s =
     (case lpc s t of
        WaitLock \<Rightarrow> map_option (\<lambda>m. at_pc t WaitCheck (s\<lparr>lmutex := m\<rparr>)) (mutex_lock t (lmutex s))
      | WaitCheck \<Rightarrow> if lcount s > 0 then Some (at_pc t WaitSleep (s\<lparr>lmutex := cond_sleep (lmutex s)\<rparr>))
                     else Some (at_pc t WaitUnlock s)
      | WaitSleep \<Rightarrow> None
      | WaitResume \<Rightarrow> map_option (\<lambda>m. at_pc t WaitCheck (s\<lparr>lmutex := m\<rparr>)) (cond_resume t (lmutex s))
      | WaitUnlock \<Rightarrow> Some (at_pc t WaitDone (s\<lparr>lmutex := mutex_unlock (lmutex s)\<rparr>))
      | WaitDone \<Rightarrow> None
      | DownLock \<Rightarrow> map_option (\<lambda>m. at_pc t DownDec (s\<lparr>lmutex := m\<rparr>)) (mutex_lock t (lmutex s))
      | DownDec \<Rightarrow> Some (at_pc t DownNotify (s\<lparr>lcount := lcount s - 1\<rparr>))
      | DownNotify \<Rightarrow> Some (at_pc t DownUnlock
                       (if lcount s = 0 then s\<lparr>lpc := wake_all (lpc s)\<rparr> else s))
      | DownUnlock \<Rightarrow> Some (at_pc t DownDone (s\<lparr>lmutex := mutex_unlock (lmutex s)\<rparr>))
      | DownDone \<Rightarrow> None)"

inductive latch_step :: "latch \<Rightarrow> latch \<Rightarrow> bool" where
  run: "0 < t \<Longrightarrow> latch_run t s = Some s' \<Longrightarrow> latch_step s s'"
| spurious: "0 < t \<Longrightarrow> lpc s t = WaitSleep \<Longrightarrow> latch_step s (at_pc t WaitResume s)"

section \<open>Invariant of the latch\<close>

fun holds_mutex :: "latch_pc \<Rightarrow> bool" where
  "holds_mutex WaitCheck = True"
| "holds_mutex WaitUnlock = True"
| "holds_mutex DownDec = True"
| "holds_mutex DownNotify = True"
| "holds_mutex DownUnlock = True"
| "holds_mutex _ = False"

definition latch_init :: "latch \<Rightarrow> bool" where
  "latch_init s \<longleftrightarrow> (\<exists>n pc. 0 \<le> n \<and> (\<forall>t. pc t \<in> {WaitLock, DownLock}) \<and> s = CountDownLatch_ctor n pc)"

definition owner_inv :: "latch \<Rightarrow> bool" where
  "owner_inv s \<longleftrightarrow> (\<forall>t>0. holds_mutex (lpc s t) \<longleftrightarrow> mowner (lmutex s) = t)"

definition done_inv :: "latch \<Rightarrow> bool" where
  "done_inv s \<longleftrightarrow> (lcount s > 0 \<longrightarrow> (\<forall>t>0. lpc s t \<noteq> WaitUnlock \<and> lpc s t \<noteq> WaitDone))"

definition sleep_inv :: "latch \<Rightarrow> bool" where
  "sleep_inv s \<longleftrightarrow> lcount s > 0 \<or> lcount s = 0 \<and> (\<exists>u>0. lpc s u = DownNotify) \<or> (\<forall>t>0. lpc s t \<noteq> WaitSleep)"

definition latch_inv :: "latch \<Rightarrow> bool" where
  "latch_inv s \<longleftrightarrow> owner_inv s \<and> done_inv s \<and> sleep_inv s"

lemma latch_init_inv:
  assumes "latch_init s"
  shows "latch_inv s"
proof -
  from assms obtain n pc where s: "s = CountDownLatch_ctor n pc" and pc: "pc t = WaitLock \<or> pc t = DownLock" for t
    by (auto simp: latch_init_def)
  have "\<not> holds_mutex (pc t) \<and> pc t \<noteq> WaitUnlock \<and> pc t \<noteq> WaitDone \<and> pc t \<noteq> WaitSleep" for t
    using pc [of t] by auto
  then show ?thesis
    by (simp add: s latch_inv_def owner_inv_def done_inv_def sleep_inv_def CountDownLatch_ctor_def MutexLock_ctor_def)
qed

lemmas latch_run_defs = latch_run_def at_pc_def mutex_lock_def mutex_unlock_def
  cond_sleep_def cond_resume_def

lemma holds_wake_all [simp]: "holds_mutex (wake_all pc t) = holds_mutex (pc t)"
  by (simp add: wake_all_def)

lemma owner_unique:
  "owner_inv s \<Longrightarrow> 0 < t \<Longrightarrow> 0 < u \<Longrightarrow> holds_mutex (lpc s t) \<Longrightarrow> holds_mutex (lpc s u) \<Longrightarrow> t = u"
  by (simp add: owner_inv_def)

lemma latch_run_owner:
  assumes inv: "owner_inv s" and t: "0 < t" and run: "latch_run t s = Some s'"
  shows "owner_inv s'"
proof -
  have own: "holds_mutex (lpc s t) \<longleftrightarrow> mowner (lmutex s) = t" using inv t by (simp add: owner_inv_def)
  have others: "holds_mutex (lpc s' u) = holds_mutex (lpc s u)" if "u \<noteq> t" for u
    using run that by (cases "lpc s t") (auto simp: latch_run_defs split: if_splits)
  have "mowner (lmutex s') = (if holds_mutex (lpc s' t) then t else if holds_mutex (lpc s t) then 0 else mowner (lmutex s))"
    using run own by (cases "lpc s t") (auto simp: latch_run_defs split: if_splits)
  moreover have "mowner (lmutex s) = 0 \<or> mowner (lmutex s) = t" if "holds_mutex (lpc s' t)"
    using run own that by (cases "lpc s t") (auto simp: latch_run_defs split: if_splits)
  ultimately have "holds_mutex (lpc s' u) \<longleftrightarrow> mowner (lmutex s') = u" if "0 < u" for u
    using inv others [of u] own t that by (cases "u = t") (auto simp: owner_inv_def split: if_splits)
  then show ?thesis by (simp add: owner_inv_def)
qed

lemma latch_run_done:
  assumes "done_inv s" "0 < t" "latch_run t s = Some s'"
  shows "done_inv s'"
proof -
  have "lcount s' \<le> lcount s" "lpc s' u = WaitDone \<Longrightarrow> lpc s u = WaitDone \<or> lpc s u = WaitUnlock"
    "lpc s' u = WaitUnlock \<Longrightarrow> lpc s u = WaitUnlock \<or> lcount s \<le> 0" for u
    using assms(3) by (cases "lpc s t"; auto simp: latch_run_defs wake_all_def split: if_splits)+
  with assms(1) show ?thesis unfolding done_inv_def by (meson leD less_le_trans)
qed

text \<open>What a step does to the count, to the sleepers and to the threads that are about to signal.\<close>

lemma latch_run_frame:
  assumes "latch_run t s = Some s'"
  shows "lcount s' = (if lpc s t = DownDec then lcount s - 1 else lcount s)"
    and "lpc s t = DownDec \<Longrightarrow> lpc s' t = DownNotify"
    and "lpc s' u = WaitSleep \<Longrightarrow> lpc s u = WaitSleep \<or> lcount s > 0 \<and> lpc s t = WaitCheck"
    and "lpc s u = DownNotify \<Longrightarrow> lpc s t \<noteq> DownNotify \<Longrightarrow> lpc s' u = DownNotify"
    and "lpc s t = DownNotify \<Longrightarrow> lcount s = 0 \<Longrightarrow> lpc s' u \<noteq> WaitSleep"
  using assms by (cases "lpc s t"; auto simp: latch_run_defs wake_all_def split: if_splits)+

lemma latch_run_sleep:
  assumes "owner_inv s" "sleep_inv s" "0 < t" "latch_run t s = Some s'"
  shows "sleep_inv s'"
proof -
  note fr = latch_run_frame [OF assms(4)]
  consider "lpc s t = DownDec" | "lpc s t = DownNotify" | "lpc s t \<noteq> DownDec" "lpc s t \<noteq> DownNotify" by blast
  then show ?thesis
  proof cases
    case 1
    with owner_unique [OF assms(1,3)] have "\<not> (\<exists>u>0. lpc s u = DownNotify)"
      by fastforce
    with 1 assms(2,3) fr(1,2,3) show ?thesis by (auto simp: sleep_inv_def)
  next
    case 2
    with assms(2) fr(1,3,5) show ?thesis by (fastforce simp: sleep_inv_def)
  next
    case 3
    with assms(2) fr(1,3,4) show ?thesis unfolding sleep_inv_def by (metis (no_types) order_less_le)
  qed
qed

lemma latch_step_inv:
  assumes "latch_inv s" "latch_step s s'"
  shows "latch_inv s'"
  using assms(2)
proof (cases rule: latch_step.cases)
  case (run t)
  with assms(1) show ?thesis
    by (auto simp: latch_inv_def intro: latch_run_owner latch_run_done latch_run_sleep)
next
  case (spurious t)
  then have fr: "holds_mutex (lpc s' u) = holds_mutex (lpc s u)" "lmutex s' = lmutex s" "lcount s' = lcount s"
    "lpc s' u = DownNotify \<longleftrightarrow> lpc s u = DownNotify" "lpc s' u = WaitSleep \<Longrightarrow> lpc s u = WaitSleep"
    "lpc s' u = WaitDone \<longleftrightarrow> lpc s u = WaitDone" "lpc s' u = WaitUnlock \<longleftrightarrow> lpc s u = WaitUnlock" for u
    by (auto simp: at_pc_def split: if_splits)
  have "owner_inv s'" using assms(1) by (simp add: latch_inv_def owner_inv_def fr(1,2))
  moreover have "done_inv s'" using assms(1) by (simp add: latch_inv_def done_inv_def fr(3,6,7))
  moreover have "sleep_inv s'" using assms(1) fr(5) by (auto simp: latch_inv_def sleep_inv_def fr(3,4))
  ultimately show ?thesis by (simp add: latch_inv_def)
qed

interpretation latch: transition_system latch_init latch_step latch_inv
  by unfold_locales (auto intro: latch_init_inv latch_step_inv)

section \<open>Properties\<close>

text \<open>
  Property C28. A latch works, however its threads interleave and whatever spurious wake-ups come: at
  most one thread holds the mutex, \<open>wait\<close> returns only once the count has reached 0, and no
  wake-up is lost: when the count is not positive and no thread is between its decrement and its
  signal, no thread sleeps. A thread that is not asleep, not done and finds the mutex free can
  always make its next step.
\<close>

theorem latch_correct:
  assumes "latch_init s0" "latch_step\<^sup>*\<^sup>* s0 s"
  shows "(\<forall>t u. 0 < t \<and> 0 < u \<and> holds_mutex (lpc s t) \<and> holds_mutex (lpc s u) \<longrightarrow> t = u) \<and>
    (\<forall>t. 0 < t \<and> lpc s t = WaitDone \<longrightarrow> lcount s \<le> 0) \<and>
    (lcount s \<le> 0 \<and> (\<forall>u>0. lpc s u \<noteq> DownNotify) \<longrightarrow> (\<forall>t>0. lpc s t \<noteq> WaitSleep)) \<and>
    (\<forall>t. 0 < t \<and> lpc s t \<notin> {WaitSleep, WaitDone, DownDone} \<and> mowner (lmutex s) \<in> {0, t} \<longrightarrow>
       (\<exists>s'. latch_run t s = Some s'))"
proof (intro conjI)
  note inv = latch.reachable_inv [OF assms]
  show "\<forall>t u. 0 < t \<and> 0 < u \<and> holds_mutex (lpc s t) \<and> holds_mutex (lpc s u) \<longrightarrow> t = u"
    using inv owner_unique unfolding latch_inv_def by blast
  show "\<forall>t. 0 < t \<and> lpc s t = WaitDone \<longrightarrow> lcount s \<le> 0"
    using inv unfolding latch_inv_def done_inv_def by (meson not_le)
  show "lcount s \<le> 0 \<and> (\<forall>u>0. lpc s u \<noteq> DownNotify) \<longrightarrow> (\<forall>t>0. lpc s t \<noteq> WaitSleep)"
    using inv unfolding latch_inv_def sleep_inv_def by auto
  have "\<exists>s'. latch_run t s = Some s'"
    if t: "0 < t" "lpc s t \<notin> {WaitSleep, WaitDone, DownDone}" "mowner (lmutex s) \<in> {0, t}" for t
  proof -
    have "holds_mutex (lpc s t) \<or> mowner (lmutex s) = 0"
      using inv t unfolding latch_inv_def owner_inv_def by auto
    with t(2) show ?thesis by (cases "lpc s t") (auto simp: latch_run_defs)
  qed
  then show "\<forall>t. 0 < t \<and> lpc s t \<notin> {WaitSleep, WaitDone, DownDone} \<and> mowner (lmutex s) \<in> {0, t} \<longrightarrow>
       (\<exists>s'. latch_run t s = Some s')" by blast
qed

text \<open>A schedule: the threads that run, one after the other.\<close>

fun latch_schedule :: "nat list \<Rightarrow> latch \<Rightarrow> latch option" where
  "latch_schedule [] s = Some s"
| "latch_schedule (t # ts) s = Option.bind (latch_run t s) (latch_schedule ts)"

lemma latch_schedule_steps:
  "latch_schedule ts s = Some s' \<Longrightarrow> \<forall>t \<in> set ts. 0 < t \<Longrightarrow> latch_step\<^sup>*\<^sup>* s s'"
proof (induction ts s rule: latch_schedule.induct)
  case (2 t ts s)
  then obtain s1 where "latch_run t s = Some s1" "latch_schedule ts s1 = Some s'"
    by (auto simp: bind_eq_Some_conv)
  with 2 have "latch_step s s1" "latch_step\<^sup>*\<^sup>* s1 s'" by (auto intro: latch_step.run)
  then show ?case by simp
qed simp

text \<open>Thread 1 waits on a latch of 1, thread 2 counts it down.\<close>

abbreviation latch_example :: latch where
  "latch_example \<equiv> CountDownLatch_ctor 1 (\<lambda>t. if t = 1 then WaitLock else DownLock)"

lemma latch_example_run:
  "\<exists>s. latch_init latch_example \<and> latch_step\<^sup>*\<^sup>* latch_example s \<and> lpc s 1 = WaitResume \<and> lcount s = 0 \<and>
     mowner (lmutex s) = 0 \<and> (\<forall>t>0. lpc s t \<noteq> DownNotify)"
proof -
  obtain s where s: "latch_schedule [1, 1, 2, 2, 2, 2] latch_example = Some s"
    "lpc s = (\<lambda>t. if t = 1 then WaitResume else if t = 2 then DownDone else DownLock)"
    "lcount s = 0" "mowner (lmutex s) = 0"
    by (auto simp: CountDownLatch_ctor_def latch_run_defs MutexLock_ctor_def wake_all_def fun_eq_iff)
  have "latch_init latch_example"
    unfolding latch_init_def
    by (rule exI [of _ 1], rule exI [of _ "\<lambda>t. if t = 1 then WaitLock else DownLock"]) simp
  moreover have "latch_step\<^sup>*\<^sup>* latch_example s" by (rule latch_schedule_steps [OF s(1)]) simp
  ultimately show ?thesis using s(2-4) by (intro exI [of _ s]) simp
qed

theorem latch_correct_witness:
  "\<exists>s0 s :: latch. latch_init s0 \<and> latch_step\<^sup>*\<^sup>* s0 s \<and> lcount s = 0 \<and>
     (\<forall>t>0. lpc s t \<noteq> WaitSleep) \<and> (\<exists>s'. latch_run 1 s = Some s')"
proof -
  obtain s where s: "latch_init latch_example" "latch_step\<^sup>*\<^sup>* latch_example s" "lpc s 1 = WaitResume" "lcount s = 0"
    "mowner (lmutex s) = 0" "\<forall>t>0. lpc s t \<noteq> DownNotify"
    using latch_example_run by blast
  note ok = latch_correct [OF s(1,2)]
  have "lcount s \<le> 0" using s(4) by simp
  with ok s(6) have "\<forall>t>0. lpc s t \<noteq> WaitSleep" by blast
  moreover have "\<exists>s'. latch_run 1 s = Some s'"
    by (rule mp [OF spec [OF ok [THEN conjunct2, THEN conjunct2, THEN conjunct2], of 1]]) (use s(3,5) in simp)
  ultimately show ?thesis using s(1,2,4) by blast
qed

text \<open>
  \<open>Condition::wait\<close> does not maintain \<open>holder_\<close>. When a thread that holds the mutex
  waits, and another thread locks and unlocks it meanwhile, the first thread owns the mutex again
  after \<open>wait\<close> but \<open>isLockedByThisThread\<close> denies it, so that \<open>assertLocked\<close> would fail; and
  while it sleeps, \<open>isLockedByThisThread\<close> claims a mutex that is free.
\<close>

lemma wait_loses_holder:
  assumes "0 < t" "0 < u" "mowner m = 0"
  shows "\<exists>m1 m2 m3. mutex_lock t m = Some m1 \<and>
    mowner (cond_sleep m1) = 0 \<and> isLockedByThisThread t (cond_sleep m1) \<and>
    mutex_lock u (cond_sleep m1) = Some m2 \<and> cond_resume t (mutex_unlock m2) = Some m3 \<and>
    mowner m3 = t \<and> \<not> isLockedByThisThread t m3"
  using assms
  by (simp add: mutex_lock_def cond_sleep_def isLockedByThisThread_def mutex_unlock_def cond_resume_def)

lemma wait_loses_holder_witness:
  "\<exists>m3. cond_resume 1 (mutex_unlock (the (mutex_lock 2 (cond_sleep (the (mutex_lock 1 MutexLock_ctor)))))) = Some m3 \<and>
     mowner m3 = 1 \<and> \<not> isLockedByThisThread 1 m3"
  using wait_loses_holder [of 1 2 MutexLock_ctor] by (auto simp: MutexLock_ctor_def)

end
