(* ===== verification/NW_TcpServer.thy ===== *)
theory NW_TcpServer
  imports NW_Channel NW_Sockets NW_Sync "HOL-Library.List_Lexorder" "HOL-Library.Char_ord"
begin

unbundle bit_operations_syntax

text \<open>
  \<^verbatim>\<open>networker/net/Acceptor.cpp\<close>, \<^verbatim>\<open>networker/net/EventLoopThreadPool.cpp\<close> and
  \<^verbatim>\<open>networker/net/TcpServer.cpp\<close>.

  Loops are numbered; what the server asks of a loop with \<open>runInLoop\<close> and \<open>queueInLoop\<close> is
  recorded in \<open>posted\<close>, in the order of the calls, except that a call of
  \<open>removeConnectionInLoop\<close> from another thread waits in \<open>closing\<close> until the acceptor's
  loop runs it. A \<open>TcpConnectionPtr\<close> is the pointed-to connection's name, loop and descriptor
  with the number that made its name, which identifies the object. \<open>std::map<string, ...>\<close> is a
  list sorted by key. The steps of \<open>srv_step\<close> are the entries into the server: \<open>start\<close>, the
  listen functor, a readable listening socket, the close callback of a connection, and the
  removal functors.
\<close>

section \<open>Ordered maps\<close>

fun omap_set :: "'k::linorder \<Rightarrow> 'v \<Rightarrow> ('k \<times> 'v) list \<Rightarrow> ('k \<times> 'v) list" where
  "omap_set k v [] = [(k, v)]"
| "omap_set k v ((k', v') # m) =
     (if k < k' then (k, v) # (k', v') # m else if k = k' then (k, v) # m else (k', v') # omap_set k v m)"

definition omap_erase :: "'k \<Rightarrow> ('k \<times> 'v) list \<Rightarrow> ('k \<times> 'v) list \<times> nat" where
  "omap_erase k m = (filter (\<lambda>e. fst e \<noteq> k) m, if k \<in> fst ` set m then 1 else 0)"

lemma set_omap_set_fresh: "k \<notin> fst ` set m \<Longrightarrow> set (omap_set k v m) = insert (k, v) (set m)"
  by (induction k v m rule: omap_set.induct) auto

lemma omap_set_sorted: "strict_sorted (map fst m) \<Longrightarrow> strict_sorted (map fst (omap_set k v m))"
proof (induction k v m rule: omap_set.induct)
  case (2 k v k' v' m)
  have "fst ` set (omap_set k v m) \<subseteq> insert k (fst ` set m)"
    by (induction k v m rule: omap_set.induct) auto
  with 2 show ?case by fastforce
qed simp

section \<open>Threads of the pool\<close>

record EventLoopThreadPool =
  baseLoop :: nat
  pname :: string
  pstarted :: bool
  numThreads :: int
  nextIdx :: int
  threadNames :: "string list"
  loops :: "nat list"
  inited :: "nat list"         \<comment> \<open>the loops the init callback has run on\<close>

definition EventLoopThreadPool_ctor :: "nat \<Rightarrow> string \<Rightarrow> EventLoopThreadPool" where
  "EventLoopThreadPool_ctor base nm = \<lparr>baseLoop = base, pname = nm, pstarted = False, numThreads = 0,
     nextIdx = 0, threadNames = [], loops = [], inited = []\<rparr>"

definition setThreadNum :: "int \<Rightarrow> EventLoopThreadPool \<Rightarrow> EventLoopThreadPool" where
  "setThreadNum n p = p\<lparr>numThreads := n\<rparr>"

text \<open>
  One round of the loop of \<open>start\<close>: a thread that runs the callback on its own loop, whose
  address \<open>startLoop\<close> returns (\<open>new_loop i\<close>).
\<close>

definition pool_start_one :: "bool \<Rightarrow> (nat \<Rightarrow> nat) \<Rightarrow> nat \<Rightarrow> EventLoopThreadPool \<Rightarrow> EventLoopThreadPool" where
  "pool_start_one cb new_loop i p = p\<lparr>
     threadNames := threadNames p @ [c_snprintf (length (pname p) + 32) (pname p @ dec i)],
     loops := loops p @ [new_loop i],
     inited := (if cb then inited p @ [new_loop i] else inited p)\<rparr>"

definition pool_start :: "bool \<Rightarrow> bool \<Rightarrow> (nat \<Rightarrow> nat) \<Rightarrow> EventLoopThreadPool \<Rightarrow> EventLoopThreadPool result" where
  "pool_start isInLoopThread cb new_loop p =
     c_assert (\<not> pstarted p) (assertInLoopThread isInLoopThread (
       let p1 = p\<lparr>pstarted := True\<rparr>;
           p2 = fold (pool_start_one cb new_loop) [0..<nat (numThreads p1)] p1
       in Inr (if numThreads p2 = 0 \<and> cb then p2\<lparr>inited := inited p2 @ [baseLoop p2]\<rparr> else p2)))"

definition getNextLoop :: "bool \<Rightarrow> EventLoopThreadPool \<Rightarrow> (nat \<times> EventLoopThreadPool) result" where
  "getNextLoop isInLoopThread p =
     assertInLoopThread isInLoopThread (c_assert (pstarted p) (
       if loops p \<noteq> []
       then (if 0 \<le> nextIdx p \<and> nextIdx p < int (length (loops p))
             then (let lp = loops p ! nat (nextIdx p); n = nextIdx p + 1
                   in Inr (lp, p\<lparr>nextIdx := (if to_size_t n \<ge> length (loops p) then 0 else n)\<rparr>))
             else Inl OutOfBounds)
       else Inr (baseLoop p, p)))"

definition getLoopForHash :: "bool \<Rightarrow> nat \<Rightarrow> EventLoopThreadPool \<Rightarrow> nat result" where
  "getLoopForHash isInLoopThread hashCode p =
     assertInLoopThread isInLoopThread
       (Inr (if loops p \<noteq> [] then loops p ! (hashCode mod length (loops p)) else baseLoop p))"

definition getAllLoops :: "bool \<Rightarrow> EventLoopThreadPool \<Rightarrow> nat list result" where
  "getAllLoops isInLoopThread p =
     assertInLoopThread isInLoopThread (c_assert (pstarted p)
       (Inr (if loops p = [] then [baseLoop p] else loops p)))"

section \<open>Acceptor\<close>

record Acceptor =
  acceptFd :: int
  acceptChannel :: Channel
  acceptOpts :: sockopts
  hasNewConnectionCallback :: bool
  listenning :: bool
  idleFd :: int
  akern :: kstate

text \<open>\<open>sock\<close>, \<open>bindret\<close> and \<open>idle\<close> are what \<open>socket\<close>, \<open>bind\<close> and \<open>open\<close> return.\<close>

definition Acceptor_ctor :: "int \<Rightarrow> int \<Rightarrow> int \<Rightarrow> bool \<Rightarrow> kstate \<Rightarrow> Acceptor result" where
  "Acceptor_ctor sock bindret idle reuseport k =
     rbind (createNonblockingOrDie sock) (\<lambda>sfd. c_assert (idle \<ge> 0) (
       rbind (bindOrDie bindret) (\<lambda>_. Inr \<lparr>acceptFd = sfd, acceptChannel = Channel_ctor sfd,
         acceptOpts = setReusePort reuseport (setReuseAddr True (\<lambda>_. 0)),
         hasNewConnectionCallback = False, listenning = False, idleFd = idle, akern = k\<rparr>)))"

definition Acceptor_dtor :: "Acceptor \<Rightarrow> Acceptor result" where
  "Acceptor_dtor a =
     rbind (Channel_remove (disableAll (acceptChannel a))) (\<lambda>ch.
       Inr (a\<lparr>acceptChannel := ch, akern := snd (k_close (idleFd a) (akern a))\<rparr>))"

definition Acceptor_listen :: "bool \<Rightarrow> int \<Rightarrow> Acceptor \<Rightarrow> Acceptor result" where
  "Acceptor_listen isInLoopThread ret a =
     assertInLoopThread isInLoopThread (let a1 = a\<lparr>listenning := True\<rparr> in
       rbind (listenOrDie ret) (\<lambda>_. Inr (a1\<lparr>acceptChannel := enableReading (acceptChannel a1)\<rparr>)))"

text \<open>\<open>open("/dev/null", O_RDONLY | O_CLOEXEC)\<close>, given the descriptor it answers.\<close>

definition k_open :: "int \<Rightarrow> kstate \<Rightarrow> kstate" where
  "k_open n k = (if n \<ge> 0 then k\<lparr>fdflags := (fdflags k)(n \<mapsto> (0, FD_CLOEXEC))\<rparr> else k)"

text \<open>
  \<open>handleRead\<close>, with the call of \<open>newConnectionCallback_\<close> as its result. \<open>r2\<close> and \<open>idle\<close> are
  what the second \<open>accept\<close> and \<open>open("/dev/null")\<close> answer.
\<close>

definition Acceptor_handleRead ::
    "bool \<Rightarrow> accept_result \<Rightarrow> accept_result \<Rightarrow> int \<Rightarrow> Acceptor \<Rightarrow> ((int \<times> InetAddress) option \<times> Acceptor) result" where
  "Acceptor_handleRead isInLoopThread r r2 idle a =
     assertInLoopThread isInLoopThread (
       rbind (Socket_accept r (InetAddress_port sockaddr_zero 0 False False) (akern a)) (\<lambda>((connfd, peerAddr), k).
         if connfd \<ge> 0
         then (if hasNewConnectionCallback a then Inr (Some (connfd, peerAddr), a\<lparr>akern := k\<rparr>)
               else Inr (None, a\<lparr>akern := sockets_close connfd k\<rparr>))
         else if kerrno k = EMFILE
         then (let k1 = snd (k_close (idleFd a) k);
                   ((fd2, _), k2) = k_accept r2 k1;
                   k3 = snd (k_close fd2 k2)
               in Inr (None, a\<lparr>idleFd := idle, akern := k_open idle k3\<rparr>))
         else Inr (None, a\<lparr>akern := k\<rparr>)))"

section \<open>TcpServer\<close>

record conn_ref =
  cr_id :: nat
  cr_name :: string
  cr_loop :: nat
  cr_fd :: int

datatype srv_functor = S_listen | S_connectEstablished conn_ref | S_connectDestroyed conn_ref

datatype SrvOption = kNoReusePort | kReusePort

record TcpServer =
  ipPort :: string
  sname :: string
  acceptor :: Acceptor
  threadPool :: EventLoopThreadPool
  sstarted :: "32 word"
  nextConnId :: int
  connections :: "(string \<times> conn_ref) list"
  posted :: "(nat \<times> srv_functor) list"
  closing :: "conn_ref list"

definition TcpServer_ctor ::
    "(byte list \<Rightarrow> string) \<Rightarrow> nat \<Rightarrow> InetAddress \<Rightarrow> string \<Rightarrow> SrvOption \<Rightarrow> int \<Rightarrow> int \<Rightarrow> int \<Rightarrow> kstate \<Rightarrow> TcpServer result" where
  "TcpServer_ctor ntop6 loop listenAddr nameArg opt sock bindret idle k =
     rbind (toIpPort ntop6 listenAddr) (\<lambda>ipp.
       rbind (Acceptor_ctor sock bindret idle (opt = kReusePort) k) (\<lambda>acc.
         Inr \<lparr>ipPort = ipp, sname = nameArg, acceptor = acc\<lparr>hasNewConnectionCallback := True\<rparr>,
              threadPool = EventLoopThreadPool_ctor loop nameArg, sstarted = 0, nextConnId = 1,
              connections = [], posted = [], closing = []\<rparr>))"

definition srv_post :: "nat \<Rightarrow> srv_functor \<Rightarrow> TcpServer \<Rightarrow> TcpServer" where
  "srv_post lp f s = s\<lparr>posted := posted s @ [(lp, f)]\<rparr>"

definition TcpServer_dtor :: "bool \<Rightarrow> TcpServer \<Rightarrow> TcpServer result" where
  "TcpServer_dtor isInLoopThread s =
     assertInLoopThread isInLoopThread
       (Inr (fold (\<lambda>item. srv_post (cr_loop (snd item)) (S_connectDestroyed (snd item))) (connections s) s))"

definition srv_setThreadNum :: "int \<Rightarrow> TcpServer \<Rightarrow> TcpServer result" where
  "srv_setThreadNum n s = c_assert (0 \<le> n) (Inr (s\<lparr>threadPool := setThreadNum n (threadPool s)\<rparr>))"

definition srv_start :: "bool \<Rightarrow> bool \<Rightarrow> (nat \<Rightarrow> nat) \<Rightarrow> TcpServer \<Rightarrow> TcpServer result" where
  "srv_start isInLoopThread cb new_loop s =
     (case getAndSet 1 (sstarted s) of (old, new) \<Rightarrow>
       let s1 = s\<lparr>sstarted := new\<rparr> in
       if old = 0
       then rbind (pool_start isInLoopThread cb new_loop (threadPool s1)) (\<lambda>p.
              c_assert (\<not> listenning (acceptor s1))
                (Inr (srv_post (baseLoop p) S_listen (s1\<lparr>threadPool := p\<rparr>))))
       else Inr s1)"

definition srv_newConnection :: "bool \<Rightarrow> int \<Rightarrow> InetAddress \<Rightarrow> TcpServer \<Rightarrow> TcpServer result" where
  "srv_newConnection isInLoopThread sockfd peerAddr s =
     assertInLoopThread isInLoopThread (
       rbind (getNextLoop True (threadPool s)) (\<lambda>(ioLoop, p).
         let buf = c_snprintf 64 (''-'' @ ipPort s @ ''#'' @ dec_int (nextConnId s)) in
         if nextConnId s = 2 ^ 31 - 1 then Inl SignedOverflow
         else
           let connName = sname s @ buf;
               conn = \<lparr>cr_id = nat (nextConnId s), cr_name = connName, cr_loop = ioLoop, cr_fd = sockfd\<rparr>;
               s1 = s\<lparr>threadPool := p, nextConnId := nextConnId s + 1,
                      connections := omap_set connName conn (connections s)\<rparr>
           in Inr (srv_post ioLoop (S_connectEstablished conn) s1)))"

definition removeConnectionInLoop :: "bool \<Rightarrow> conn_ref \<Rightarrow> TcpServer \<Rightarrow> TcpServer result" where
  "removeConnectionInLoop isInLoopThread conn s =
     assertInLoopThread isInLoopThread (
       case omap_erase (cr_name conn) (connections s) of (m, n) \<Rightarrow>
         c_assert (n = 1) (Inr (srv_post (cr_loop conn) (S_connectDestroyed conn) (s\<lparr>connections := m\<rparr>))))"

definition removeConnection :: "bool \<Rightarrow> conn_ref \<Rightarrow> TcpServer \<Rightarrow> TcpServer result" where
  "removeConnection isInLoopThread conn s =
     (if isInLoopThread then removeConnectionInLoop True conn s
      else Inr (s\<lparr>closing := closing s @ [conn]\<rparr>))"

text \<open>A readable listening socket: \<open>Acceptor::handleRead\<close> with the server's callback.\<close>

definition srv_handleRead ::
    "accept_result \<Rightarrow> accept_result \<Rightarrow> int \<Rightarrow> TcpServer \<Rightarrow> TcpServer result" where
  "srv_handleRead r r2 idle s =
     rbind (Acceptor_handleRead True r r2 idle (acceptor s)) (\<lambda>(call, acc).
       let s1 = s\<lparr>acceptor := acc\<rparr> in
       case call of Some (connfd, peerAddr) \<Rightarrow> srv_newConnection True connfd peerAddr s1 | None \<Rightarrow> Inr s1)"

section \<open>The pool\<close>

text \<open>The loops \<open>k\<close> calls of \<open>getNextLoop\<close> return.\<close>

fun next_loops :: "nat \<Rightarrow> EventLoopThreadPool \<Rightarrow> (nat list \<times> EventLoopThreadPool) result" where
  "next_loops 0 p = Inr ([], p)"
| "next_loops (Suc k) p =
     rbind (next_loops k p) (\<lambda>(ls, p1). rbind (getNextLoop True p1) (\<lambda>(l, p2). Inr (ls @ [l], p2)))"

definition pool_loop :: "EventLoopThreadPool \<Rightarrow> nat \<Rightarrow> nat" where
  "pool_loop p i = (if loops p = [] then baseLoop p else loops p ! (i mod length (loops p)))"

definition pool_at :: "nat \<Rightarrow> EventLoopThreadPool \<Rightarrow> bool" where
  "pool_at i p \<longleftrightarrow> pstarted p \<and> length (loops p) < 2 ^ 31 \<and>
     (loops p \<noteq> [] \<longrightarrow> nextIdx p = int (i mod length (loops p)))"

lemma fold_start_one:
  "fold (pool_start_one cb nl) is p = p\<lparr>
     threadNames := threadNames p @ map (\<lambda>i. c_snprintf (length (pname p) + 32) (pname p @ dec i)) is,
     loops := loops p @ map nl is, inited := (if cb then inited p @ map nl is else inited p)\<rparr>"
  by (induction "is" arbitrary: p) (simp_all add: pool_start_one_def)

lemma getNextLoop_at:
  assumes "pool_at i p"
  shows "\<exists>p'. getNextLoop True p = Inr (pool_loop p i, p') \<and> pool_at (Suc i) p' \<and>
    loops p' = loops p \<and> baseLoop p' = baseLoop p"
proof (cases "loops p = []")
  case True
  with assms show ?thesis
    by (simp add: getNextLoop_def assertInLoopThread_def pool_at_def pool_loop_def)
next
  case False
  let ?n = "length (loops p)" and ?i = "i mod length (loops p)"
  have n: "?i < ?n" "nextIdx p = int ?i" "pstarted p" "?n < 2 ^ 31" using assms False by (auto simp: pool_at_def)
  have size: "to_size_t (int ?i + 1) = Suc ?i"
    using to_size_t_exact [of "Suc ?i"] n by (simp add: add.commute)
  have suc: "Suc i mod ?n = (if Suc ?i \<ge> ?n then 0 else Suc ?i)"
    using n(1) by (simp add: mod_Suc)
  show ?thesis
    using False n size suc
    by (auto simp: getNextLoop_def assertInLoopThread_def pool_at_def pool_loop_def Let_def)
qed

lemma next_loops_at:
  assumes "pool_at i p"
  shows "\<exists>p'. next_loops k p = Inr (map (pool_loop p) [i..<i + k], p') \<and> pool_at (i + k) p' \<and>
    loops p' = loops p \<and> baseLoop p' = baseLoop p"
proof (induction k)
  case (Suc k)
  then obtain p1 where p1: "next_loops k p = Inr (map (pool_loop p) [i..<i + k], p1)" "pool_at (i + k) p1"
    "loops p1 = loops p" "baseLoop p1 = baseLoop p" by blast
  then have "pool_loop p1 = pool_loop p" by (simp add: pool_loop_def fun_eq_iff)
  with getNextLoop_at [OF p1(2)] p1 show ?case by auto
qed (use assms in simp)

lemma pool_start_ctor:
  assumes "0 \<le> n" "n < 2 ^ 31"
  shows "\<exists>p. pool_start True cb nl (setThreadNum n (EventLoopThreadPool_ctor base nm)) = Inr p \<and> pool_at 0 p \<and>
    baseLoop p = base \<and> loops p = map nl [0..<nat n] \<and> threadNames p = map (\<lambda>i. nm @ dec i) [0..<nat n] \<and>
    inited p = (if cb then if n = 0 then [base] else map nl [0..<nat n] else [])"
proof -
  have "length (dec i) \<le> 31" if "i < nat n" for i
  proof -
    have "i < 10 ^ Suc 30" using that assms by (simp add: nat_less_iff)
    from dec_length [OF this] show ?thesis by simp
  qed
  then have "c_snprintf (length nm + 32) (nm @ dec i) = nm @ dec i" if "i < nat n" for i
    using that by (simp add: c_snprintf_def)
  with assms show ?thesis
    by (auto simp: pool_start_def setThreadNum_def EventLoopThreadPool_ctor_def assertInLoopThread_def
        fold_start_one pool_at_def Let_def)
qed

section \<open>The life of the server\<close>

fun est_of :: "(nat \<times> srv_functor) list \<Rightarrow> conn_ref list" where
  "est_of [] = []"
| "est_of ((l, S_connectEstablished c) # ps) = c # est_of ps"
| "est_of ((l, S_listen) # ps) = est_of ps"
| "est_of ((l, S_connectDestroyed c) # ps) = est_of ps"

fun dest_of :: "(nat \<times> srv_functor) list \<Rightarrow> conn_ref list" where
  "dest_of [] = []"
| "dest_of ((l, S_connectDestroyed c) # ps) = c # dest_of ps"
| "dest_of ((l, S_listen) # ps) = dest_of ps"
| "dest_of ((l, S_connectEstablished c) # ps) = dest_of ps"

lemma est_of_append [simp]: "est_of (xs @ ys) = est_of xs @ est_of ys"
  by (induction xs rule: est_of.induct) auto

lemma dest_of_append [simp]: "dest_of (xs @ ys) = dest_of xs @ dest_of ys"
  by (induction xs rule: dest_of.induct) auto

abbreviation established :: "TcpServer \<Rightarrow> conn_ref list" where
  "established s \<equiv> est_of (posted s)"

abbreviation destroyed :: "TcpServer \<Rightarrow> conn_ref list" where
  "destroyed s \<equiv> dest_of (posted s)"

datatype srv_action =
    SrvStart bool "nat \<Rightarrow> nat"
  | SrvListen int
  | SrvAccept int InetAddress
  | SrvClose conn_ref
  | SrvRemove

fun srv_do :: "srv_action \<Rightarrow> TcpServer \<Rightarrow> TcpServer result" where
  "srv_do (SrvStart cb new_loop) s = srv_start True cb new_loop s"
| "srv_do (SrvListen ret) s = rbind (Acceptor_listen True ret (acceptor s)) (\<lambda>a. Inr (s\<lparr>acceptor := a\<rparr>))"
| "srv_do (SrvAccept n a) s = srv_handleRead (AcceptOk n a) (AcceptErr EAGAIN) 0 s"
| "srv_do (SrvClose c) s = removeConnection (cr_loop c = baseLoop (threadPool s)) c s"
| "srv_do SrvRemove s =
     (case closing s of [] \<Rightarrow> Inr s | c # cs \<Rightarrow> removeConnectionInLoop True c (s\<lparr>closing := cs\<rparr>))"

text \<open>
  A connection calls its close callback once, after it was established and before it is
  destroyed; the identifiers do not run out.
\<close>

fun srv_allowed :: "srv_action \<Rightarrow> TcpServer \<Rightarrow> bool" where
  "srv_allowed (SrvStart cb new_loop) s \<longleftrightarrow> True"
| "srv_allowed (SrvListen ret) s \<longleftrightarrow> S_listen \<in> snd ` set (posted s) \<and> 0 \<le> ret"
| "srv_allowed (SrvAccept n a) s \<longleftrightarrow> listenning (acceptor s) \<and> 0 \<le> n \<and> nextConnId s < 2 ^ 31 - 1"
| "srv_allowed (SrvClose c) s \<longleftrightarrow> c \<in> set (established s) - set (destroyed s) - set (closing s)"
| "srv_allowed SrvRemove s \<longleftrightarrow> closing s \<noteq> []"

inductive srv_step :: "TcpServer \<Rightarrow> TcpServer \<Rightarrow> bool" where
  "srv_allowed a s \<Longrightarrow> srv_do a s = Inr t \<Longrightarrow> srv_step s t"

definition srv_init :: "(byte list \<Rightarrow> string) \<Rightarrow> TcpServer \<Rightarrow> bool" where
  "srv_init ntop6 s \<longleftrightarrow> (\<exists>loop addr nm opt sock bindret idle k n s0. 0 \<le> n \<and> n < 2 ^ 31 \<and>
     TcpServer_ctor ntop6 loop addr nm opt sock bindret idle k = Inr s0 \<and> srv_setThreadNum n s0 = Inr s)"

section \<open>Invariant\<close>

definition conn_name :: "TcpServer \<Rightarrow> nat \<Rightarrow> string" where
  "conn_name s i = sname s @ ''-'' @ ipPort s @ ''#'' @ dec i"

definition srv_names :: "TcpServer \<Rightarrow> bool" where
  "srv_names s \<longleftrightarrow> length (ipPort s) \<le> 51 \<and> 1 \<le> nextConnId s \<and> nextConnId s < 2 ^ 31 \<and>
     map cr_id (established s) = [1..<nat (nextConnId s)] \<and>
     (\<forall>c \<in> set (established s). cr_name c = conn_name s (cr_id c))"

definition srv_map :: "TcpServer \<Rightarrow> bool" where
  "srv_map s \<longleftrightarrow> distinct (destroyed s @ closing s) \<and> set (closing s) \<union> set (destroyed s) \<subseteq> set (established s) \<and>
     strict_sorted (map fst (connections s)) \<and>
     set (connections s) = (\<lambda>c. (cr_name c, c)) ` (set (established s) - set (destroyed s))"

definition srv_posts :: "TcpServer \<Rightarrow> bool" where
  "srv_posts s \<longleftrightarrow>
     (\<forall>l c. (l, S_connectEstablished c) \<in> set (posted s) \<or> (l, S_connectDestroyed c) \<in> set (posted s) \<longrightarrow> l = cr_loop c) \<and>
     (\<forall>n. set (dest_of (take n (posted s))) \<subseteq> set (est_of (take n (posted s))))"

definition srv_pool :: "TcpServer \<Rightarrow> bool" where
  "srv_pool s \<longleftrightarrow> hasNewConnectionCallback (acceptor s) \<and>
     (if sstarted s = 0
      then posted s = [] \<and> \<not> listenning (acceptor s) \<and> \<not> pstarted (threadPool s) \<and> loops (threadPool s) = [] \<and>
           nextIdx (threadPool s) = 0 \<and> 0 \<le> numThreads (threadPool s) \<and> numThreads (threadPool s) < 2 ^ 31
      else pool_at (nat (nextConnId s - 1)) (threadPool s)) \<and>
     map cr_loop (established s) = map (pool_loop (threadPool s)) [0..<length (established s)]"

definition srv_inv :: "TcpServer \<Rightarrow> bool" where
  "srv_inv s \<longleftrightarrow> srv_names s \<and> srv_map s \<and> srv_posts s \<and> srv_pool s"

lemmas srv_inv_defs = srv_inv_def srv_names_def srv_map_def srv_posts_def srv_pool_def

lemma srv_init_inv:
  assumes "ntop6_ok ntop6" "srv_init ntop6 s"
  shows "srv_inv s"
proof -
  from assms(2) obtain loop addr nm opt sock bindret idle k n s0 where n: "0 \<le> n" "n < 2 ^ 31"
    and ctor: "TcpServer_ctor ntop6 loop addr nm opt sock bindret idle k = Inr s0" "srv_setThreadNum n s0 = Inr s"
    by (auto simp: srv_init_def)
  obtain ipp where ipp: "toIpPort ntop6 addr = Inr ipp" "length ipp \<le> 51"
    using toIpPort_ok [OF assms(1), of addr] by metis
  with ctor n show ?thesis
    by (auto simp: TcpServer_ctor_def srv_setThreadNum_def Acceptor_ctor_def createNonblockingOrDie_def bindOrDie_def
        result_simps srv_inv_defs setThreadNum_def EventLoopThreadPool_ctor_def split: if_splits)
qed

text \<open>Appending a functor keeps establishments before destructions.\<close>

lemma ordered_snoc:
  assumes "\<forall>n. set (dest_of (take n ps)) \<subseteq> set (est_of (take n ps))"
    and "set (dest_of (ps @ [x])) \<subseteq> set (est_of (ps @ [x]))"
  shows "\<forall>n. set (dest_of (take n (ps @ [x]))) \<subseteq> set (est_of (take n (ps @ [x])))"
proof
  fix n
  show "set (dest_of (take n (ps @ [x]))) \<subseteq> set (est_of (take n (ps @ [x])))"
  proof (cases "n \<le> length ps")
    case True
    with assms(1) show ?thesis by simp
  next
    case False
    then have "take n (ps @ [x]) = ps @ [x]" by simp
    with assms(2) show ?thesis by (simp only:)
  qed
qed

lemma srv_posts_snoc:
  assumes "srv_posts s" "posted u = posted s @ [(cr_loop c, f)]" "f = S_connectEstablished c \<or> f = S_connectDestroyed c"
    and "set (destroyed u) \<subseteq> set (established u)"
  shows "srv_posts u"
proof -
  have "\<forall>n. set (dest_of (take n (posted u))) \<subseteq> set (est_of (take n (posted u)))"
    unfolding assms(2) by (rule ordered_snoc) (use assms in \<open>simp_all add: srv_posts_def\<close>)
  with assms(1-3) show ?thesis by (auto simp: srv_posts_def)
qed

lemma srv_initI:
  "0 \<le> n \<Longrightarrow> n < 2 ^ 31 \<Longrightarrow> TcpServer_ctor ntop6 loop addr nm opt sock bindret idle k = Inr s0 \<Longrightarrow>
     srv_setThreadNum n s0 = Inr s \<Longrightarrow> srv_init ntop6 s"
  unfolding srv_init_def by blast

lemma conn_name_inj: "conn_name s i = conn_name s j \<Longrightarrow> i = j"
  by (simp add: conn_name_def dec_inj)

text \<open>The 64-byte buffer of \<open>newConnection\<close> always holds the whole suffix.\<close>

lemma name_fits:
  assumes "length (ipPort s) \<le> 51" "1 \<le> nextConnId s" "nextConnId s < 2 ^ 31"
  shows "sname s @ c_snprintf 64 (''-'' @ ipPort s @ ''#'' @ dec_int (nextConnId s)) = conn_name s (nat (nextConnId s))"
proof -
  have "nat (nextConnId s) < 10 ^ Suc 9" using assms by (simp add: nat_less_iff)
  from dec_length [OF this] assms show ?thesis
    by (simp add: c_snprintf_def dec_int_def conn_name_def)
qed

lemma map_ids_distinct:
  assumes "map cr_id cs = [1..<n]" "c \<in> set cs" "d \<in> set cs" "cr_id c = cr_id d"
  shows "c = d"
proof -
  have "inj_on cr_id (set cs)" using assms(1) by (metis distinct_map distinct_upt)
  with assms show ?thesis by (simp add: inj_on_eq_iff)
qed

lemma srv_start_inv:
  assumes "srv_inv s"
  shows "\<exists>t. srv_start True cb nl s = Inr t \<and> srv_inv t"
proof (cases "sstarted s = 0")
  case False
  with assms show ?thesis
    by (auto simp: srv_start_def getAndSet_def srv_inv_defs conn_name_def)
next
  case True
  then have st: "posted s = []" "\<not> listenning (acceptor s)" "\<not> pstarted (threadPool s)" "loops (threadPool s) = []"
    "nextIdx (threadPool s) = 0" "0 \<le> numThreads (threadPool s)" "numThreads (threadPool s) < 2 ^ 31"
    using assms by (auto simp: srv_inv_def srv_pool_def)
  then have "map cr_id (established s) = []" by simp
  then have "[1..<nat (nextConnId s)] = []" "1 \<le> nextConnId s"
    using assms by (simp_all add: srv_inv_def srv_names_def)
  then have "nextConnId s = 1" by (auto simp: upt_eq_Nil_conv)
  with st assms True show ?thesis
    by (auto simp: srv_start_def getAndSet_def pool_start_def assertInLoopThread_def Let_def fold_start_one srv_post_def
        srv_inv_defs pool_at_def conn_name_def take_Cons' split: if_splits)
qed

lemma newConnection_inv:
  assumes inv: "srv_inv s" and started: "sstarted s \<noteq> 0" and ids: "nextConnId s < 2 ^ 31 - 1"
  shows "\<exists>t. srv_newConnection True n a s = Inr t \<and> srv_inv t"
proof -
  let ?i = "nat (nextConnId s)"
  have names: "srv_names s" and mp: "srv_map s" and posts: "srv_posts s" and pool: "srv_pool s"
    using inv by (auto simp: srv_inv_def)
  have id1: "1 \<le> nextConnId s" using names by (simp add: srv_names_def)
  have len: "length (established s) = ?i - 1"
    using names unfolding srv_names_def by (metis length_map length_upt)
  have "nat (nextConnId s - 1) = ?i - 1" by simp
  with pool started have "pool_at (?i - 1) (threadPool s)" by (simp add: srv_pool_def)
  from getNextLoop_at [OF this] obtain p where p: "getNextLoop True (threadPool s) = Inr (pool_loop (threadPool s) (?i - 1), p)"
    "pool_at ?i p" "loops p = loops (threadPool s)" "baseLoop p = baseLoop (threadPool s)" using id1 by auto
  then have pl: "pool_loop p = pool_loop (threadPool s)" by (simp add: pool_loop_def fun_eq_iff)
  define c where "c = \<lparr>cr_id = ?i, cr_name = conn_name s ?i, cr_loop = pool_loop (threadPool s) (?i - 1), cr_fd = n\<rparr>"
  define t where "t = s\<lparr>threadPool := p, nextConnId := nextConnId s + 1,
    connections := omap_set (cr_name c) c (connections s), posted := posted s @ [(cr_loop c, S_connectEstablished c)]\<rparr>"
  have "sname s @ c_snprintf 64 (''-'' @ ipPort s @ ''#'' @ dec_int (nextConnId s)) = conn_name s ?i"
    using names by (intro name_fits) (simp_all add: srv_names_def)
  note nm = this [simplified]
  have run: "srv_newConnection True n a s = Inr t"
    using ids by (simp add: srv_newConnection_def assertInLoopThread_def p(1) Let_def nm srv_post_def t_def c_def)
  have est: "established t = established s @ [c]" "destroyed t = destroyed s" by (simp_all add: t_def)
  have new: "?i \<notin> cr_id ` set (established s)"
    using names unfolding srv_names_def by (metis atLeastLessThan_upt image_set less_irrefl atLeastLessThan_iff)
  have "nat (nextConnId s + 1) = Suc ?i" using id1 by simp
  then have names': "srv_names t"
    using names ids id1 by (auto simp: srv_names_def t_def c_def conn_name_def)
  have "cr_name c \<notin> fst ` set (connections s)"
  proof
    assume "cr_name c \<in> fst ` set (connections s)"
    then obtain d where d: "d \<in> set (established s)" "cr_name d = cr_name c"
      using mp by (auto simp: srv_map_def)
    then have "conn_name s (cr_id d) = conn_name s ?i" using names by (simp add: srv_names_def c_def)
    from conn_name_inj [OF this] d(1) new show False by (metis image_eqI)
  qed
  then have "set (connections t) = insert (cr_name c, c) (set (connections s))"
    by (simp add: t_def set_omap_set_fresh)
  moreover have "cr_id c = ?i" by (simp add: c_def)
  then have "c \<notin> set (established s)" using new by (metis image_eqI)
  ultimately have map': "srv_map t"
    using mp omap_set_sorted [of "connections s" "cr_name c" c]
    unfolding srv_map_def est by (auto simp: t_def)
  have "srv_posts t"
    by (rule srv_posts_snoc [OF posts, where c = c and f = "S_connectEstablished c"]) (use mp in \<open>auto simp: srv_map_def t_def\<close>)
  moreover have "[0..<?i] = [0..<?i - 1] @ [?i - 1]" using id1 by (cases ?i) auto
  then have "srv_pool t"
    using pool started p(2) id1 len pl by (auto simp: srv_pool_def t_def c_def)
  ultimately show ?thesis using run names' map' by (simp add: srv_inv_def)
qed

lemma removeConnectionInLoop_inv:
  assumes inv: "srv_inv (s\<lparr>closing := c # cs\<rparr>)"
  shows "\<exists>t. removeConnectionInLoop True c (s\<lparr>closing := cs\<rparr>) = Inr t \<and> srv_inv t"
proof -
  have names: "srv_names s" and mp: "srv_map (s\<lparr>closing := c # cs\<rparr>)" and posts: "srv_posts s" and pool: "srv_pool s"
    using inv by (auto simp: srv_inv_defs conn_name_def)
  have c: "c \<in> set (established s)" "c \<notin> set (destroyed s)" "c \<notin> set cs"
    using mp by (auto simp: srv_map_def)
  have same: "d = c" if "d \<in> set (established s)" "cr_name d = cr_name c" for d
  proof -
    have "conn_name s (cr_id d) = conn_name s (cr_id c)" using names that c(1) by (simp add: srv_names_def)
    from conn_name_inj [OF this] names that(1) c(1) show ?thesis
      unfolding srv_names_def using map_ids_distinct by metis
  qed
  define m where "m = filter (\<lambda>e. fst e \<noteq> cr_name c) (connections s)"
  define t where "t = s\<lparr>closing := cs, connections := m, posted := posted s @ [(cr_loop c, S_connectDestroyed c)]\<rparr>"
  have "cr_name c \<in> fst ` set (connections s)" using mp c by (auto simp: srv_map_def image_iff)
  then have run: "removeConnectionInLoop True c (s\<lparr>closing := cs\<rparr>) = Inr t"
    by (simp add: removeConnectionInLoop_def assertInLoopThread_def omap_erase_def srv_post_def t_def m_def)
  have "set m = (\<lambda>c. (cr_name c, c)) ` (set (established s) - set (destroyed s) - {c})"
    using mp same by (auto simp: srv_map_def m_def)
  moreover have "strict_sorted (map fst m)"
    using mp by (simp add: srv_map_def m_def sorted_wrt_map sorted_wrt_filter)
  ultimately have "srv_map t"
    using mp c by (auto simp: srv_map_def t_def)
  moreover have "srv_names t" using names by (simp add: srv_names_def t_def conn_name_def)
  moreover have "srv_posts t"
    by (rule srv_posts_snoc [OF posts, where c = c and f = "S_connectDestroyed c"]) (use mp in \<open>auto simp: srv_map_def t_def\<close>)
  moreover have "srv_pool t" using pool c(1) by (auto simp: srv_pool_def t_def split: if_splits)
  ultimately show ?thesis using run by (simp add: srv_inv_def)
qed

lemma srv_do_inv:
  assumes inv: "srv_inv s" and "srv_allowed a s"
  shows "\<exists>t. srv_do a s = Inr t \<and> srv_inv t"
proof (cases a)
  case (SrvStart cb nl)
  with srv_start_inv [OF inv] show ?thesis by simp
next
  case (SrvListen ret)
  with assms have "sstarted s \<noteq> 0" by (auto simp: srv_inv_def srv_pool_def)
  with SrvListen assms show ?thesis
    by (auto simp: Acceptor_listen_def assertInLoopThread_def listenOrDie_def srv_inv_defs conn_name_def)
next
  case (SrvAccept n addr)
  with assms have st: "listenning (acceptor s)" "sstarted s \<noteq> 0" "hasNewConnectionCallback (acceptor s)" "0 \<le> n"
    "nextConnId s < 2 ^ 31 - 1"
    by (auto simp: srv_inv_def srv_pool_def split: if_splits)
  then obtain k where k: "srv_do a s = srv_newConnection True n addr (s\<lparr>acceptor := (acceptor s)\<lparr>akern := k\<rparr>\<rparr>)"
    by (simp add: SrvAccept srv_handleRead_def Acceptor_handleRead_def assertInLoopThread_def Socket_accept_def sockets_accept_ok)
  have "srv_inv (s\<lparr>acceptor := (acceptor s)\<lparr>akern := k\<rparr>\<rparr>)"
    using inv by (auto simp: srv_inv_defs conn_name_def split: if_splits)
  from newConnection_inv [OF this, of n addr] st k show ?thesis by simp
next
  case (SrvClose c)
  with assms have "srv_inv (s\<lparr>closing := c # closing s\<rparr>)" "srv_inv (s\<lparr>closing := closing s @ [c]\<rparr>)"
    by (auto simp: srv_inv_defs conn_name_def)
  with removeConnectionInLoop_inv [where s = s and c = c and cs = "closing s"] SrvClose show ?thesis
    by (cases "cr_loop c = baseLoop (threadPool s)") (simp_all add: removeConnection_def)
next
  case SrvRemove
  then obtain c cs where cs: "closing s = c # cs" using assms by (cases "closing s") auto
  have "s\<lparr>closing := c # cs\<rparr> = s" using cs [symmetric] by simp
  with removeConnectionInLoop_inv [where s = s and c = c and cs = cs] SrvRemove cs inv show ?thesis by simp
qed

lemma srv_step_inv: "srv_inv s \<Longrightarrow> srv_step s t \<Longrightarrow> srv_inv t"
proof (erule srv_step.cases)
  fix a s' t' assume "srv_inv s" "s = s'" "t = t'" "srv_allowed a s'" "srv_do a s' = Inr t'"
  with srv_do_inv [of s a] show "srv_inv t" by auto
qed

interpretation srv: transition_system "\<lambda>s. \<exists>ntop6. ntop6_ok ntop6 \<and> srv_init ntop6 s" srv_step srv_inv
  using srv_init_inv srv_step_inv by unfold_locales auto

text \<open>
  \<open>TcpServer.h\<close> calls \<open>start\<close> thread-safe; from another thread than the acceptor's it aborts.
\<close>

lemma start_from_other_thread_aborts:
  "sstarted s = 0 \<Longrightarrow> \<not> pstarted (threadPool s) \<Longrightarrow> srv_start False cb nl s = Inl Fatal"
  by (simp add: srv_start_def getAndSet_def pool_start_def assertInLoopThread_def)

section \<open>Properties\<close>

text \<open>
  A pool of \<open>n\<close> threads hands out its loops in turn: the \<open>i\<close>-th call of \<open>getNextLoop\<close> after
  \<open>start\<close> returns the loop of thread \<open>i mod n\<close>, so that after any number of calls the counts of two
  loops differ by at most one; without threads it always returns the base loop. The init
  callback has run once on every loop, \<open>getAllLoops\<close> lists them, equal hash codes get equal
  loops, and no index is ever out of range.
\<close>

lemma pool_round_robin:
  assumes "0 \<le> n" "n < 2 ^ 31"
  shows "\<exists>p p'. pool_start True cb nl (setThreadNum n (EventLoopThreadPool_ctor base nm)) = Inr p \<and>
    next_loops k p = Inr (map (\<lambda>i. if n = 0 then base else nl (i mod nat n)) [0..<k], p') \<and>
    getLoopForHash True h p = Inr (if n = 0 then base else nl (h mod nat n)) \<and>
    getAllLoops True p = Inr (if n = 0 then [base] else map nl [0..<nat n]) \<and>
    inited p = (if cb then (if n = 0 then [base] else map nl [0..<nat n]) else [])"
proof -
  obtain p where p: "pool_start True cb nl (setThreadNum n (EventLoopThreadPool_ctor base nm)) = Inr p"
    "pool_at 0 p" "baseLoop p = base" "loops p = map nl [0..<nat n]"
    "inited p = (if cb then if n = 0 then [base] else map nl [0..<nat n] else [])"
    using pool_start_ctor [OF assms, of cb nl base nm] by blast
  have nth: "map nl [0..<nat n] ! (i mod nat n) = nl (i mod nat n)" if "n \<noteq> 0" for i
    using that assms(1) by simp
  then have pl: "pool_loop p = (\<lambda>i. if n = 0 then base else nl (i mod nat n))"
    using p(3,4) assms(1) by (auto simp: pool_loop_def fun_eq_iff)
  obtain p' where "next_loops k p = Inr (map (pool_loop p) [0..<k], p')"
    using next_loops_at [OF p(2), of k] by auto
  moreover have "getLoopForHash True h p = Inr (pool_loop p h)"
    by (simp add: getLoopForHash_def assertInLoopThread_def pool_loop_def)
  moreover have "getAllLoops True p = Inr (if n = 0 then [base] else map nl [0..<nat n])"
    using p(2-4) assms(1) by (simp add: getAllLoops_def assertInLoopThread_def pool_at_def)
  ultimately show ?thesis using p(1,5) pl by auto
qed

lemma pool_round_robin_witness:
  "\<exists>p p'. pool_start True True Suc (setThreadNum 3 (EventLoopThreadPool_ctor 9 ''io'')) = Inr p \<and>
     next_loops 5 p = Inr ([1, 2, 3, 1, 2], p')"
proof -
  obtain p p' where p: "pool_start True True Suc (setThreadNum 3 (EventLoopThreadPool_ctor 9 ''io'')) = Inr p"
    "next_loops 5 p = Inr (map (\<lambda>i. if (3 :: int) = 0 then 9 else Suc (i mod nat 3)) [0..<5], p')"
    using pool_round_robin [of 3 True Suc 9 "''io''" 5 0] by auto
  moreover have "map (\<lambda>i. if (3 :: int) = 0 then 9 else Suc (i mod nat 3)) [0..<5] = [1, 2, 3, 1, 2]"
    by (simp add: upt_rec)
  ultimately show ?thesis by metis
qed

text \<open>
  Property C25. A server keeps its connections apart and never loses track of one. In every reachable
  state: all names ever given are different, although they pass through a buffer of 64 bytes; the
  \<open>i\<close>-th connection lives on the loop the pool assigns to \<open>i\<close> in turn; \<open>connections_\<close> holds exactly
  the connections that were established and whose destruction was not yet posted; every
  destruction is posted once, to the connection's own loop, after its establishment; and every
  entry returns normally, so that the assertion \<open>n == 1\<close> of \<open>removeConnectionInLoop\<close> holds.
\<close>

theorem server_connections:
  assumes "ntop6_ok ntop6" "srv_init ntop6 s0" "srv_step\<^sup>*\<^sup>* s0 s"
  shows "distinct (map cr_name (established s)) \<and>
    map cr_loop (established s) = map (pool_loop (threadPool s)) [0..<length (established s)] \<and>
    set (connections s) = (\<lambda>c. (cr_name c, c)) ` (set (established s) - set (destroyed s)) \<and>
    distinct (destroyed s) \<and>
    (\<forall>k. set (dest_of (take k (posted s))) \<subseteq> set (est_of (take k (posted s)))) \<and>
    (\<forall>l c. (l, S_connectDestroyed c) \<in> set (posted s) \<longrightarrow> l = cr_loop c) \<and>
    (\<forall>a. srv_allowed a s \<longrightarrow> isOK (srv_do a s))"
proof -
  have inv: "srv_inv s" using srv.reachable_inv assms by blast
  then have ids: "map cr_id (established s) = [1..<nat (nextConnId s)]"
    and nm: "\<forall>c \<in> set (established s). cr_name c = conn_name s (cr_id c)"
    by (simp_all add: srv_inv_def srv_names_def)
  have "map cr_name (established s) = map (conn_name s) (map cr_id (established s))"
    using nm by simp
  then have "map cr_name (established s) = map (conn_name s) [1..<nat (nextConnId s)]" by (simp only: ids)
  moreover have "inj (conn_name s)" by (rule injI) (rule conn_name_inj)
  ultimately have "distinct (map cr_name (established s))"
    by (metis distinct_map distinct_upt inj_on_subset subset_UNIV)
  moreover have "\<forall>a. srv_allowed a s \<longrightarrow> isOK (srv_do a s)"
    using srv_do_inv [OF inv] by (auto simp: isOK_iff)
  ultimately show ?thesis using inv unfolding srv_inv_def srv_map_def srv_posts_def srv_pool_def by auto
qed

text \<open>A server that listens on port 8080.\<close>

definition ref_ntop6 :: "byte list \<Rightarrow> string" where
  "ref_ntop6 bs = ''::''"

definition demo_addr :: InetAddress where
  "demo_addr = InetAddress_port sockaddr_zero 8080 True False"

definition demo_kern :: kstate where
  "demo_kern = \<lparr>kerrno = 0, fdflags = Map.empty\<rparr>"

lemma ref_ntop6_ok: "ntop6_ok ref_ntop6"
  by (simp add: ntop6_ok_def ref_ntop6_def)

lemma srv_steps: "srv_step\<^sup>*\<^sup>* s0 s \<Longrightarrow> srv_allowed a s \<Longrightarrow> srv_do a s = Inr t \<Longrightarrow> srv_step\<^sup>*\<^sup>* s0 t"
  by (meson rtranclp.rtrancl_into_rtrancl srv_step.intros)

lemma demo_listen:
  assumes "0 \<le> n" "n < 2 ^ 31"
  shows "\<exists>s00 s0 s1 s. TcpServer_ctor ref_ntop6 0 demo_addr nm kNoReusePort 3 0 4 demo_kern = Inr s00 \<and> srv_setThreadNum n s00 = Inr s0 \<and>
     (n = 0 \<longrightarrow> s0 = s00) \<and> srv_do (SrvStart False Suc) s0 = Inr s1 \<and> srv_allowed (SrvListen 0) s1 \<and>
     srv_do (SrvListen 0) s1 = Inr s \<and> listenning (acceptor s) \<and> nextConnId s = 1 \<and> established s = []"
proof -
  obtain ipp where ipp: "toIpPort ref_ntop6 demo_addr = Inr ipp"
    using toIpPort_ok [OF ref_ntop6_ok] by metis
  obtain s00 where s00: "TcpServer_ctor ref_ntop6 0 demo_addr nm kNoReusePort 3 0 4 demo_kern = Inr s00"
    "threadPool s00 = EventLoopThreadPool_ctor 0 nm" "sstarted s00 = 0" "\<not> listenning (acceptor s00)"
    "nextConnId s00 = 1" "posted s00 = []"
    by (simp add: TcpServer_ctor_def ipp Acceptor_ctor_def createNonblockingOrDie_def bindOrDie_def)
  define s0 where "s0 = s00\<lparr>threadPool := setThreadNum n (threadPool s00)\<rparr>"
  have "setThreadNum 0 (threadPool s00) = threadPool s00"
    using s00(2) by (simp add: setThreadNum_def EventLoopThreadPool_ctor_def)
  then have s0: "srv_setThreadNum n s00 = Inr s0" "n = 0 \<longrightarrow> s0 = s00"
    using assms by (simp_all add: srv_setThreadNum_def s0_def)
  obtain s1 where s1: "srv_do (SrvStart False Suc) s0 = Inr s1" "posted s1 = [(0, S_listen)]" "nextConnId s1 = 1"
    using s00 by (simp add: s0_def srv_start_def getAndSet_def pool_start_def setThreadNum_def EventLoopThreadPool_ctor_def
        assertInLoopThread_def Let_def fold_start_one srv_post_def)
  obtain s2 where s2: "srv_do (SrvListen 0) s1 = Inr s2" "listenning (acceptor s2)" "nextConnId s2 = 1" "established s2 = []"
    using s1(2,3) by (simp add: Acceptor_listen_def assertInLoopThread_def listenOrDie_def)
  moreover have "srv_allowed (SrvListen 0) s1" by (simp add: s1(2))
  ultimately show ?thesis using s00(1) s0 s1(1) by blast
qed

lemma demo_server:
  "\<exists>s0 s. srv_init ref_ntop6 s0 \<and> srv_step\<^sup>*\<^sup>* s0 s \<and> listenning (acceptor s) \<and> nextConnId s = 1 \<and> established s = []"
proof -
  obtain s00 s0 s1 s where s: "TcpServer_ctor ref_ntop6 0 demo_addr ''srv'' kNoReusePort 3 0 4 demo_kern = Inr s00"
    "srv_setThreadNum 1 s00 = Inr s0" "srv_do (SrvStart False Suc) s0 = Inr s1" "srv_allowed (SrvListen 0) s1"
    "srv_do (SrvListen 0) s1 = Inr s" "listenning (acceptor s)" "nextConnId s = 1" "established s = []"
    using demo_listen [of 1 "''srv''", OF zero_le_one] by (auto simp del: srv_do.simps srv_allowed.simps)
  have "srv_init ref_ntop6 s0" by (rule srv_initI [OF _ _ s(1,2)]) simp_all
  moreover have "srv_step\<^sup>*\<^sup>* s0 s1" by (rule srv_steps [OF _ _ s(3)]) simp_all
  then have "srv_step\<^sup>*\<^sup>* s0 s" by (rule srv_steps [OF _ s(4,5)])
  ultimately show ?thesis using s by blast
qed

theorem server_connections_witness:
  "\<exists>s0 s t :: TcpServer. srv_init ref_ntop6 s0 \<and> srv_step\<^sup>*\<^sup>* s0 s \<and>
     srv_do (SrvAccept 7 demo_addr) s = Inr t \<and> set (connections s) = {} \<and> distinct (map cr_name (established s))"
proof -
  obtain s0 s where s: "srv_init ref_ntop6 s0" "srv_step\<^sup>*\<^sup>* s0 s" "listenning (acceptor s)" "nextConnId s = 1" "established s = []"
    using demo_server by blast
  note ok = server_connections [OF ref_ntop6_ok s(1,2)]
  have "srv_allowed (SrvAccept 7 demo_addr) s" using s by simp
  with ok have "isOK (srv_do (SrvAccept 7 demo_addr) s)" by blast
  then obtain t where "srv_do (SrvAccept 7 demo_addr) s = Inr t" unfolding isOK_iff by blast
  moreover have "set (connections s) = {}" "distinct (map cr_name (established s))" using ok s(5) by simp_all
  ultimately show ?thesis using s(1,2) by blast
qed

text \<open>
  Destroying the server posts the destruction of every connection that is still in
  \<open>connections_\<close> to the connection's own loop: afterwards every connection ever established has
  been given exactly one \<open>connectDestroyed\<close>.
\<close>

lemma server_dtor_destroys_all:
  assumes "ntop6_ok ntop6" "srv_init ntop6 s0" "srv_step\<^sup>*\<^sup>* s0 s"
  shows "\<exists>t. TcpServer_dtor True s = Inr t \<and> distinct (destroyed t) \<and> set (destroyed t) = set (established s) \<and>
    established t = established s \<and> (\<forall>l c. (l, S_connectDestroyed c) \<in> set (posted t) \<longrightarrow> l = cr_loop c)"
proof -
  have inv: "srv_inv s" using srv.reachable_inv assms by blast
  define items where "items = map (\<lambda>e. (cr_loop (snd e), S_connectDestroyed (snd e))) (connections s)"
  have fold: "fold (\<lambda>item. srv_post (cr_loop (snd item)) (S_connectDestroyed (snd item))) m u =
      u\<lparr>posted := posted u @ map (\<lambda>e. (cr_loop (snd e), S_connectDestroyed (snd e))) m\<rparr>" for m u
    by (induction m arbitrary: u) (simp_all add: srv_post_def)
  have fin: "dest_of (map (\<lambda>e. (cr_loop (snd e), S_connectDestroyed (snd e))) m) = map snd m"
    "est_of (map (\<lambda>e. (cr_loop (snd e), S_connectDestroyed (snd e))) m) = []" for m :: "(string \<times> conn_ref) list"
    by (induction m) auto
  have m: "strict_sorted (map fst (connections s))" "distinct (destroyed s)"
    "set (connections s) = (\<lambda>c. (cr_name c, c)) ` (set (established s) - set (destroyed s))"
    "set (destroyed s) \<subseteq> set (established s)"
    using inv by (auto simp: srv_inv_def srv_map_def)
  then have live: "set (map snd (connections s)) = set (established s) - set (destroyed s)"
    by (simp add: image_image)
  have "distinct (map fst (connections s))" using m(1) strict_sorted_iff by blast
  moreover have "inj_on snd (set (connections s))" using m(3) by (auto simp: inj_on_def)
  ultimately have "distinct (map snd (connections s))" by (simp add: distinct_map)
  with m(2,4) live have "distinct (destroyed s @ map snd (connections s))"
    "set (destroyed s @ map snd (connections s)) = set (established s)" by auto
  then show ?thesis
    using inv by (auto simp: TcpServer_dtor_def assertInLoopThread_def fold fin srv_inv_def srv_posts_def)
qed

lemma server_dtor_destroys_all_witness:
  "\<exists>s0 s t :: TcpServer. srv_init ref_ntop6 s0 \<and> srv_step\<^sup>*\<^sup>* s0 s \<and> TcpServer_dtor True s = Inr t \<and>
     set (destroyed t) = set (established s)"
proof -
  obtain s0 s where s: "srv_init ref_ntop6 s0" "srv_step\<^sup>*\<^sup>* s0 s" using demo_server by blast
  from server_dtor_destroys_all [OF ref_ntop6_ok this] s show ?thesis by blast
qed

text \<open>
  Property C27. \<open>Acceptor::handleRead\<close> hands a new connection over non-blocking and close-on-exec. But when
  \<open>accept\<close> fails, for whatever reason, the process aborts: \<open>sockets::accept\<close> first calls
  \<open>fcntl\<close> on the descriptor -1, which overwrites \<open>errno\<close> with \<open>EBADF\<close>, so that the errors it means
  to tolerate (\<open>EAGAIN\<close>, \<open>EINTR\<close>, \<open>ECONNABORTED\<close>, \<open>EMFILE\<close> and others) are never recognised and the
  \<open>idleFd_\<close> branch of \<open>handleRead\<close> is never reached.
\<close>

theorem acceptor_aborts_on_failure:
  assumes "fdflags (akern a) (- 1) = None"
  shows "Acceptor_handleRead True (AcceptErr e) r2 idle a = Inl Fatal \<and>
    (0 \<le> n \<and> hasNewConnectionCallback a \<longrightarrow>
      (\<exists>b. Acceptor_handleRead True (AcceptOk n addr) r2 idle a = Inr (Some (n, addr), b) \<and>
        fdflags (akern b) = (fdflags (akern a))(n \<mapsto> (O_RDWR OR O_NONBLOCK, FD_CLOEXEC)) \<and> idleFd b = idleFd a))"
  using assms
  by (auto simp: Acceptor_handleRead_def assertInLoopThread_def Socket_accept_def sockets_accept_fails sockets_accept_ok)

theorem acceptor_aborts_on_failure_witness:
  "\<exists>a. hasNewConnectionCallback a \<and> Acceptor_handleRead True (AcceptErr EMFILE) (AcceptErr EAGAIN) 5 a = Inl Fatal"
proof -
  let ?a = "\<lparr>acceptFd = 3, acceptChannel = Channel_ctor 3, acceptOpts = (\<lambda>_. 0),
    hasNewConnectionCallback = True, listenning = True, idleFd = 4, akern = demo_kern\<rparr>"
  have "fdflags (akern ?a) (- 1) = None" by (simp add: demo_kern_def)
  from acceptor_aborts_on_failure [OF this, of EMFILE "AcceptErr EAGAIN" 5 0 sockaddr_zero] show ?thesis
    by (intro exI [of _ ?a]) simp
qed

end
