(* ===== verification/NW_ServerSystem.thy ===== *)
theory NW_ServerSystem
  imports NW_TcpConnection NW_TcpServer
begin

text \<open>
  A server with its live connections: \<^verbatim>\<open>networker/net/TcpServer.cpp\<close> composed with
  \<^verbatim>\<open>networker/net/TcpConnection.cpp\<close>.

  The two components assume something of each other. The server assumes that a connection calls its
  close callback once, after it was established and before it is destroyed; the connection assumes
  that \<open>connectEstablished\<close> comes first and once, and that \<open>connectDestroyed\<close> comes once and not
  before it is down. Here both run together: \<open>sys_step\<close> lets the server accept and remove, lets any
  functor the server posted to the loop of a connection run (in any order, which covers
  \<open>runInLoop\<close> in the same and \<open>queueInLoop\<close> to another thread), and lets events and calls of the
  application happen to any connection; when a connection runs its close callback,
  \<open>TcpServer::removeConnection\<close> is called, as \<open>newConnection\<close> has arranged. \<open>sys_est\<close> and \<open>sys_dst\<close>
  are the connections whose two functors have run. The destructor of the server is not part of it:
  it posts \<open>connectDestroyed\<close> to connections that may be half closed, which fails (\<open>destroy_asserts\<close>).
\<close>

section \<open>The system\<close>

record system =
  sys_srv :: TcpServer
  sys_conn :: "nat \<Rightarrow> TcpConnection option"
  sys_est :: "nat set"
  sys_dst :: "nat set"

text \<open>The events of the poller, and what else \<open>app\<close> says the application calls.\<close>

fun loop_call :: "(conn_call \<Rightarrow> bool) \<Rightarrow> conn_call \<Rightarrow> bool" where
  "loop_call app (CallEvent rv rd wt) \<longleftrightarrow> True"
| "loop_call app CallEstablished \<longleftrightarrow> False"
| "loop_call app CallDestroyed \<longleftrightarrow> False"
| "loop_call app c \<longleftrightarrow> app c"

definition closes :: "TcpConnection \<Rightarrow> TcpConnection \<Rightarrow> bool" where
  "closes t t' \<longleftrightarrow> count_list (fx t') FxClose \<noteq> count_list (fx t) FxClose"

text \<open>The close callback of a connection is \<open>removeConnection\<close> of its server.\<close>

definition on_close :: "conn_ref \<Rightarrow> TcpConnection \<Rightarrow> TcpConnection \<Rightarrow> TcpServer \<Rightarrow> TcpServer result" where
  "on_close c t t' s = (if closes t t' then removeConnection (cr_loop c = baseLoop (threadPool s)) c s else Inr s)"

inductive sys_step :: "user \<Rightarrow> (conn_call \<Rightarrow> bool) \<Rightarrow> system \<Rightarrow> system \<Rightarrow> bool" for user app where
  sys_server: "a = SrvStart cb new_loop \<or> a = SrvListen ret \<or> a = SrvRemove \<Longrightarrow> srv_allowed a (sys_srv S) \<Longrightarrow>
    srv_do a (sys_srv S) = Inr s \<Longrightarrow> sys_step user app S (S\<lparr>sys_srv := s\<rparr>)"
| sys_accept: "srv_allowed (SrvAccept n addr) (sys_srv S) \<Longrightarrow> srv_do (SrvAccept n addr) (sys_srv S) = Inr s \<Longrightarrow>
    TcpConnection_ctor n = Inr t \<Longrightarrow>
    sys_step user app S (S\<lparr>sys_srv := s, sys_conn := (sys_conn S)(nat (nextConnId (sys_srv S)) \<mapsto> with_callbacks wc hw t)\<rparr>)"
| sys_establish: "c \<in> set (established (sys_srv S)) \<Longrightarrow> cr_id c \<notin> sys_est S \<Longrightarrow> sys_conn S (cr_id c) = Some t \<Longrightarrow>
    do_call user CallEstablished t = Inr t' \<Longrightarrow>
    sys_step user app S (S\<lparr>sys_conn := (sys_conn S)(cr_id c \<mapsto> t'), sys_est := insert (cr_id c) (sys_est S)\<rparr>)"
| sys_destroy: "c \<in> set (destroyed (sys_srv S)) \<Longrightarrow> cr_id c \<notin> sys_dst S \<Longrightarrow> sys_conn S (cr_id c) = Some t \<Longrightarrow>
    do_call user CallDestroyed t = Inr t' \<Longrightarrow>
    sys_step user app S (S\<lparr>sys_conn := (sys_conn S)(cr_id c \<mapsto> t'), sys_dst := insert (cr_id c) (sys_dst S)\<rparr>)"
| sys_call: "c \<in> set (established (sys_srv S)) \<Longrightarrow> sys_conn S (cr_id c) = Some t \<Longrightarrow> loop_call app call \<Longrightarrow> enabled call t \<Longrightarrow>
    do_call user call t = Inr t' \<Longrightarrow> on_close c t t' (sys_srv S) = Inr s \<Longrightarrow>
    sys_step user app S (S\<lparr>sys_srv := s, sys_conn := (sys_conn S)(cr_id c \<mapsto> t')\<rparr>)"

inductive_cases sys_stepE: "sys_step user app S S'"

definition sys_init :: "system \<Rightarrow> bool" where
  "sys_init S \<longleftrightarrow> (\<exists>ntop6. ntop6_ok ntop6 \<and> srv_init ntop6 (sys_srv S)) \<and> sys_conn S = (\<lambda>_. None) \<and> sys_est S = {} \<and> sys_dst S = {}"

section \<open>Invariant\<close>

definition conn_rel :: "system \<Rightarrow> conn_ref \<Rightarrow> TcpConnection \<Rightarrow> bool" where
  "conn_rel S c t \<longleftrightarrow> tcp_inv t \<and> (state t = kConnecting \<longleftrightarrow> cr_id c \<notin> sys_est S) \<and>
     (FxClose \<in> set (fx t) \<longleftrightarrow> c \<in> set (closing (sys_srv S)) \<union> set (destroyed (sys_srv S))) \<and>
     (FxRemove \<in> set (fx t) \<longleftrightarrow> cr_id c \<in> sys_dst S) \<and> (cr_id c \<in> sys_dst S \<longrightarrow> c \<in> set (destroyed (sys_srv S)))"

definition sys_inv :: "system \<Rightarrow> bool" where
  "sys_inv S \<longleftrightarrow> srv_inv (sys_srv S) \<and> sys_est S \<union> sys_dst S \<subseteq> cr_id ` set (established (sys_srv S)) \<and>
     dom (sys_conn S) = cr_id ` set (established (sys_srv S)) \<and>
     (\<forall>c \<in> set (established (sys_srv S)). \<forall>t. sys_conn S (cr_id c) = Some t \<longrightarrow> conn_rel S c t)"

section \<open>What a call adds to the trace of a connection\<close>

definition fx_ext :: "TcpConnection \<Rightarrow> TcpConnection \<Rightarrow> bool" where
  "fx_ext t t' \<longleftrightarrow> (\<exists>es. fx t' = fx t @ es \<and> FxRemove \<notin> set es)"

lemma fx_ext_refl [simp]: "fx_ext t t"
  by (simp add: fx_ext_def)

lemma fx_ext_same: "fx t' = fx t \<Longrightarrow> fx_ext t t'"
  by (simp add: fx_ext_def)

lemma fx_ext_trans: "fx_ext t u \<Longrightarrow> fx_ext u v \<Longrightarrow> fx_ext t v"
  by (auto simp: fx_ext_def)

lemma fx_ext_emit: "e \<noteq> FxRemove \<Longrightarrow> fx t' = fx t \<Longrightarrow> fx_ext t (emit e t')"
  by (simp add: fx_ext_def emit_def)

lemma fx_ext_rfold:
  assumes "\<And>x t t'. f x t = Inr t' \<Longrightarrow> fx_ext t t'" "rfold f xs t = Inr t'"
  shows "fx_ext t t'"
  by (rule rfold_invariant [OF _ _ assms(2), where P = "fx_ext t"]) (auto dest: assms(1) intro: fx_ext_trans)

lemma fx_ext_sendInLoop: "sendInLoop data wr t = Inr t' \<Longrightarrow> fx_ext t t'"
  by (auto simp: sendInLoop_def send_direct_def Let_def result_simps fx_ext_def split: if_splits write_result.splits)

lemma fx_ext_ucmd: "exec_ucmd c t = Inr t' \<Longrightarrow> fx_ext t t'"
  using fx_ext_sendInLoop
  by (cases c) (auto simp: tcp_shutdown_def shutdownInLoop_def forceClose_def startReadInLoop_def setState_def
      Let_def result_simps fx_ext_def split: if_splits)

lemma fx_ext_callback: "run_callback user ev t = Inr t' \<Longrightarrow> fx_ext t t'"
  unfolding run_callback_def Let_def
  by (rule fx_ext_trans [OF fx_ext_emit [OF _ refl] fx_ext_rfold [OF fx_ext_ucmd]]) (auto simp: ev_fx_def split: conn_event.splits)

lemma fx_ext_handleClose: "tcp_handleClose user t = Inr t' \<Longrightarrow> fx_ext t t'"
proof -
  assume "tcp_handleClose user t = Inr t'"
  then obtain u where u: "run_callback user DownEv (on_channel disableAll (setState kDisconnected t)) = Inr u" "t' = emit FxClose u"
    by (auto simp: tcp_handleClose_def result_simps)
  have "fx_ext t (on_channel disableAll (setState kDisconnected t))" by (simp add: fx_ext_def setState_def)
  with fx_ext_callback [OF u(1)] fx_ext_emit [of FxClose u u] u(2) show ?thesis by (blast intro: fx_ext_trans)
qed

lemma fx_ext_handleWrite: "tcp_handleWrite wr t = Inr t' \<Longrightarrow> fx_ext t t'"
  by (auto simp: tcp_handleWrite_def shutdownInLoop_def Let_def result_simps fx_ext_def split: if_splits write_result.splits)

lemma fx_ext_handleRead:
  assumes "tcp_handleRead user rr t = Inr t'"
  shows "fx_ext t t'"
proof -
  from assms obtain n err b where r: "readFd rr (inputBuffer t) = Inr (n, err, b)"
    by (auto simp: tcp_handleRead_def result_simps)
  let ?t = "t\<lparr>inputBuffer := b, received := received t @ (case rr of ReadOk bs \<Rightarrow> bs | ReadErr e \<Rightarrow> [])\<rparr>"
  have "run_callback user MessageEv ?t = Inr t' \<or> tcp_handleClose user ?t = Inr t' \<or> t' = ?t"
    using assms r by (auto simp: tcp_handleRead_def Let_def tcp_handleError_def split: if_splits)
  then have "fx_ext ?t t'" by (elim disjE) (simp_all add: fx_ext_callback fx_ext_handleClose)
  then show ?thesis by (simp add: fx_ext_def)
qed

lemma fx_ext_invoke: "tcp_invoke user rd wt cb t = Inr t' \<Longrightarrow> fx_ext t t'"
  by (cases cb) (auto dest: fx_ext_handleRead fx_ext_handleWrite fx_ext_handleClose simp: tcp_handleError_def)

lemma fx_ext_handleEvent:
  assumes "tcp_handleEvent user rv rd wt t = Inr t'"
  shows "fx_ext t t'"
proof -
  let ?t = "t\<lparr>channel := (set_revents rv (channel t))\<lparr>eventHandling := True\<rparr>\<rparr>"
  from assms obtain u where u: "rfold (tcp_invoke user rd wt) (dispatch rv) ?t = Inr u" "fx t' = fx u"
    by (auto simp: tcp_handleEvent_def handleEvent_def handleEventWithGuard_def set_revents_def result_simps split: if_splits)
  have "fx_ext ?t u" by (rule fx_ext_rfold [OF fx_ext_invoke u(1)])
  then show ?thesis using u(2) by (simp add: fx_ext_def)
qed

lemma fx_ext_established: "connectEstablished user t = Inr t' \<Longrightarrow> fx_ext t t'"
  by (auto simp: connectEstablished_def Let_def result_simps setState_def fx_ext_def dest!: fx_ext_callback [unfolded fx_ext_def])

text \<open>Only \<open>connectDestroyed\<close> removes the channel.\<close>

lemma do_call_fx:
  assumes "do_call user c t = Inr t'" "c \<noteq> CallDestroyed"
  shows "fx_ext t t'"
proof (cases c)
  case CallForceCloseInLoop
  with assms show ?thesis by (auto simp: forceCloseInLoop_def dest: fx_ext_handleClose split: if_splits)
qed (use assms fx_ext_established fx_ext_handleEvent fx_ext_sendInLoop in
    \<open>auto simp: tcp_shutdown_def shutdownInLoop_def forceClose_def forceCloseWithDelay_def startReadInLoop_def setState_def fx_ext_def Let_def\<close>)

lemma do_call_trace:
  assumes "do_call user c t = Inr t'" "c \<noteq> CallDestroyed"
  shows "FxRemove \<in> set (fx t') \<longleftrightarrow> FxRemove \<in> set (fx t)" "set (fx t) \<subseteq> set (fx t')"
    "count_list (fx t) e \<le> count_list (fx t') e"
  using do_call_fx [OF assms] by (auto simp: fx_ext_def)

lemma closes_iff:
  assumes "tcp_inv t'" "do_call user c t = Inr t'" "c \<noteq> CallDestroyed"
  shows "closes t t' \<longleftrightarrow> FxClose \<notin> set (fx t) \<and> FxClose \<in> set (fx t')"
proof -
  have "count_list (fx t') FxClose \<le> 1" using assms(1) by (auto simp: tcp_inv_def tcp_calls_def split: if_splits)
  moreover have in_count: "FxClose \<in> set l \<longleftrightarrow> 0 < count_list l FxClose" for l using count_list_0_iff [of l FxClose] by auto
  ultimately show ?thesis using do_call_trace(3) [OF assms(2,3), of FxClose] unfolding closes_def in_count by linarith
qed

lemma closed_down: "tcp_inv t \<Longrightarrow> FxClose \<in> set (fx t) \<Longrightarrow> state t = kDisconnected"
  by (rule ccontr) (auto simp: tcp_inv_def tcp_calls_def count_list_0_iff)

lemma connecting_no_fx: "tcp_inv t \<Longrightarrow> state t = kConnecting \<Longrightarrow> fx t = []"
  by (simp add: tcp_inv_def tcp_chan_def)

text \<open>Only \<open>connectEstablished\<close> leaves the state \<open>kConnecting\<close>, and no call comes back to it.\<close>

lemma loop_call_connecting:
  assumes "tcp_inv t" "tcp_inv t'" "loop_call app c" "enabled c t" "do_call user c t = Inr t'"
  shows "state t' = kConnecting \<longleftrightarrow> state t = kConnecting"
proof (cases "state t = kConnecting")
  case True
  then have "t' = t"
    using assms(3-5) by (cases c) (auto simp: active_def tcp_shutdown_def forceClose_def forceCloseWithDelay_def forceCloseInLoop_def)
  then show ?thesis by simp
next
  case False
  then have "0 < count_list (fx t) FxUp" using assms(1) by (simp add: tcp_inv_def tcp_calls_def)
  moreover have "c \<noteq> CallDestroyed" using assms(3) by auto
  ultimately have "0 < count_list (fx t') FxUp" using do_call_trace(3) [OF assms(5), of FxUp] by linarith
  with False assms(2) show ?thesis by (auto simp: tcp_inv_def tcp_calls_def)
qed

section \<open>What an entry changes in the server's books\<close>

lemma srv_quiet_books:
  "srv_start b cb nl s = Inr s' \<Longrightarrow> established s' = established s \<and> destroyed s' = destroyed s \<and> closing s' = closing s"
  "srv_do (SrvListen ret) s = Inr s' \<Longrightarrow> established s' = established s \<and> destroyed s' = destroyed s \<and> closing s' = closing s"
  by (auto simp: srv_start_def getAndSet_def Let_def result_simps srv_post_def split: if_splits)

lemma removeConnectionInLoop_books:
  "removeConnectionInLoop b c s = Inr s' \<Longrightarrow>
     established s' = established s \<and> destroyed s' = destroyed s @ [c] \<and> closing s' = closing s"
  by (auto simp: removeConnectionInLoop_def assertInLoopThread_def omap_erase_def result_simps srv_post_def split: if_splits)

lemma removeConnection_books:
  "removeConnection b c s = Inr s' \<Longrightarrow> established s' = established s \<and> set (destroyed s) \<subseteq> set (destroyed s') \<and>
     set (closing s') \<union> set (destroyed s') = insert c (set (closing s) \<union> set (destroyed s))"
  using removeConnectionInLoop_books [of True c s s'] by (auto simp: removeConnection_def split: if_splits)

lemma srv_remove_books:
  "srv_do SrvRemove s = Inr s' \<Longrightarrow> established s' = established s \<and> set (destroyed s) \<subseteq> set (destroyed s') \<and>
     set (closing s') \<union> set (destroyed s') = set (closing s) \<union> set (destroyed s)"
  by (cases "closing s") (auto dest: removeConnectionInLoop_books)

lemma srv_accept_books:
  assumes "srv_do (SrvAccept n a) s = Inr s'" "srv_inv s" "srv_allowed (SrvAccept n a) s"
  shows "\<exists>c. established s' = established s @ [c] \<and> cr_id c = nat (nextConnId s) \<and> cr_id c \<notin> cr_id ` set (established s) \<and>
    destroyed s' = destroyed s \<and> closing s' = closing s"
proof -
  have st: "0 \<le> n" "hasNewConnectionCallback (acceptor s)" using assms(2,3) by (simp_all add: srv_inv_def srv_pool_def)
  then obtain k where k: "srv_newConnection True n a (s\<lparr>acceptor := (acceptor s)\<lparr>akern := k\<rparr>\<rparr>) = Inr s'"
    using assms(1) by (auto simp: srv_handleRead_def Acceptor_handleRead_def assertInLoopThread_def Socket_accept_def sockets_accept_ok)
  have "nat (nextConnId s) \<notin> cr_id ` set (established s)"
    using assms(2) unfolding srv_inv_def srv_names_def by (metis atLeastLessThan_upt image_set less_irrefl atLeastLessThan_iff)
  with k show ?thesis
    by (auto simp: srv_newConnection_def assertInLoopThread_def result_simps Let_def srv_post_def split: if_splits)
qed

section \<open>The invariant is kept\<close>

text \<open>What a step leaves alone stays related.\<close>

lemma conn_rel_frame:
  assumes "conn_rel S c t" "cr_id c \<in> sys_est S' \<longleftrightarrow> cr_id c \<in> sys_est S" "cr_id c \<in> sys_dst S' \<longleftrightarrow> cr_id c \<in> sys_dst S"
    and "c \<in> set (closing (sys_srv S')) \<union> set (destroyed (sys_srv S')) \<longleftrightarrow> c \<in> set (closing (sys_srv S)) \<union> set (destroyed (sys_srv S))"
    and "set (destroyed (sys_srv S)) \<subseteq> set (destroyed (sys_srv S'))"
  shows "conn_rel S' c t"
  using assms unfolding conn_rel_def by blast

lemma sys_ids:
  "srv_inv s \<Longrightarrow> c \<in> set (established s) \<Longrightarrow> d \<in> set (established s) \<Longrightarrow> cr_id c = cr_id d \<Longrightarrow> c = d"
  unfolding srv_inv_def srv_names_def using map_ids_distinct by blast

lemma sys_inv_local:
  assumes inv: "sys_inv S" and c: "c \<in> set (established (sys_srv S))" and srv: "srv_inv (sys_srv S')"
    and est: "established (sys_srv S') = established (sys_srv S)" and conn: "sys_conn S' = (sys_conn S)(cr_id c \<mapsto> t')"
    and ran: "sys_est S \<subseteq> sys_est S'" "sys_est S' \<subseteq> insert (cr_id c) (sys_est S)" "sys_dst S \<subseteq> sys_dst S'" "sys_dst S' \<subseteq> insert (cr_id c) (sys_dst S)"
    and books: "set (destroyed (sys_srv S)) \<subseteq> set (destroyed (sys_srv S'))"
      "set (closing (sys_srv S)) \<union> set (destroyed (sys_srv S)) \<subseteq> set (closing (sys_srv S')) \<union> set (destroyed (sys_srv S'))"
      "set (closing (sys_srv S')) \<union> set (destroyed (sys_srv S')) \<subseteq> insert c (set (closing (sys_srv S)) \<union> set (destroyed (sys_srv S)))"
    and rel: "conn_rel S' c t'"
  shows "sys_inv S'"
proof -
  have "conn_rel S' d t" if d: "d \<in> set (established (sys_srv S))" "sys_conn S' (cr_id d) = Some t" for d t
  proof (cases "d = c")
    case True
    with d(2) rel conn show ?thesis by simp
  next
    case False
    then have "cr_id d \<noteq> cr_id c" using sys_ids [OF _ d(1) c] inv by (auto simp: sys_inv_def)
    moreover from this have "conn_rel S d t" using inv d conn by (simp add: sys_inv_def)
    ultimately show ?thesis using False ran books by (intro conn_rel_frame [where S' = S']) auto
  qed
  moreover have "sys_est S' \<union> sys_dst S' \<subseteq> cr_id ` set (established (sys_srv S))" "dom (sys_conn S') = cr_id ` set (established (sys_srv S))"
    using inv ran c unfolding sys_inv_def conn by auto
  ultimately show ?thesis using srv unfolding sys_inv_def est by blast
qed

text \<open>Steps of the server alone.\<close>

lemma sys_inv_books:
  assumes inv: "sys_inv S" and srv: "srv_inv s" and est: "established s = established (sys_srv S)"
    and books: "set (destroyed (sys_srv S)) \<subseteq> set (destroyed s)"
      "set (closing s) \<union> set (destroyed s) = set (closing (sys_srv S)) \<union> set (destroyed (sys_srv S))"
  shows "sys_inv (S\<lparr>sys_srv := s\<rparr>)"
proof -
  have "conn_rel (S\<lparr>sys_srv := s\<rparr>) d t" if "conn_rel S d t" for d t
    by (rule conn_rel_frame [OF that]) (use books in simp_all)
  with inv srv est show ?thesis by (simp add: sys_inv_def)
qed

lemma sys_server_inv:
  assumes inv: "sys_inv S" and a: "a = SrvStart cb nl \<or> a = SrvListen ret \<or> a = SrvRemove"
    and run: "srv_allowed a (sys_srv S)" "srv_do a (sys_srv S) = Inr s"
  shows "sys_inv (S\<lparr>sys_srv := s\<rparr>)"
proof (rule sys_inv_books [OF inv])
  show "srv_inv s" using srv_do_inv [OF _ run(1)] run(2) inv by (auto simp: sys_inv_def)
  have "established s = established (sys_srv S) \<and> set (destroyed (sys_srv S)) \<subseteq> set (destroyed s) \<and>
      set (closing s) \<union> set (destroyed s) = set (closing (sys_srv S)) \<union> set (destroyed (sys_srv S))"
    using a run(2) srv_quiet_books srv_remove_books by (elim disjE) fastforce+
  then show "established s = established (sys_srv S)" "set (destroyed (sys_srv S)) \<subseteq> set (destroyed s)"
    "set (closing s) \<union> set (destroyed s) = set (closing (sys_srv S)) \<union> set (destroyed (sys_srv S))" by blast+
qed

text \<open>A new connection.\<close>

lemma tcp_init_inv: "TcpConnection_ctor n = Inr t \<Longrightarrow> tcp_inv (with_callbacks wc hw t) \<and> state (with_callbacks wc hw t) = kConnecting"
proof -
  assume t: "TcpConnection_ctor n = Inr t"
  then have "tcp_init (with_callbacks wc hw t)" unfolding tcp_init_def by blast
  from conn_reach [OF demo_conn.user_ok this] t show ?thesis by (auto simp: TcpConnection_ctor_def result_simps)
qed

lemma sys_accept_inv:
  assumes inv: "sys_inv S" and run: "srv_allowed (SrvAccept n addr) (sys_srv S)" "srv_do (SrvAccept n addr) (sys_srv S) = Inr s"
    and t: "TcpConnection_ctor n = Inr t"
  shows "sys_inv (S\<lparr>sys_srv := s, sys_conn := (sys_conn S)(nat (nextConnId (sys_srv S)) \<mapsto> with_callbacks wc hw t)\<rparr>)" (is "sys_inv ?S")
proof -
  have srv: "srv_inv (sys_srv S)" "srv_inv s" using srv_do_inv [OF _ run(1)] run(2) inv by (auto simp: sys_inv_def)
  from srv_accept_books [OF run(2) srv(1) run(1)] obtain c where c: "established s = established (sys_srv S) @ [c]"
    "cr_id c = nat (nextConnId (sys_srv S))" "cr_id c \<notin> cr_id ` set (established (sys_srv S))"
    "destroyed s = destroyed (sys_srv S)" "closing s = closing (sys_srv S)" by blast
  have "cr_id c \<notin> sys_est S \<union> sys_dst S" using inv c(3) unfolding sys_inv_def by blast
  moreover have "set (closing s) \<union> set (destroyed s) \<subseteq> set (established (sys_srv S))"
    using srv(1) unfolding srv_inv_def srv_map_def c(4,5) by blast
  then have "c \<notin> set (closing s) \<union> set (destroyed s)" using c(3) by blast
  moreover have t1: "tcp_inv (with_callbacks wc hw t)" "state (with_callbacks wc hw t) = kConnecting"
    using tcp_init_inv [OF t] by blast+
  moreover from t1 have "fx (with_callbacks wc hw t) = []" by (rule connecting_no_fx)
  ultimately have new: "conn_rel ?S c (with_callbacks wc hw t)" unfolding conn_rel_def by simp
  have old: "conn_rel ?S d u" if "conn_rel S d u" for d u
    by (rule conn_rel_frame [OF that]) (use c in simp_all)
  have "d = c \<or> d \<in> set (established (sys_srv S)) \<and> cr_id d \<noteq> cr_id c" if "d \<in> set (established s)" for d
    using that c(1,3) by (auto simp: image_iff)
  moreover have "sys_est S \<union> sys_dst S \<subseteq> cr_id ` set (established s)" "dom (sys_conn ?S) = cr_id ` set (established s)"
    using inv c(1,2) unfolding sys_inv_def by auto
  moreover have "conn_rel ?S d u" if d: "d \<in> set (established s)" "sys_conn ?S (cr_id d) = Some u" for d u
  proof (cases "d = c")
    case True
    with d(2) new c(2) show ?thesis by simp
  next
    case False
    with calculation(1) [OF d(1)] d(2) c(2) have "d \<in> set (established (sys_srv S))" "sys_conn S (cr_id d) = Some u" by auto
    with inv have "conn_rel S d u" unfolding sys_inv_def by blast
    then show ?thesis by (rule old)
  qed
  ultimately show ?thesis using srv(2) by (simp add: sys_inv_def)
qed

text \<open>The functors the server posted.\<close>

lemma sys_establish_inv:
  assumes user: "user_ok user" and inv: "sys_inv S" and c: "c \<in> set (established (sys_srv S))" "cr_id c \<notin> sys_est S"
    and run: "sys_conn S (cr_id c) = Some t" "do_call user CallEstablished t = Inr t'"
  shows "sys_inv (S\<lparr>sys_conn := (sys_conn S)(cr_id c \<mapsto> t'), sys_est := insert (cr_id c) (sys_est S)\<rparr>)"
proof (rule sys_inv_local [OF inv c(1)])
  have rel: "conn_rel S c t" and srv: "srv_inv (sys_srv S)" using inv c(1) run(1) by (auto simp: sys_inv_def)
  have t: "tcp_inv t" "state t = kConnecting" using rel c(2) by (auto simp: conn_rel_def)
  have t': "tcp_inv t'" "active t'" using connectEstablished_ok [OF user t] run(2) by auto
  then have "FxClose \<notin> set (fx t')" using closed_down [of t'] by (auto simp: active_def)
  moreover have "FxRemove \<notin> set (fx t')" using do_call_trace(1) [OF run(2)] connecting_no_fx [OF t] by simp
  ultimately show "conn_rel (S\<lparr>sys_conn := (sys_conn S)(cr_id c \<mapsto> t'), sys_est := insert (cr_id c) (sys_est S)\<rparr>) c t'"
    using rel t' connecting_no_fx [OF t] by (auto simp: conn_rel_def active_def)
  show "srv_inv (sys_srv (S\<lparr>sys_conn := (sys_conn S)(cr_id c \<mapsto> t'), sys_est := insert (cr_id c) (sys_est S)\<rparr>))"
    using srv by simp
qed auto

lemma sys_destroy_inv:
  assumes user: "user_ok user" and inv: "sys_inv S" and c: "c \<in> set (destroyed (sys_srv S))"
    and run: "sys_conn S (cr_id c) = Some t" "do_call user CallDestroyed t = Inr t'"
  shows "sys_inv (S\<lparr>sys_conn := (sys_conn S)(cr_id c \<mapsto> t'), sys_dst := insert (cr_id c) (sys_dst S)\<rparr>)" (is "sys_inv ?S")
proof (rule sys_inv_local [OF inv])
  show srv: "srv_inv (sys_srv ?S)" using inv by (simp add: sys_inv_def)
  then show est: "c \<in> set (established (sys_srv S))" using c by (auto simp: srv_inv_def srv_map_def)
  have rel: "conn_rel S c t" using inv est run(1) by (auto simp: sys_inv_def)
  then have t: "tcp_inv t" "FxClose \<in> set (fx t)" using c by (auto simp: conn_rel_def)
  then have st: "state t = kDisconnected" by (rule closed_down)
  have t': "tcp_inv t'" "state t' = kDisconnected" "FxRemove \<in> set (fx t')"
    using connectDestroyed_ok [OF user t(1)] st run(2) by auto
  have "FxClose \<in> set (fx t')" using run(2) t(2) st by (auto simp: connectDestroyed_def result_simps)
  then show "conn_rel ?S c t'" using rel t' c st by (auto simp: conn_rel_def)
qed auto

lemma sys_call_inv:
  assumes user: "user_ok user" and inv: "sys_inv S" and c: "c \<in> set (established (sys_srv S))" "sys_conn S (cr_id c) = Some t"
    and run: "loop_call app call" "enabled call t" "do_call user call t = Inr t'" "on_close c t t' (sys_srv S) = Inr s"
  shows "sys_inv (S\<lparr>sys_srv := s, sys_conn := (sys_conn S)(cr_id c \<mapsto> t')\<rparr>)" (is "sys_inv ?S")
proof (rule sys_inv_local [OF inv c(1)])
  have rel: "conn_rel S c t" and srv: "srv_inv (sys_srv S)" using inv c by (auto simp: sys_inv_def)
  have nd: "call \<noteq> CallDestroyed" using run(1) by auto
  have t: "tcp_inv t" "tcp_inv t'" using rel do_call_ok [OF user _ run(2)] run(3) by (auto simp: conn_rel_def)
  note cl = closes_iff [OF t(2) run(3) nd]
  have books: "established s = established (sys_srv S) \<and> set (destroyed (sys_srv S)) \<subseteq> set (destroyed s) \<and>
      set (closing s) \<union> set (destroyed s) = (if closes t t' then {c} else {}) \<union> set (closing (sys_srv S)) \<union> set (destroyed (sys_srv S))"
    using run(4) removeConnection_books by (cases "closes t t'") (fastforce simp: on_close_def)+
  have "srv_allowed (SrvClose c) (sys_srv S)" if "closes t t'" using that cl rel c(1) by (auto simp: conn_rel_def)
  from srv_do_inv [OF srv this] run(4) srv show "srv_inv (sys_srv ?S)" by (auto simp: on_close_def split: if_splits)
  show "conn_rel ?S c t'"
    using rel t(2) books cl loop_call_connecting [OF t run(1-3)] do_call_trace(1,2) [OF run(3) nd]
    unfolding conn_rel_def by (auto split: if_splits)
  show "established (sys_srv ?S) = established (sys_srv S)" "set (destroyed (sys_srv S)) \<subseteq> set (destroyed (sys_srv ?S))"
    "set (closing (sys_srv S)) \<union> set (destroyed (sys_srv S)) \<subseteq> set (closing (sys_srv ?S)) \<union> set (destroyed (sys_srv ?S))"
    "set (closing (sys_srv ?S)) \<union> set (destroyed (sys_srv ?S)) \<subseteq> insert c (set (closing (sys_srv S)) \<union> set (destroyed (sys_srv S)))"
    using books by (auto split: if_splits)
qed auto

lemma sys_step_inv: "user_ok user \<Longrightarrow> sys_inv S \<Longrightarrow> sys_step user app S S' \<Longrightarrow> sys_inv S'"
  by (erule sys_stepE) (auto intro: sys_server_inv sys_accept_inv sys_establish_inv sys_destroy_inv sys_call_inv)

lemma sys_init_inv: "sys_init S \<Longrightarrow> sys_inv S"
proof -
  assume S: "sys_init S"
  then obtain ntop6 where n: "ntop6_ok ntop6" "srv_init ntop6 (sys_srv S)" unfolding sys_init_def by blast
  from n(2) have "sstarted (sys_srv S) = 0"
    by (auto simp: srv_init_def TcpServer_ctor_def srv_setThreadNum_def result_simps) (metis TcpServer.select_convs(5))+
  with srv_init_inv [OF n] have "srv_inv (sys_srv S)" "established (sys_srv S) = []" by (simp_all add: srv_inv_def srv_pool_def)
  with S show ?thesis by (simp add: sys_inv_def sys_init_def)
qed

sublocale tcp_user \<subseteq> sys: transition_system sys_init "sys_step user app" sys_inv for app
  using sys_init_inv sys_step_inv [OF user_ok] by unfold_locales

context tcp_user
begin

lemmas sys_safe = sys.reachable_inv

end

text \<open>
  The pending functors find the connection the way they expect it: the one of \<open>connectEstablished\<close>
  in the state \<open>kConnecting\<close>, the one of \<open>connectDestroyed\<close> down.
\<close>

lemma sys_conn_of:
  assumes "sys_inv S" "c \<in> set (established (sys_srv S))"
  shows "\<exists>t. sys_conn S (cr_id c) = Some t \<and> conn_rel S c t"
proof -
  have "cr_id c \<in> dom (sys_conn S)" using assms by (auto simp: sys_inv_def)
  then obtain t where "sys_conn S (cr_id c) = Some t" by blast
  with assms show ?thesis by (auto simp: sys_inv_def)
qed

lemma sys_destroy_ready:
  assumes "sys_inv S" "c \<in> set (destroyed (sys_srv S))" "cr_id c \<notin> sys_dst S" "sys_conn S (cr_id c) = Some t"
  shows "enabled CallDestroyed t" "state t = kDisconnected" "cr_id c \<in> sys_est S"
proof -
  have "c \<in> set (established (sys_srv S))" using assms(1,2) by (auto simp: sys_inv_def srv_inv_def srv_map_def)
  with assms(1,4) have rel: "conn_rel S c t" by (simp add: sys_inv_def)
  then show st: "state t = kDisconnected" using assms(2) closed_down by (auto simp: conn_rel_def)
  then show "cr_id c \<in> sys_est S" using rel by (auto simp: conn_rel_def)
  show "enabled CallDestroyed t" using rel st assms(3) by (simp add: conn_rel_def)
qed

text \<open>A property of connections that every call keeps holds of every connection of the system.\<close>

lemma sys_conn_step:
  assumes inv: "sys_inv S" and step: "sys_step user app S S'"
    and init: "\<And>n t wc hw. TcpConnection_ctor n = Inr t \<Longrightarrow> P (with_callbacks wc hw t)"
    and keep: "\<And>call t t'. tcp_inv t \<Longrightarrow> P t \<Longrightarrow> enabled call t \<Longrightarrow>
      loop_call app call \<or> call = CallEstablished \<or> call = CallDestroyed \<Longrightarrow> do_call user call t = Inr t' \<Longrightarrow> P t'"
    and IH: "\<forall>i t. sys_conn S i = Some t \<longrightarrow> P t"
  shows "\<forall>i t. sys_conn S' i = Some t \<longrightarrow> P t"
  using step
proof (cases rule: sys_step.cases)
  case (sys_establish c t t')
  then have "conn_rel S c t" using inv by (simp add: sys_inv_def)
  then have "P t'" using keep [of t CallEstablished t'] sys_establish IH by (auto simp: conn_rel_def)
  with sys_establish IH show ?thesis by auto
next
  case (sys_destroy c t t')
  then have c: "c \<in> set (established (sys_srv S))" using inv by (auto simp: sys_inv_def srv_inv_def srv_map_def)
  with inv sys_destroy have "conn_rel S c t" by (simp add: sys_inv_def)
  then have "P t'"
    using keep [of t CallDestroyed t'] sys_destroy IH sys_destroy_ready(1) [OF inv] by (auto simp: conn_rel_def)
  with sys_destroy IH show ?thesis by auto
next
  case (sys_call c t call t' s)
  then have "conn_rel S c t" using inv by (simp add: sys_inv_def)
  then have "P t'" using keep [of t call t'] sys_call IH by (auto simp: conn_rel_def)
  with sys_call IH show ?thesis by auto
qed (use init IH in auto)

lemma sys_reach: "user_ok user \<Longrightarrow> sys_init S0 \<Longrightarrow> (sys_step user app)\<^sup>*\<^sup>* S0 S \<Longrightarrow> sys_inv S"
  using tcp_user.sys_safe [OF tcp_user.intro] by blast

lemma sys_conn_inv:
  assumes "sys_inv S" "sys_conn S i = Some t"
  shows "tcp_inv t"
proof -
  have "i \<in> cr_id ` set (established (sys_srv S))" using assms unfolding sys_inv_def by blast
  then obtain c where "c \<in> set (established (sys_srv S))" "sys_conn S (cr_id c) = Some t" using assms(2) by blast
  with assms(1) have "conn_rel S c t" by (simp add: sys_inv_def)
  then show ?thesis by (simp add: conn_rel_def)
qed

lemma sys_conn_invariant:
  assumes reach: "user_ok user" "sys_init S0" "(sys_step user app)\<^sup>*\<^sup>* S0 S"
    and init: "\<And>n t wc hw. TcpConnection_ctor n = Inr t \<Longrightarrow> P (with_callbacks wc hw t)"
    and keep: "\<And>call t t'. tcp_inv t \<Longrightarrow> P t \<Longrightarrow> enabled call t \<Longrightarrow>
      loop_call app call \<or> call = CallEstablished \<or> call = CallDestroyed \<Longrightarrow> do_call user call t = Inr t' \<Longrightarrow> P t'"
  shows "\<forall>i t. sys_conn S i = Some t \<longrightarrow> P t"
  using reach(3)
proof (induction rule: rtranclp_induct)
  case base
  then show ?case using reach(2) by (simp add: sys_init_def)
next
  case (step S S')
  have "sys_inv S" using reach(1,2) step(1) by (rule sys_reach)
  from this step(2) init keep step.IH show ?case by (rule sys_conn_step)
qed

section \<open>Properties\<close>

lemma sys_call_safe:
  assumes user: "user_ok user" and inv: "sys_inv S" and c: "c \<in> set (established (sys_srv S))" "conn_rel S c t"
    and call: "loop_call app call" "enabled call t"
  shows "do_call user call t = Inl LengthError \<or> (\<exists>t' s. do_call user call t = Inr t' \<and> on_close c t t' (sys_srv S) = Inr s)"
proof (cases "do_call user call t")
  case (Inl e)
  with do_call_ok [OF user _ call(2)] c(2) show ?thesis by (auto simp: conn_rel_def ok_or_len_def)
next
  case (Inr t')
  then have "tcp_inv t'" using do_call_ok [OF user _ call(2)] c(2) by (auto simp: conn_rel_def)
  moreover have "call \<noteq> CallDestroyed" using call(1) by auto
  ultimately have "closes t t' \<Longrightarrow> srv_allowed (SrvClose c) (sys_srv S)"
    using closes_iff [OF _ Inr] c by (auto simp: conn_rel_def)
  moreover have "srv_inv (sys_srv S)" using inv by (simp add: sys_inv_def)
  ultimately have "\<exists>s. on_close c t t' (sys_srv S) = Inr s" using srv_do_inv [of "sys_srv S" "SrvClose c"] by (auto simp: on_close_def)
  with Inr show ?thesis by blast
qed

text \<open>
  Property C4. A server and its connections honour what each assumes of the other, for any user callbacks and
  any interleaving of accepts, events, calls, and functors posted to the loops. In every reachable
  state, of every connection that was ever accepted: it called its close callback exactly if the server has
  noted it for removal; the pending \<open>connectEstablished\<close> finds it in the state its assertion wants; a
  pending \<open>connectDestroyed\<close> comes after \<open>connectEstablished\<close>, finds it down, and succeeds, after which
  the destructor's assertion holds and \<open>connections_\<close> no longer has it; and any event or call returns
  normally, the \<open>removeConnection\<close> its close callback runs included, or raises the \<open>length_error\<close> of a buffer
  that cannot grow. The server's own entries return normally.
\<close>

theorem server_system_safe:
  assumes "user_ok user" and "sys_init S0" and "(sys_step user app)\<^sup>*\<^sup>* S0 S"
  shows "(\<forall>c \<in> set (established (sys_srv S)). \<exists>t. sys_conn S (cr_id c) = Some t \<and> tcp_inv t \<and>
      (FxClose \<in> set (fx t) \<longleftrightarrow> c \<in> set (closing (sys_srv S)) \<union> set (destroyed (sys_srv S))) \<and>
      (cr_id c \<notin> sys_est S \<longrightarrow> do_call user CallEstablished t = Inl LengthError \<or> isOK (do_call user CallEstablished t)) \<and>
      (c \<in> set (destroyed (sys_srv S)) \<longrightarrow> cr_id c \<in> sys_est S \<and> state t = kDisconnected \<and>
         (cr_id c \<notin> sys_dst S \<longrightarrow> isOK (do_call user CallDestroyed t))) \<and>
      (cr_id c \<in> sys_dst S \<longrightarrow> isOK (TcpConnection_dtor t) \<and> c \<notin> snd ` set (connections (sys_srv S))) \<and>
      (\<forall>call. loop_call app call \<and> enabled call t \<longrightarrow> do_call user call t = Inl LengthError \<or>
         (\<exists>t' s. do_call user call t = Inr t' \<and> on_close c t t' (sys_srv S) = Inr s))) \<and>
    (\<forall>a. srv_allowed a (sys_srv S) \<longrightarrow> isOK (srv_do a (sys_srv S)))"
proof (intro conjI ballI allI impI)
  have inv: "sys_inv S" by (rule sys_reach [OF assms])
  then have srv: "srv_inv (sys_srv S)" by (simp add: sys_inv_def)
  fix c assume c: "c \<in> set (established (sys_srv S))"
  from sys_conn_of [OF inv c] obtain t where t: "sys_conn S (cr_id c) = Some t" "conn_rel S c t" by blast
  have "do_call user CallEstablished t = Inl LengthError \<or> isOK (do_call user CallEstablished t)" if "cr_id c \<notin> sys_est S"
    using that t(2) do_call_ok [OF assms(1), of t CallEstablished] by (auto simp: conn_rel_def ok_or_len_def isOK_def split: sum.splits)
  moreover have down: "cr_id c \<in> sys_est S" "state t = kDisconnected" if "c \<in> set (destroyed (sys_srv S))"
    using that t(2) closed_down [of t] by (auto simp: conn_rel_def)
  moreover from down(2) have "isOK (do_call user CallDestroyed t)" if "c \<in> set (destroyed (sys_srv S))" "cr_id c \<notin> sys_dst S"
    using that t(2) tcp_chan_disconnected [of t]
    by (auto simp: conn_rel_def tcp_inv_def connectDestroyed_def Channel_remove_def isNoneEvent_def kNoneEvent_def)
  moreover have "isOK (TcpConnection_dtor t) \<and> c \<notin> snd ` set (connections (sys_srv S))" if "cr_id c \<in> sys_dst S"
    using that t(2) down(2) srv by (auto simp: conn_rel_def TcpConnection_dtor_def srv_inv_def srv_map_def)
  moreover have "do_call user call t = Inl LengthError \<or> (\<exists>t' s. do_call user call t = Inr t' \<and> on_close c t t' (sys_srv S) = Inr s)"
    if "loop_call app call \<and> enabled call t" for call
    using sys_call_safe [OF assms(1) inv c t(2)] that by blast
  moreover have "tcp_inv t" "FxClose \<in> set (fx t) \<longleftrightarrow> c \<in> set (closing (sys_srv S)) \<union> set (destroyed (sys_srv S))"
    using t(2) by (auto simp: conn_rel_def)
  ultimately show "\<exists>t. sys_conn S (cr_id c) = Some t \<and> tcp_inv t \<and>
      (FxClose \<in> set (fx t) \<longleftrightarrow> c \<in> set (closing (sys_srv S)) \<union> set (destroyed (sys_srv S))) \<and>
      (cr_id c \<notin> sys_est S \<longrightarrow> do_call user CallEstablished t = Inl LengthError \<or> isOK (do_call user CallEstablished t)) \<and>
      (c \<in> set (destroyed (sys_srv S)) \<longrightarrow> cr_id c \<in> sys_est S \<and> state t = kDisconnected \<and>
         (cr_id c \<notin> sys_dst S \<longrightarrow> isOK (do_call user CallDestroyed t))) \<and>
      (cr_id c \<in> sys_dst S \<longrightarrow> isOK (TcpConnection_dtor t) \<and> c \<notin> snd ` set (connections (sys_srv S))) \<and>
      (\<forall>call. loop_call app call \<and> enabled call t \<longrightarrow> do_call user call t = Inl LengthError \<or>
         (\<exists>t' s. do_call user call t = Inr t' \<and> on_close c t t' (sys_srv S) = Inr s))"
    using t(1) by (intro exI [of _ t]) blast
next
  fix a assume "srv_allowed a (sys_srv S)"
  moreover have "srv_inv (sys_srv S)" using sys_reach [OF assms] by (simp add: sys_inv_def)
  ultimately show "isOK (srv_do a (sys_srv S))" using srv_do_inv by (fastforce simp: isOK_iff)
qed

text \<open>A system that has accepted one client on the descriptor 7.\<close>

lemma demo_system:
  assumes n: "0 \<le> (n :: int)" "n < 2 ^ 31"
  shows "\<exists>S0 S t c. sys_init S0 \<and> (sys_step user app)\<^sup>*\<^sup>* S0 S \<and> established (sys_srv S) = [c] \<and> sys_est S = {} \<and>
     TcpConnection_ctor 7 = Inr t \<and> sys_conn S (cr_id c) = Some t \<and>
     (n = 0 \<longrightarrow> TcpServer_ctor ref_ntop6 0 demo_addr nm kNoReusePort 3 0 4 demo_kern = Inr (sys_srv S0))"
proof -
  obtain s00 s0 s1 s where s00: "TcpServer_ctor ref_ntop6 0 demo_addr nm kNoReusePort 3 0 4 demo_kern = Inr s00"
    "srv_setThreadNum n s00 = Inr s0" "n = 0 \<longrightarrow> s0 = s00" and
    s2: "srv_do (SrvStart False Suc) s0 = Inr s1" "srv_allowed (SrvListen 0) s1"
    "srv_do (SrvListen 0) s1 = Inr s" "listenning (acceptor s)" "nextConnId s = 1" "established s = []"
    using demo_listen [OF n, of nm] by blast
  note s = srv_initI [OF n s00(1,2)] s2
  have inv: "srv_inv s0" "srv_inv s1" "srv_inv s"
    using srv_init_inv [OF ref_ntop6_ok s(1)] srv_do_inv [of s0 "SrvStart False Suc"] srv_do_inv [OF _ s(3)] s(2,4) by auto
  have acc: "srv_allowed (SrvAccept 7 demo_addr) s" using s(5,6) by simp
  from srv_do_inv [OF inv(3) acc] obtain s' where s': "srv_do (SrvAccept 7 demo_addr) s = Inr s'" by blast
  from srv_accept_books [OF s' inv(3) acc] s(7) obtain c where c: "established s' = [c]" "cr_id c = nat (nextConnId s)" by auto
  obtain t where t: "TcpConnection_ctor 7 = Inr t"
    using Buffer_ctor_ok [OF kInitialSize_fits] by (auto simp: TcpConnection_ctor_def)
  let ?S = "\<lambda>s. \<lparr>sys_srv = s, sys_conn = (\<lambda>_. None), sys_est = {}, sys_dst = {}\<rparr>"
  let ?S' = "(?S s)\<lparr>sys_srv := s', sys_conn := [nat (nextConnId s) \<mapsto> with_callbacks False None t]\<rparr>"
  have "sys_init (?S s0)" using s(1) ref_ntop6_ok by (auto simp: sys_init_def)
  moreover have "sys_step user app (?S s0) (?S s1)"
    using sys_server [of "SrvStart False Suc" False Suc 0 "?S s0" s1 user app] s(2) by simp
  moreover have "sys_step user app (?S s1) (?S s)"
    using sys_server [of "SrvListen 0" False Suc 0 "?S s1" s user app] s(3,4) by simp
  moreover have "sys_step user app (?S s) ?S'"
    using sys_accept [of 7 demo_addr "?S s" s' t user app False None] acc s' t by simp
  ultimately have "sys_init (?S s0)" "(sys_step user app)\<^sup>*\<^sup>* (?S s0) ?S'" by (auto intro: converse_rtranclp_into_rtranclp)
  moreover have "with_callbacks False None t = t" by (simp add: with_callbacks_def)
  ultimately show ?thesis using c t s00 by (intro exI [of _ "?S s0"] exI [of _ ?S'] exI [of _ t] exI [of _ c]) simp
qed

theorem server_system_safe_witness:
  "\<exists>(S :: system) c t. established (sys_srv S) = [c] \<and> sys_conn S (cr_id c) = Some t \<and> FxClose \<notin> set (fx t) \<and>
     (do_call demo_conn_user CallEstablished t = Inl LengthError \<or> isOK (do_call demo_conn_user CallEstablished t))"
proof -
  obtain S0 S t c where S: "sys_init S0" "(sys_step demo_conn_user (\<lambda>_. True))\<^sup>*\<^sup>* S0 S" "established (sys_srv S) = [c]"
    "sys_est S = {}" "TcpConnection_ctor 7 = Inr t" "sys_conn S (cr_id c) = Some t" using demo_system [of 1 demo_conn_user "\<lambda>_. True"] by auto
  have "fx t = []" using S(5) by (auto simp: TcpConnection_ctor_def result_simps)
  with server_system_safe [OF demo_conn.user_ok S(1,2)] S(3,4,6) show ?thesis
    by (intro exI [of _ S] exI [of _ c] exI [of _ t]) simp
qed

end
