(* ===== verification/NW_Echo.thy ===== *)
theory NW_Echo
  imports NW_ServerSystem
begin

text \<open>
  \<^verbatim>\<open>test/src/echo.cpp\<close>: the echo server, an application of the whole stack.

  \<open>echo_onMessage\<close> is the message callback as it is written. For the system of
  \<open>NW_ServerSystem\<close> the application is the function \<open>echo_user\<close> of the calls it makes; the
  two agree as long as a message has less than \<open>2 ^ 31\<close> bytes (\<open>echo_callback\<close>), which the size of
  the input buffer guarantees. The locale \<open>conn_app\<close> is what an application has to show
  of one connection, callback by callback, to have it for every connection of a running server.
\<close>

section \<open>The program\<close>

definition EchoServer_ctor ::
    "(byte list \<Rightarrow> string) \<Rightarrow> nat \<Rightarrow> InetAddress \<Rightarrow> int \<Rightarrow> int \<Rightarrow> int \<Rightarrow> kstate \<Rightarrow> TcpServer result" where
  "EchoServer_ctor ntop6 loop listenAddr sock bindret idle k =
     TcpServer_ctor ntop6 loop listenAddr ''EchoServer'' kNoReusePort sock bindret idle k"

definition EchoServer_start :: "bool \<Rightarrow> (nat \<Rightarrow> nat) \<Rightarrow> TcpServer \<Rightarrow> TcpServer result" where
  "EchoServer_start isInLoopThread new_loop s = srv_start isInLoopThread False new_loop s"

text \<open>The line \<open>onConnection\<close> logs.\<close>

definition echo_onConnection :: "(byte list \<Rightarrow> string) \<Rightarrow> InetAddress \<Rightarrow> InetAddress \<Rightarrow> TcpConnection \<Rightarrow> string result" where
  "echo_onConnection ntop6 peerAddr localAddr s =
     rbind (toIpPort ntop6 peerAddr) (\<lambda>p. rbind (toIpPort ntop6 localAddr) (\<lambda>l.
       Inr (p @ '' -> '' @ l @ '' is '' @ (if tcp_connected s then ''UP'' else ''DOWN''))))"

definition echo_onMessage :: "write_result \<Rightarrow> TcpConnection \<Rightarrow> TcpConnection result" where
  "echo_onMessage wr s =
     rbind (retrieveAllAsString (inputBuffer s)) (\<lambda>(msg, b).
       rbind (sp_of_string msg) (\<lambda>p.
         send_piece True p wr (s\<lparr>inputBuffer := b, consumed := consumed s @ msg\<rparr>)))"

text \<open>The same as calls on the connection; \<open>wt\<close> is what \<open>write(2)\<close> answers for so many bytes.\<close>

definition to_nul :: "byte list \<Rightarrow> byte list" where
  "to_nul = takeWhile (\<lambda>b. b \<noteq> 0)"

definition echo_user :: "(TcpConnection \<Rightarrow> nat \<Rightarrow> write_result) \<Rightarrow> user" where
  "echo_user wt ev s =
     (case ev of
        MessageEv \<Rightarrow> (let data = to_nul (buf_content (inputBuffer s))
                     in [UConsume (readableBytes (inputBuffer s)), USend data (wt s (length data))])
      | _ \<Rightarrow> [])"

definition echo_init :: "(byte list \<Rightarrow> string) \<Rightarrow> system \<Rightarrow> bool" where
  "echo_init ntop6 S \<longleftrightarrow> (\<exists>loop addr sock bindret idle k. EchoServer_ctor ntop6 loop addr sock bindret idle k = Inr (sys_srv S)) \<and>
     sys_conn S = (\<lambda>_. None) \<and> sys_est S = {} \<and> sys_dst S = {}"

lemma echo_sys_init: "ntop6_ok ntop6 \<Longrightarrow> echo_init ntop6 S \<Longrightarrow> sys_init S"
proof -
  assume n: "ntop6_ok ntop6" and S: "echo_init ntop6 S"
  from S obtain loop addr sock bindret idle k where
    s: "TcpServer_ctor ntop6 loop addr ''EchoServer'' kNoReusePort sock bindret idle k = Inr (sys_srv S)"
    by (auto simp: echo_init_def EchoServer_ctor_def)
  then have "threadPool (sys_srv S) = EventLoopThreadPool_ctor loop ''EchoServer''"
    by (auto simp: TcpServer_ctor_def result_simps) (metis TcpServer.select_convs(4))
  then have "(sys_srv S)\<lparr>threadPool := setThreadNum 0 (threadPool (sys_srv S))\<rparr> = sys_srv S"
    by (simp add: setThreadNum_def EventLoopThreadPool_ctor_def)
  then have "srv_setThreadNum 0 (sys_srv S) = Inr (sys_srv S)" by (simp add: srv_setThreadNum_def)
  from srv_initI [OF _ _ s this] n S show ?thesis by (auto simp: sys_init_def echo_init_def)
qed

section \<open>The callback and the calls it makes\<close>

lemma to_nul_length: "length (to_nul xs) \<le> length xs"
  unfolding to_nul_def by (rule length_takeWhile_le)

lemma consume_all:
  assumes "Buffer_inv b"
  shows "retrieveAsString (readableBytes b) b = Inr (buf_content b, retrieveAll b)"
  using assms read_at_peek [OF assms, of "readableBytes b"]
  by (simp add: retrieveAsString_def retrieve_def length_buf_content [symmetric])

lemma echo_callback:
  assumes "Buffer_inv (inputBuffer s)" "length (buf_content (inputBuffer s)) < 2 ^ 31"
  shows "run_callback (echo_user wt) MessageEv s =
    (let s1 = emit FxMessage s in echo_onMessage (wt s1 (length (to_nul (buf_content (inputBuffer s))))) s1)"
proof -
  obtain p where p: "sp_of_string (buf_content (inputBuffer s)) = Inr p"
    using stringpiece_of_string_truncates [OF assms(2)] by blast
  have "sendInLoop_piece p wr t = sendInLoop (to_nul (buf_content (inputBuffer s))) wr t" for wr t
    using queued_send_truncates [OF assms(2), of wr t] p by (simp add: run_queued_send_def to_nul_def)
  moreover have "rbind m (rfold exec_ucmd []) = m" for m by (cases m) simp_all
  ultimately show ?thesis using p consume_all [OF assms(1)]
    by (simp add: run_callback_def Let_def ev_fx_def echo_user_def echo_onMessage_def retrieveAllAsString_def send_piece_def)
qed

text \<open>Everything else the echo server ignores.\<close>

lemma echo_quiet: "ev \<noteq> MessageEv \<Longrightarrow> run_callback (echo_user wt) ev s = Inr (emit (ev_fx ev) s)"
  by (cases ev) (simp_all add: run_callback_def echo_user_def)

section \<open>The size of the input buffer\<close>

lemma makeSpace_size:
  assumes "Buffer_inv b" "len \<le> vector_max_size" "makeSpace len b = Inr b'"
  shows "length (buffer_v b') \<le> max (length (buffer_v b)) (writerIndex b + len)"
proof -
  have "writerIndex b + len < 2 ^ 64" using assms(1,2) by (auto simp: Buffer_inv_def vector_max_size_def)
  then have "uadd64 (writerIndex b) len = writerIndex b + len" by (rule uadd64_exact)
  with assms(3) show ?thesis
    by (auto simp: makeSpace_def vector_resize_def copy_into_def Let_def result_simps split: if_splits)
qed

lemma append_mem_size:
  assumes "Buffer_inv b" "len \<le> vector_max_size" "append_mem mem len b = Inr b'"
  shows "length (buffer_v b') \<le> max (length (buffer_v b)) (writerIndex b + len)"
proof -
  from assms(3) obtain b1 where b1: "ensureWritableBytes len b = Inr b1" "length (buffer_v b') = length (buffer_v b1)"
    by (auto simp: append_mem_def hasWritten_def copy_into_def result_simps split: if_splits)
  then have "b1 = b \<or> makeSpace len b = Inr b1" by (auto simp: ensureWritableBytes_def result_simps split: if_splits)
  with makeSpace_size [OF assms(1,2)] b1(2) show ?thesis by auto
qed

lemma readFd_size:
  assumes inv: "Buffer_inv b" and cap: "length bs \<le> iov_capacity b" and run: "readFd (ReadOk bs) b = Inr (n, e, b')"
    and size: "length (buffer_v b) \<le> writerIndex b + 2 * extrabuf_size"
  shows "length (buffer_v b') \<le> writerIndex b + 2 * extrabuf_size"
proof (cases "length bs \<le> writableBytes b")
  case True
  with run size show ?thesis by (auto simp: readFd_def Let_def copy_into_def result_simps split: if_splits)
next
  case False
  from readFd_long [OF inv False cap] obtain b1 where b1: "readFd (ReadOk bs) b =
      rbind (append_mem (drop (writableBytes b) bs) (length bs - writableBytes b) b1) (\<lambda>b2. Inr (int (length bs), None, b2))"
    "Buffer_inv b1" "writerIndex b1 = writerIndex b + writableBytes b" "length bs - writableBytes b \<le> vector_max_size"
    "length (buffer_v b1) = length (buffer_v b)"
    by auto
  with run have "append_mem (drop (writableBytes b) bs) (length bs - writableBytes b) b1 = Inr b'" by (auto simp: result_simps)
  from append_mem_size [OF b1(2,4) this] b1(3,5) size False cap show ?thesis
    by (auto simp: iov_capacity_def split: if_splits)
qed

section \<open>Applications on a running server\<close>

text \<open>
  What the callbacks of an application keep of a connection, under the events of the poller, holds of
  every connection of the server.
\<close>

locale conn_app = tcp_user user for user :: user +
  fixes P :: "TcpConnection \<Rightarrow> bool"
  assumes P_init: "TcpConnection_ctor n = Inr t \<Longrightarrow> P (with_callbacks wc hw t)"
    and P_channel: "P (t\<lparr>channel := ch\<rparr>) = P t"
    and P_up: "P t \<Longrightarrow> connectEstablished user t = Inr t' \<Longrightarrow> P t'"
    and P_gone: "P t \<Longrightarrow> connectDestroyed user t = Inr t' \<Longrightarrow> P t'"
    and P_event: "tcp_inv t \<Longrightarrow> P t \<Longrightarrow> cb = CloseCallback \<or> cb = ReadCallback \<longrightarrow> active t \<Longrightarrow> kernel_ok rd wt \<Longrightarrow>
      tcp_invoke user rd wt cb t = Inr t' \<Longrightarrow> P t'"
begin

lemma dispatch_keeps:
  assumes "kernel_ok rd wt" "tcp_inv s" "phase s \<noteq> 0" "closers cbs \<le> (if active s then 1 else 0)" "P s"
    and "rfold (tcp_invoke user rd wt) cbs s = Inr s'"
  shows "P s'"
  using assms(2-)
proof (induction cbs arbitrary: s)
  case (Cons cb cbs)
  from Cons.prems(5) obtain t where t: "tcp_invoke user rd wt cb s = Inr t" "rfold (tcp_invoke user rd wt) cbs t = Inr s'"
    by (auto simp: result_simps)
  have a: "cb = CloseCallback \<or> cb = ReadCallback \<longrightarrow> active s"
    using Cons.prems(3) by (auto simp: closers_def split: if_splits)
  from tcp_invoke_ok [OF user_ok assms(1) Cons.prems(1,2) a] t(1)
  have t1: "tcp_inv t" "phase t \<noteq> 0" "cb = ErrorCallback \<or> cb = WriteCallback \<longrightarrow> phase t = phase s" by auto
  have "closers cbs \<le> (if active t then 1 else 0)"
    using Cons.prems(3) t1(3) by (cases cb) (auto simp: closers_def phase_simps(2) [symmetric] split: if_splits)
  with Cons.IH [OF t1(1,2) _ P_event [OF Cons.prems(1,4) a assms(1) t(1)] t(2)] show ?case by blast
qed simp

lemma event_keeps:
  assumes "kernel_ok rd wt" "tcp_inv s" "active s" "safe_mask rv" "P s" "tcp_handleEvent user rv rd wt s = Inr s'"
  shows "P s'"
proof -
  let ?s = "s\<lparr>channel := (set_revents rv (channel s))\<lparr>eventHandling := True\<rparr>\<rparr>"
  have s: "tcp_inv ?s" "active ?s" "phase ?s \<noteq> 0" "P ?s"
    using assms(2,3,5) by (simp_all add: tcp_inv_channel set_revents_def active_def P_channel) (auto simp: phase_def)
  from assms(6) obtain u where u: "rfold (tcp_invoke user rd wt) (dispatch rv) ?s = Inr u"
    "s' = u\<lparr>channel := (channel u)\<lparr>eventHandling := False\<rparr>\<rparr>"
    by (auto simp: tcp_handleEvent_def handleEvent_def handleEventWithGuard_def set_revents_def result_simps split: if_splits)
  have "P u" by (rule dispatch_keeps [OF assms(1) s(1,3) _ s(4) u(1)]) (use safe_mask_closers [OF assms(4)] s(2) in simp)
  then show ?thesis by (simp add: u(2) P_channel)
qed

lemma app_invariant:
  assumes "sys_init S0" "(sys_step user (\<lambda>_. False))\<^sup>*\<^sup>* S0 S" "sys_conn S i = Some t"
  shows "P t"
proof -
  have "\<forall>i t. sys_conn S i = Some t \<longrightarrow> P t"
  proof (rule sys_conn_invariant [OF user_ok assms(1,2), where P = P])
    fix call t t' assume t: "tcp_inv t" "P t" "enabled call t"
      "loop_call (\<lambda>_. False) call \<or> call = CallEstablished \<or> call = CallDestroyed" "do_call user call t = Inr t'"
    show "P t'"
    proof (cases call)
      case (CallEvent rv rd wt)
      with t have "kernel_ok rd wt" "active t" "safe_mask rv" "tcp_handleEvent user rv rd wt t = Inr t'" by simp_all
      with t(1,2) show ?thesis using event_keeps by blast
    next
      case CallEstablished
      with t P_up [of t t'] show ?thesis by simp
    next
      case CallDestroyed
      with t P_gone [of t t'] show ?thesis by simp
    qed (use t(4) in simp_all)
  qed (rule P_init)
  with assms(3) show ?thesis by blast
qed

end

section \<open>The echo server is such an application\<close>

definition echo_io :: "byte list \<Rightarrow> byte list \<Rightarrow> nat \<Rightarrow> bool" where
  "echo_io got given k \<longleftrightarrow> (\<exists>chunks. [] \<notin> set chunks \<and> length chunks = k \<and> got = concat chunks \<and> given = concat (map to_nul chunks))"

definition echo_inv :: "TcpConnection \<Rightarrow> bool" where
  "echo_inv t \<longleftrightarrow> state t \<noteq> kDisconnecting \<and> readerIndex (inputBuffer t) = kCheapPrepend \<and> writerIndex (inputBuffer t) = kCheapPrepend \<and>
     length (buffer_v (inputBuffer t)) \<le> kCheapPrepend + 2 * extrabuf_size \<and>
     echo_io (received t) (accepted t) (count_list (fx t) FxMessage)"

definition write_ok :: "(TcpConnection \<Rightarrow> nat \<Rightarrow> write_result) \<Rightarrow> bool" where
  "write_ok wt \<longleftrightarrow> (\<forall>s n. write_fits (wt s n) n \<and> wt s n \<noteq> WriteErr EPIPE \<and> wt s n \<noteq> WriteErr ECONNRESET)"

lemma echo_io_snoc: "echo_io got given k \<Longrightarrow> bs \<noteq> [] \<Longrightarrow> echo_io (got @ bs) (given @ to_nul bs) (Suc k)"
proof -
  assume "echo_io got given k" "bs \<noteq> []"
  then obtain chunks where c: "[] \<notin> set chunks" "length chunks = k" "got = concat chunks" "given = concat (map to_nul chunks)"
    by (auto simp: echo_io_def)
  with \<open>bs \<noteq> []\<close> show ?thesis unfolding echo_io_def by (intro exI [of _ "chunks @ [bs]"]) simp
qed

lemma sendInLoop_keeps:
  assumes "sendInLoop data wr s = Inr s'"
  shows "state s' = state s" "inputBuffer s' = inputBuffer s" "received s' = received s"
    "count_list (fx s') FxMessage = count_list (fx s) FxMessage"
    "state s = kConnected \<Longrightarrow> wr \<noteq> WriteErr EPIPE \<Longrightarrow> wr \<noteq> WriteErr ECONNRESET \<Longrightarrow> accepted s' = accepted s @ data"
  using assms by (auto simp: sendInLoop_def send_direct_def Let_def result_simps split: if_splits write_result.splits)

lemma echo_message:
  assumes "tcp_inv t" "echo_inv t" "active t" "write_ok wt" "bs \<noteq> []" "length bs \<le> iov_capacity (inputBuffer t)"
    and read: "readFd (ReadOk bs) (inputBuffer t) = Inr (n, e, b)"
    and run: "run_callback (echo_user wt) MessageEv (t\<lparr>inputBuffer := b, received := received t @ bs\<rparr>) = Inr t'"
  shows "echo_inv t'"
proof -
  let ?t = "emit FxMessage (t\<lparr>inputBuffer := b, received := received t @ bs\<rparr>)"
  have inb: "Buffer_inv (inputBuffer t)" using assms(1) by (simp add: tcp_inv_def tcp_data_def)
  have ib: "writerIndex (inputBuffer t) = kCheapPrepend" "buf_content (inputBuffer t) = []"
    "length (buffer_v (inputBuffer t)) \<le> kCheapPrepend + 2 * extrabuf_size" "state t = kConnected"
    using assms(2,3) by (auto simp: echo_inv_def buf_content_def active_def)
  from readFd_refines [OF inb, of "ReadOk bs"] read assms(6) ib(2) have b: "Buffer_inv b" "buf_content b = bs"
    by (auto simp: buf_op_refines_def)
  have size: "length (buffer_v b) \<le> kCheapPrepend + 2 * extrabuf_size" using readFd_size [OF inb assms(6) read] ib by simp
  let ?u = "?t\<lparr>inputBuffer := retrieveAll b, consumed := consumed ?t @ bs\<rparr>"
  let ?wr = "wt ?t (length (to_nul bs))"
  from run b consume_all [OF b(1)] ib(4) have "sendInLoop (to_nul bs) ?wr ?u = Inr t'"
    by (auto simp: run_callback_def Let_def ev_fx_def echo_user_def result_simps)
  note keep = sendInLoop_keeps [OF this]
  have "accepted t' = accepted t @ to_nul bs" using keep(5) ib(4) assms(4) by (simp add: write_ok_def)
  moreover have "received t' = received t @ bs" "count_list (fx t') FxMessage = Suc (count_list (fx t) FxMessage)" "state t' = kConnected"
    "inputBuffer t' = retrieveAll b" using keep(1-4) ib(4) by simp_all
  ultimately show ?thesis
    using assms(2,5) size echo_io_snoc by (simp add: echo_inv_def retrieveAll_def)
qed

lemma echo_close: "tcp_handleClose (echo_user wt) t = Inr t' \<Longrightarrow> echo_inv t \<Longrightarrow> echo_inv t'"
  by (auto simp: tcp_handleClose_def echo_quiet ev_fx_def result_simps echo_inv_def setState_def)

lemma echo_write: "tcp_handleWrite wr t = Inr t' \<Longrightarrow> echo_inv t \<Longrightarrow> echo_inv t'"
  by (auto simp: tcp_handleWrite_def Let_def result_simps echo_inv_def split: if_splits write_result.splits)

lemma echo_read:
  assumes t: "tcp_inv t" "echo_inv t" "active t" and wt: "write_ok wt"
    and cap: "\<And>bs. rr = ReadOk bs \<Longrightarrow> length bs \<le> iov_capacity (inputBuffer t)"
    and run: "tcp_handleRead (echo_user wt) rr t = Inr t'"
  shows "echo_inv t'"
proof (cases rr)
  case (ReadErr e)
  with run t(2) show ?thesis by (auto simp: tcp_handleRead_def readFd_def tcp_handleError_def)
next
  case (ReadOk bs)
  from run obtain n e b where b: "readFd (ReadOk bs) (inputBuffer t) = Inr (n, e, b)"
    by (auto simp: tcp_handleRead_def result_simps ReadOk)
  have n: "n = int (length bs)" using b by (rule readFd_count)
  show ?thesis
  proof (cases "bs = []")
    case True
    have inb: "Buffer_inv (inputBuffer t)" using t(1) by (simp add: tcp_inv_def tcp_data_def)
    have "uadd64 kCheapPrepend 0 = kCheapPrepend" by (simp add: kCheapPrepend_def uadd64_def)
    then have "echo_inv (t\<lparr>inputBuffer := b, received := received t\<rparr>)"
      using b True t(2) by (auto simp: readFd_def Let_def copy_into_def result_simps echo_inv_def split: if_splits)
    moreover have "tcp_handleClose (echo_user wt) (t\<lparr>inputBuffer := b, received := received t\<rparr>) = Inr t'"
      using run b n True ReadOk by (simp add: tcp_handleRead_def)
    ultimately show ?thesis using echo_close by blast
  next
    case False
    with run b n ReadOk have "run_callback (echo_user wt) MessageEv (t\<lparr>inputBuffer := b, received := received t @ bs\<rparr>) = Inr t'"
      by (simp add: tcp_handleRead_def)
    with echo_message [OF t wt False cap [OF ReadOk] b] show ?thesis .
  qed
qed

lemma echo_event:
  assumes "tcp_inv t" "echo_inv t" "write_ok wt" "kernel_ok rd kw" "cb = CloseCallback \<or> cb = ReadCallback \<longrightarrow> active t"
    and "tcp_invoke (echo_user wt) rd kw cb t = Inr t'"
  shows "echo_inv t'"
proof (cases cb)
  case ReadCallback
  then have act: "active t" and run: "tcp_handleRead (echo_user wt) (rd (iov_capacity (inputBuffer t))) t = Inr t'"
    using assms(5,6) by simp_all
  have "length bs \<le> iov_capacity (inputBuffer t)" if "rd (iov_capacity (inputBuffer t)) = ReadOk bs" for bs
    using that assms(4) by (simp add: kernel_ok_def)
  from echo_read [OF assms(1,2) act assms(3) this run] show ?thesis by blast
next
  case WriteCallback
  with assms(2,6) echo_write show ?thesis by simp
next
  case CloseCallback
  with assms(2,6) echo_close show ?thesis by simp
next
  case ErrorCallback
  with assms(2,6) show ?thesis by (simp add: tcp_handleError_def)
qed

lemma echo_ctor:
  assumes "TcpConnection_ctor n = Inr t"
  shows "echo_inv (with_callbacks wc hw t)"
proof -
  from assms obtain b where "Buffer_ctor kInitialSize = Inr b" "inputBuffer t = b" "state t = kConnecting"
    "received t = []" "accepted t = []" "fx t = []" by (auto simp: TcpConnection_ctor_def result_simps)
  moreover from this(1) have "b = \<lparr>buffer_v = replicate 1032 0, readerIndex = 8, writerIndex = 8\<rparr>"
    by (auto simp: Buffer_ctor_def vector_resize_def Let_def result_simps kInitialSize_def kCheapPrepend_def uadd64_def split: if_splits)
  ultimately show ?thesis by (simp add: echo_inv_def echo_io_def extrabuf_size_def kCheapPrepend_def)
qed

lemma echo_user_ok: "write_ok wt \<Longrightarrow> user_ok (echo_user wt)"
proof -
  assume wt: "write_ok wt"
  have "length (to_nul (buf_content (inputBuffer s))) \<le> vector_max_size" if "tcp_inv s" for s
  proof -
    have "Buffer_inv (inputBuffer s)" using that by (simp add: tcp_inv_def tcp_data_def)
    then have "length (buf_content (inputBuffer s)) \<le> vector_max_size" by (auto simp: Buffer_inv_def buf_content_def)
    with to_nul_length [of "buf_content (inputBuffer s)"] show ?thesis by linarith
  qed
  with wt show ?thesis by (auto simp: user_ok_def echo_user_def write_ok_def Let_def split: conn_event.splits)
qed

locale echo_kernel =
  fixes wt :: "TcpConnection \<Rightarrow> nat \<Rightarrow> write_result"
  assumes write_ok: "write_ok wt"

sublocale echo_kernel \<subseteq> conn_app "echo_user wt" echo_inv
proof
  show "user_ok (echo_user wt)" using write_ok by (rule echo_user_ok)
  show "echo_inv t'" if "echo_inv t" "connectEstablished (echo_user wt) t = Inr t'" for t t'
    using that by (auto simp: connectEstablished_def Let_def echo_quiet ev_fx_def result_simps echo_inv_def setState_def)
  show "echo_inv t'" if "echo_inv t" "connectDestroyed (echo_user wt) t = Inr t'" for t t'
    using that by (auto simp: connectDestroyed_def echo_quiet ev_fx_def result_simps echo_inv_def setState_def split: if_splits)
  show "echo_inv t'" if "tcp_inv t" "echo_inv t" "cb = CloseCallback \<or> cb = ReadCallback \<longrightarrow> active t" "kernel_ok rd kw"
    "tcp_invoke (echo_user wt) rd kw cb t = Inr t'" for t cb rd kw t'
    using echo_event [OF that(1,2) write_ok that(4,3,5)] .
  show "echo_inv (with_callbacks wc hw t)" if "TcpConnection_ctor n = Inr t" for n t wc hw
    using that by (rule echo_ctor)
qed (simp add: echo_inv_def)

context echo_kernel
begin

lemmas echoing = app_invariant

end

text \<open>A kernel that takes one byte less than it is offered.\<close>

definition slow_writes :: "TcpConnection \<Rightarrow> nat \<Rightarrow> write_result" where
  "slow_writes s n = WriteOk (n - 1)"

interpretation slow: echo_kernel slow_writes
  by unfold_locales (simp add: write_ok_def slow_writes_def)

section \<open>Properties\<close>

lemma echo_io_no_nul: "echo_io got given k \<Longrightarrow> 0 \<notin> set got \<Longrightarrow> given = got"
proof -
  assume "echo_io got given k" "0 \<notin> set got"
  then obtain chunks where c: "0 \<notin> set (concat chunks)" "got = concat chunks" "given = concat (map to_nul chunks)"
    by (auto simp: echo_io_def)
  then have "map to_nul chunks = chunks" by (intro map_idI) (auto simp: to_nul_def takeWhile_eq_all_conv)
  with c show ?thesis by simp
qed

text \<open>
  Property C5. The echo server echoes. In every reachable state of an \<open>EchoServer\<close> and of any number of clients, however
  \<open>readv\<close> splits what they send and however little each \<open>write\<close> takes (unless the peer is gone), what went
  out on a connection followed by its output buffer is what its messages said, in
  order and once, except that every message is cut at its first NUL byte, because \<open>send(msg)\<close> turns the
  \<open>string\<close> into a \<open>StringPiece\<close> by \<open>strlen\<close>; bytes without NUL come back exactly as
  they came. Nothing stays in the input buffer, and it never grows beyond 128 KiB and 8 bytes.
\<close>

theorem echo_server_echoes:
  assumes "ntop6_ok ntop6" and "echo_init ntop6 S0" and "write_ok wt" and "(sys_step (echo_user wt) (\<lambda>_. False))\<^sup>*\<^sup>* S0 S"
    and "sys_conn S i = Some t"
  shows "(\<exists>chunks. [] \<notin> set chunks \<and> length chunks = count_list (fx t) FxMessage \<and> received t = concat chunks \<and>
      wire t @ buf_content (outputBuffer t) = concat (map to_nul chunks)) \<and>
    (0 \<notin> set (received t) \<longrightarrow> wire t @ buf_content (outputBuffer t) = received t) \<and>
    consumed t = received t \<and> length (buffer_v (inputBuffer t)) \<le> 8 + 128 * 1024"
proof -
  have ini: "sys_init S0" by (rule echo_sys_init [OF assms(1,2)])
  have e: "echo_inv t" using echo_kernel.echoing [OF echo_kernel.intro [OF assms(3)] ini assms(4,5)] .
  have "tcp_inv t" using sys_conn_inv [OF sys_reach [OF echo_user_ok [OF assms(3)] ini assms(4)] assms(5)] .
  then have t: "wire t @ buf_content (outputBuffer t) = accepted t" "consumed t @ buf_content (inputBuffer t) = received t"
    by (auto simp: tcp_inv_def tcp_data_def)
  have io: "echo_io (received t) (accepted t) (count_list (fx t) FxMessage)" and "buf_content (inputBuffer t) = []"
    and "length (buffer_v (inputBuffer t)) \<le> 8 + 128 * 1024"
    using e by (simp_all add: echo_inv_def buf_content_def kCheapPrepend_def extrabuf_size_def)
  with t(2) echo_io_no_nul [OF io] show ?thesis unfolding t(1) by (simp add: echo_io_def)
qed

text \<open>A run: a client connects and sends two bytes, of which the first goes out at once.\<close>

lemma sendInLoop_fits:
  assumes "Buffer_inv (outputBuffer s)" "buf_fits (outputBuffer s) (length data)"
  shows "\<exists>s'. sendInLoop data wr s = Inr s'"
proof -
  obtain n f u where d: "send_direct data wr s = (n, f, u)" by (metis prod_cases3)
  have "buf_fits (outputBuffer s) (length (drop n data))" using assms(2) by (simp add: buf_fits_def)
  from append_bytes_spec [OF assms(1) this] obtain b where b: "append_bytes (drop n data) (outputBuffer s) = Inr b" by blast
  have "outputBuffer u = outputBuffer s" using d by (auto simp: send_direct_def Let_def split: if_splits write_result.splits)
  with b have "append_bytes (drop n data) (outputBuffer (if h then emit e u else u)) = Inr b" for h e by simp
  with d show ?thesis by (simp add: sendInLoop_def Let_def)
qed

lemma demo_echo_call:
  assumes t: "tcp_inv t" "echo_inv t" "state t = kConnected" "outputBuffer t = inputBuffer t" "received t = []"
  shows "\<exists>t'. do_call (echo_user slow_writes) (CallEvent POLLIN (\<lambda>cap. ReadOk (take cap [104, 105])) (\<lambda>_. WriteErr EWOULDBLOCK)) t = Inr t' \<and>
    received t' = [104, 105]"
proof -
  let ?b = "inputBuffer t" and ?bs = "[104, 105] :: byte list"
  let ?t = "t\<lparr>channel := (set_revents POLLIN (channel t))\<lparr>eventHandling := True\<rparr>\<rparr>"
  have b: "Buffer_inv ?b" "writerIndex ?b = 8" "readerIndex ?b = 8" "length (buffer_v ?b) \<le> 131080"
    using t(1,2) by (auto simp: tcp_inv_def tcp_data_def echo_inv_def kCheapPrepend_def extrabuf_size_def)
  have cap: "take (iov_capacity ?b) ?bs = ?bs" "length ?bs \<le> iov_capacity ?b" by (simp_all add: iov_capacity_def extrabuf_size_def)
  have "buf_fits ?b (length ?bs)" using b(2) by (simp add: buf_fits_def vector_max_size_def)
  from readFd_fits [OF b(1) cap(2) this] obtain b' where b': "readFd (ReadOk ?bs) ?b = Inr (2, None, b')" by auto
  from readFd_refines [OF b(1), of "ReadOk ?bs"] b' cap(2) b(2,3) have b1: "Buffer_inv b'" "buf_content b' = ?bs"
    by (auto simp: buf_op_refines_def buf_content_def)
  let ?u = "emit FxMessage (?t\<lparr>inputBuffer := b', received := ?bs\<rparr>)"
  let ?v = "?u\<lparr>inputBuffer := retrieveAll b', consumed := consumed ?u @ ?bs\<rparr>"
  obtain w where w: "sendInLoop ?bs (WriteOk 1) ?v = Inr w"
    using sendInLoop_fits [of ?v ?bs] b(1,2) t(4) by (auto simp: buf_fits_def vector_max_size_def)
  have "dispatch POLLIN = [ReadCallback]" by (simp add: dispatch_def has_bits_def poll_flags)
  then have "do_call (echo_user slow_writes) (CallEvent POLLIN (\<lambda>cap. ReadOk (take cap ?bs)) (\<lambda>_. WriteErr EWOULDBLOCK)) t =
      Inr (w\<lparr>channel := (channel w)\<lparr>eventHandling := False\<rparr>\<rparr>)"
    using w b' b1 consume_all [OF b1(1)] t(3,5) cap(1)
    by (simp add: tcp_handleEvent_def handleEvent_def handleEventWithGuard_def set_revents_def tcp_handleRead_def Let_def
        run_callback_def ev_fx_def echo_user_def to_nul_def slow_writes_def)
  with sendInLoop_keeps(3) [OF w] show ?thesis by simp
qed

lemma demo_echo_up:
  assumes "TcpConnection_ctor 7 = Inr t"
  shows "\<exists>t'. do_call (echo_user slow_writes) CallEstablished t = Inr t' \<and> state t' = kConnected \<and>
    outputBuffer t' = inputBuffer t' \<and> received t' = []"
  using assms by (auto simp: TcpConnection_ctor_def result_simps connectEstablished_def Let_def echo_quiet setState_def)

lemma demo_echo:
  "\<exists>S0 S i t. echo_init ref_ntop6 S0 \<and> (sys_step (echo_user slow_writes) (\<lambda>_. False))\<^sup>*\<^sup>* S0 S \<and> sys_conn S i = Some t \<and> received t = [104, 105]"
proof -
  let ?step = "sys_step (echo_user slow_writes) (\<lambda>_. False)"
  obtain S0 S t c where S: "sys_init S0" "?step\<^sup>*\<^sup>* S0 S" "established (sys_srv S) = [c]" "sys_est S = {}"
    "TcpConnection_ctor 7 = Inr t" "sys_conn S (cr_id c) = Some t"
    "TcpServer_ctor ref_ntop6 0 demo_addr ''EchoServer'' kNoReusePort 3 0 4 demo_kern = Inr (sys_srv S0)"
    using demo_system [of 0 "echo_user slow_writes" "\<lambda>_. False" "''EchoServer''"] by auto
  then have ini: "echo_init ref_ntop6 S0" unfolding echo_init_def EchoServer_ctor_def sys_init_def by blast
  obtain t1 where t1: "do_call (echo_user slow_writes) CallEstablished t = Inr t1" "state t1 = kConnected"
    "outputBuffer t1 = inputBuffer t1" "received t1 = []" using demo_echo_up [OF S(5)] by blast
  let ?S1 = "S\<lparr>sys_conn := (sys_conn S)(cr_id c \<mapsto> t1), sys_est := insert (cr_id c) (sys_est S)\<rparr>"
  have "?step S ?S1" using S(3,4,6) t1(1) by (intro sys_establish) simp_all
  with S(2) have r1: "?step\<^sup>*\<^sup>* S0 ?S1" by (rule rtranclp.rtrancl_into_rtrancl)
  have c1: "sys_conn ?S1 (cr_id c) = Some t1" "c \<in> set (established (sys_srv ?S1))" using S(3) by simp_all
  have inv: "sys_inv ?S1" using sys_reach [OF slow.user_ok S(1) r1] .
  have e: "tcp_inv t1" "echo_inv t1" using sys_conn_inv [OF inv c1(1)] slow.echoing [OF S(1) r1 c1(1)] by blast+
  let ?call = "CallEvent POLLIN (\<lambda>cap. ReadOk (take cap [104, 105])) (\<lambda>_. WriteErr EWOULDBLOCK)"
  obtain t2 where t2: "do_call (echo_user slow_writes) ?call t1 = Inr t2" "received t2 = [104, 105]"
    using demo_echo_call [OF e t1(2-4)] by blast
  have en: "loop_call (\<lambda>_. False) ?call" "enabled ?call t1"
    using t1(2) by (auto simp: active_def kernel_ok_def safe_mask_def has_bits_def poll_flags)
  have "conn_rel ?S1 c t1" using inv c1 unfolding sys_inv_def by blast
  from sys_call_safe [OF slow.user_ok inv c1(2) this en] t2(1) obtain s where s: "on_close c t1 t2 (sys_srv ?S1) = Inr s" by auto
  let ?S2 = "?S1\<lparr>sys_srv := s, sys_conn := (sys_conn ?S1)(cr_id c \<mapsto> t2)\<rparr>"
  have "?step ?S1 ?S2" by (rule sys_call [OF c1(2,1) en t2(1) s])
  with r1 have "?step\<^sup>*\<^sup>* S0 ?S2" by (rule rtranclp.rtrancl_into_rtrancl)
  moreover have "sys_conn ?S2 (cr_id c) = Some t2" by simp
  ultimately show ?thesis using ini t2(2) by blast
qed

theorem echo_server_echoes_witness:
  "\<exists>(S :: system) i t. sys_conn S i = Some t \<and> received t = [104, 105] \<and> wire t @ buf_content (outputBuffer t) = [104, 105]"
proof -
  obtain S0 S i t where S: "echo_init ref_ntop6 S0" "(sys_step (echo_user slow_writes) (\<lambda>_. False))\<^sup>*\<^sup>* S0 S"
    "sys_conn S i = Some t" "received t = [104, 105]" using demo_echo by blast
  from echo_server_echoes [OF ref_ntop6_ok S(1) slow.write_ok S(2,3)] S(4)
  have "wire t @ buf_content (outputBuffer t) = [104, 105]" by simp
  with S(3,4) show ?thesis by blast
qed

end
