(* ===== verification/NW_Connector.thy ===== *)
theory NW_Connector
  imports NW_Channel NW_Sockets "HOL-Library.Multiset"
begin

text \<open>
  \<^verbatim>\<open>networker/net/Connector.h\<close> and \<^verbatim>\<open>networker/net/Connector.cpp\<close>: establishing an outgoing
  connection, with back-off.

  The record holds the members of the class and, after them, what the class has given to its
  surroundings: the functors it queued in the loop (\<open>pendingF\<close>), the delays of the timers it
  started and that have not fired (\<open>timers\<close>), and the histories of the sockets it created,
  closed and handed to \<open>newConnectionCallback_\<close>. Answers of the kernel are arguments:
  \<open>sys\<close> is the descriptor \<open>socket\<close> returned and the errno of \<open>connect\<close> (0 on success).

  \<open>do_action\<close> is one entry into the class; \<open>allowed\<close> is when it may come: a pending functor
  runs, a timer fires once the functors queued before it have run (its delay is at least half a
  second), an event comes for a channel that is registered, and the user calls \<open>start\<close> only
  on an idle connector and \<open>restart\<close> only after the connection it made is gone. The last
  property shows why \<open>start\<close> needs this.
\<close>

section \<open>Definitions\<close>

datatype States = kDisconnected | kConnecting | kConnected

definition kMaxRetryDelayMs :: int where "kMaxRetryDelayMs = 30 * 1000"

definition kInitRetryDelayMs :: int where "kInitRetryDelayMs = 500"

datatype conn_functor = F_startInLoop | F_stopInLoop | F_resetChannel

record Connector =
  connectOn :: bool
  cstate :: States
  cchannel :: "Channel option"
  retryDelayMs :: int
  pendingF :: "conn_functor list"
  timers :: "int list"
  created :: "int list"
  closed :: "int list"
  handed :: "int list"
  delays :: "int list"

definition Connector_ctor :: Connector where
  "Connector_ctor = \<lparr>connectOn = False, cstate = kDisconnected, cchannel = None,
     retryDelayMs = kInitRetryDelayMs, pendingF = [], timers = [], created = [], closed = [],
     handed = [], delays = []\<rparr>"

definition Connector_dtor :: "Connector \<Rightarrow> unit result" where
  "Connector_dtor s = c_assert (cchannel s = None) (Inr ())"

text \<open>
  \<open>channel_->disableAll(); channel_->remove()\<close>; the object itself is destroyed by a queued
  functor because the caller is inside its \<open>handleEvent\<close>.
\<close>

definition removeAndResetChannel :: "Connector \<Rightarrow> (int \<times> Connector) result" where
  "removeAndResetChannel s =
     (case cchannel s of None \<Rightarrow> Inl UseAfterFree
      | Some ch \<Rightarrow> rbind (Channel_remove (disableAll ch)) (\<lambda>ch'.
          Inr (fd ch', s\<lparr>cchannel := Some ch', pendingF := pendingF s @ [F_resetChannel]\<rparr>)))"

text \<open>\<open>channel_.reset()\<close> runs \<open>~Channel\<close>; the loop has the channel while it is added to it.\<close>

definition resetChannel :: "Connector \<Rightarrow> Connector result" where
  "resetChannel s =
     (case cchannel s of None \<Rightarrow> Inr s
      | Some ch \<Rightarrow> rbind (Channel_dtor True (addedToLoop ch) ch) (\<lambda>_. Inr (s\<lparr>cchannel := None\<rparr>)))"

definition retry :: "int \<Rightarrow> Connector \<Rightarrow> Connector" where
  "retry sockfd s =
     (let s' = s\<lparr>closed := closed s @ [sockfd], cstate := kDisconnected\<rparr> in
      if connectOn s'
      then s'\<lparr>timers := timers s' @ [retryDelayMs s'], delays := delays s' @ [retryDelayMs s'],
              retryDelayMs := min (retryDelayMs s' * 2) kMaxRetryDelayMs\<rparr>
      else s')"

definition connecting :: "int \<Rightarrow> Connector \<Rightarrow> Connector result" where
  "connecting sockfd s =
     (let s' = s\<lparr>cstate := kConnecting\<rparr> in
      c_assert (cchannel s' = None)
        (Inr (s'\<lparr>cchannel := Some (enableWriting (Channel_ctor sockfd))\<rparr>)))"

definition connect :: "int \<times> int \<Rightarrow> Connector \<Rightarrow> Connector result" where
  "connect sys s =
     (case sys of (sockfd, savedErrno) \<Rightarrow>
       let s' = s\<lparr>created := created s @ [sockfd]\<rparr> in
       if savedErrno \<in> {0, EINPROGRESS, EINTR, EISCONN} then connecting sockfd s'
       else if savedErrno \<in> {EAGAIN, EADDRINUSE, EADDRNOTAVAIL, ECONNREFUSED, ENETUNREACH}
       then Inr (retry sockfd s')
       else if savedErrno \<in> {EACCES, EPERM, EAFNOSUPPORT, EALREADY, EBADF, EFAULT, ENOTSOCK}
       then Inr (s'\<lparr>closed := closed s' @ [sockfd]\<rparr>)
       else Inr (s'\<lparr>closed := closed s' @ [sockfd]\<rparr>))"

definition startInLoop :: "int \<times> int \<Rightarrow> Connector \<Rightarrow> Connector result" where
  "startInLoop sys s =
     c_assert (cstate s = kDisconnected) (if connectOn s then connect sys s else Inr s)"

text \<open>\<open>runInLoop\<close> runs the functor at once in the loop thread and queues it otherwise.\<close>

definition start :: "bool \<Rightarrow> int \<times> int \<Rightarrow> Connector \<Rightarrow> Connector result" where
  "start in_loop sys s =
     (let s' = s\<lparr>connectOn := True\<rparr> in
      if in_loop then startInLoop sys s'
      else Inr (s'\<lparr>pendingF := pendingF s' @ [F_startInLoop]\<rparr>))"

definition stop :: "Connector \<Rightarrow> Connector" where
  "stop s = s\<lparr>connectOn := False, pendingF := pendingF s @ [F_stopInLoop]\<rparr>"

definition stopInLoop :: "Connector \<Rightarrow> Connector result" where
  "stopInLoop s =
     (if cstate s = kConnecting
      then rbind (removeAndResetChannel (s\<lparr>cstate := kDisconnected\<rparr>)) (\<lambda>(sockfd, s').
             Inr (retry sockfd s'))
      else Inr s)"

definition restart :: "int \<times> int \<Rightarrow> Connector \<Rightarrow> Connector result" where
  "restart sys s =
     startInLoop sys (s\<lparr>cstate := kDisconnected, retryDelayMs := kInitRetryDelayMs, delays := [],
                        connectOn := True\<rparr>)"

text \<open>The answers of \<open>getsockopt\<close>, \<open>getsockname\<close> and \<open>getpeername\<close>.\<close>

type_synonym sock_answers = "(int \<times> int \<times> int) \<times> InetAddress option \<times> InetAddress option"

definition handleWrite :: "sock_answers \<Rightarrow> Connector \<Rightarrow> Connector result" where
  "handleWrite ans s =
     (case ans of (opt, lans, pans) \<Rightarrow>
       if cstate s = kConnecting
       then rbind (removeAndResetChannel s) (\<lambda>(sockfd, s').
              if getSocketError opt \<noteq> 0 then Inr (retry sockfd s')
              else if isSelfConnect lans pans then Inr (retry sockfd s')
              else (let s'' = s'\<lparr>cstate := kConnected\<rparr> in
                    if connectOn s'' then Inr (s''\<lparr>handed := handed s'' @ [sockfd]\<rparr>)
                    else Inr (s''\<lparr>closed := closed s'' @ [sockfd]\<rparr>)))
       else c_assert (cstate s = kDisconnected) (Inr s))"

definition handleError :: "Connector \<Rightarrow> Connector result" where
  "handleError s =
     (if cstate s = kConnecting
      then rbind (removeAndResetChannel s) (\<lambda>(sockfd, s'). Inr (retry sockfd s'))
      else Inr s)"

text \<open>\<open>connecting\<close> installs the write and the error callback only.\<close>

fun ctr_invoke :: "sock_answers \<Rightarrow> chan_cb \<Rightarrow> Connector \<Rightarrow> Connector result" where
  "ctr_invoke ans WriteCallback s = handleWrite ans s"
| "ctr_invoke ans ErrorCallback s = handleError s"
| "ctr_invoke ans CloseCallback s = Inr s"
| "ctr_invoke ans ReadCallback s = Inr s"

definition ctr_handleEvent :: "32 word \<Rightarrow> sock_answers \<Rightarrow> Connector \<Rightarrow> Connector result" where
  "ctr_handleEvent rv ans s =
     (case cchannel s of None \<Rightarrow> Inl UseAfterFree
      | Some ch \<Rightarrow> handleEvent True (\<lambda>s. the (cchannel s)) (\<lambda>f s. s\<lparr>cchannel := map_option f (cchannel s)\<rparr>)
          (\<lambda>cb. cb = WriteCallback \<or> cb = ErrorCallback) (ctr_invoke ans)
          (s\<lparr>cchannel := Some (set_revents rv ch)\<rparr>))"

section \<open>Actions\<close>

fun run_functor :: "int \<times> int \<Rightarrow> conn_functor \<Rightarrow> Connector \<Rightarrow> Connector result" where
  "run_functor sys F_startInLoop s = startInLoop sys s"
| "run_functor sys F_stopInLoop s = stopInLoop s"
| "run_functor sys F_resetChannel s = resetChannel s"

datatype ctr_action =
    A_start bool "int \<times> int"
  | A_stop
  | A_restart "int \<times> int"
  | A_functor "int \<times> int"
  | A_timer nat "int \<times> int"
  | A_event "32 word" sock_answers

fun do_action :: "ctr_action \<Rightarrow> Connector \<Rightarrow> Connector result" where
  "do_action (A_start in_loop sys) s = start in_loop sys s"
| "do_action A_stop s = Inr (stop s)"
| "do_action (A_restart sys) s = restart sys s"
| "do_action (A_functor sys) s =
     (case pendingF s of [] \<Rightarrow> Inr s | f # fs \<Rightarrow> run_functor sys f (s\<lparr>pendingF := fs\<rparr>))"
| "do_action (A_timer i sys) s =
     startInLoop sys (s\<lparr>timers := take i (timers s) @ drop (Suc i) (timers s)\<rparr>)"
| "do_action (A_event rv ans) s = ctr_handleEvent rv ans s"

definition idle :: "Connector \<Rightarrow> bool" where
  "idle s \<longleftrightarrow> cstate s = kDisconnected \<and> cchannel s = None \<and> timers s = [] \<and> F_startInLoop \<notin> set (pendingF s)"

fun allowed :: "ctr_action \<Rightarrow> Connector \<Rightarrow> bool" where
  "allowed (A_start in_loop sys) s \<longleftrightarrow> idle s"
| "allowed A_stop s \<longleftrightarrow> True"
| "allowed (A_restart sys) s \<longleftrightarrow> cstate s = kConnected \<and> cchannel s = None"
| "allowed (A_functor sys) s \<longleftrightarrow> pendingF s \<noteq> []"
| "allowed (A_timer i sys) s \<longleftrightarrow> i < length (timers s) \<and> F_resetChannel \<notin> set (pendingF s)"
| "allowed (A_event rv ans) s \<longleftrightarrow> cstate s = kConnecting"

inductive ctr_step :: "Connector \<Rightarrow> Connector \<Rightarrow> bool" where
  "allowed a s \<Longrightarrow> do_action a s = Inr t \<Longrightarrow> ctr_step s t"

section \<open>Invariant\<close>

definition open_socks :: "Connector \<Rightarrow> int multiset" where
  "open_socks s = (if cstate s = kConnecting then {# fd (the (cchannel s)) #} else {#})"

definition balanced :: "Connector \<Rightarrow> bool" where
  "balanced s \<longleftrightarrow> mset (created s) = mset (closed s) + mset (handed s) + open_socks s"

definition backoff :: "nat \<Rightarrow> int" where
  "backoff n = min (500 * 2 ^ n) 30000"

definition backoff_ok :: "Connector \<Rightarrow> bool" where
  "backoff_ok s \<longleftrightarrow> delays s = map backoff [0..<length (delays s)] \<and> retryDelayMs s = backoff (length (delays s))"

definition resets :: "Connector \<Rightarrow> nat" where
  "resets s = count_list (pendingF s) F_resetChannel"

definition starts :: "Connector \<Rightarrow> nat" where
  "starts s = length (timers s) + count_list (pendingF s) F_startInLoop"

text \<open>The channel while connecting, and after it was removed and waits for its destruction.\<close>

definition chan_up :: "Connector \<Rightarrow> bool" where
  "chan_up s \<longleftrightarrow> (\<exists>ch. cchannel s = Some ch \<and> addedToLoop ch \<and> events ch = kWriteEvent \<and> \<not> tied ch)
     \<and> resets s = 0 \<and> starts s = 0"

definition chan_down :: "Connector \<Rightarrow> bool" where
  "chan_down s \<longleftrightarrow> (case cchannel s of None \<Rightarrow> resets s = 0 | Some ch \<Rightarrow> \<not> addedToLoop ch \<and> resets s = 1)"

definition not_handling :: "Connector \<Rightarrow> bool" where
  "not_handling s \<longleftrightarrow> (\<forall>ch. cchannel s = Some ch \<longrightarrow> \<not> eventHandling ch)"

definition ctr_core :: "Connector \<Rightarrow> bool" where
  "ctr_core s \<longleftrightarrow> balanced s \<and> backoff_ok s \<and>
     (case cstate s of
        kConnecting \<Rightarrow> chan_up s
      | kConnected \<Rightarrow> chan_down s \<and> starts s = 0
      | kDisconnected \<Rightarrow> chan_down s \<and> starts s \<le> 1 \<and>
          (F_startInLoop \<in> set (pendingF s) \<longrightarrow> cchannel s = None))"

definition ctr_inv :: "Connector \<Rightarrow> bool" where
  "ctr_inv s \<longleftrightarrow> ctr_core s \<and> not_handling s"

section \<open>Lemmas\<close>

lemma backoff_Suc: "min (backoff n * 2) 30000 = backoff (Suc n)"
  by (simp add: backoff_def min_def)

lemma backoff_0: "backoff 0 = 500"
  by (simp add: backoff_def)

lemma count_list_zero: "count_list xs x = 0 \<longleftrightarrow> x \<notin> set xs"
  by (metis count_list_0_iff)

lemma count_list_Suc: "count_list xs x = Suc n \<Longrightarrow> x \<in> set xs"
  by (metis count_list_zero nat.distinct(1))

lemmas ctr_defs = ctr_core_def balanced_def open_socks_def backoff_ok_def resets_def starts_def
  chan_up_def chan_down_def

lemma ctr_inv_ctor: "ctr_inv Connector_ctor"
  by (simp add: ctr_inv_def ctr_defs not_handling_def Connector_ctor_def backoff_0 kInitRetryDelayMs_def)

text \<open>A connector at rest, from which an attempt may be made.\<close>

definition ready :: "Connector \<Rightarrow> bool" where
  "ready s \<longleftrightarrow> cstate s = kDisconnected \<and> cchannel s = None \<and> starts s = 0 \<and> resets s = 0 \<and>
     balanced s \<and> backoff_ok s"

lemma ready_core: "ready s \<Longrightarrow> ctr_core s"
  by (simp add: ready_def ctr_core_def chan_down_def starts_def count_list_zero)

lemma connecting_core:
  assumes "ready s"
  shows "\<exists>t. connecting n (s\<lparr>created := created s @ [n]\<rparr>) = Inr t \<and> ctr_inv t"
  using assms
  by (auto simp: connecting_def ready_def ctr_inv_def ctr_defs not_handling_def c_assert_def
      enableWriting_def Channel_set_events_def Channel_ctor_def)

lemma retry_core:
  assumes "mset (created s) = mset (closed s) + mset (handed s) + {# n #}" "backoff_ok s"
    "chan_down s" "starts s = 0"
  shows "ctr_core (retry n s)"
  using assms
  by (auto simp: retry_def Let_def ctr_defs count_list_zero kMaxRetryDelayMs_def backoff_Suc
      split: option.splits)

lemma retry_frame:
  "cchannel (retry n s) = cchannel s" "cstate (retry n s) = kDisconnected" "pendingF (retry n s) = pendingF s"
  by (simp_all add: retry_def Let_def)

lemma connect_core:
  assumes "ready s"
  shows "\<exists>t. connect sys s = Inr t \<and> ctr_inv t"
proof -
  obtain n e where sys: "sys = (n, e)" by fastforce
  let ?s = "s\<lparr>created := created s @ [n]\<rparr>"
  have "ctr_core (retry n ?s)"
    by (rule retry_core) (use assms in \<open>simp_all add: ready_def ctr_defs\<close>)
  moreover have "not_handling (retry n ?s)"
    using assms by (simp add: ready_def not_handling_def retry_frame)
  moreover have "ctr_inv (?s\<lparr>closed := closed ?s @ [n]\<rparr>)"
    using assms by (simp add: ready_def ctr_inv_def ctr_defs not_handling_def count_list_zero)
  ultimately show ?thesis
    using connecting_core [OF assms, of n] by (auto simp: connect_def sys Let_def ctr_inv_def)
qed

lemma startInLoop_core:
  assumes "ready s"
  shows "\<exists>t. startInLoop sys s = Inr t \<and> ctr_inv t"
  using connect_core [OF assms] assms ready_core [OF assms]
  by (auto simp: startInLoop_def ready_def ctr_inv_def not_handling_def)

text \<open>Taking the channel down while connecting.\<close>

lemma removeAndReset_up:
  "cchannel s = Some ch \<Longrightarrow>
     removeAndResetChannel s = Inr (fd ch, s\<lparr>cchannel := Some (ch\<lparr>events := 0, addedToLoop := False\<rparr>),
       pendingF := pendingF s @ [F_resetChannel]\<rparr>)"
  by (simp add: removeAndResetChannel_def disableAll_def Channel_set_events_def Channel_remove_def
      isNoneEvent_def kNoneEvent_def c_assert_def)

lemma up_cases:
  assumes "ctr_core s" "cstate s = kConnecting"
  obtains ch where "cchannel s = Some ch" "addedToLoop ch" "events ch = kWriteEvent" "\<not> tied ch"
    "resets s = 0" "starts s = 0"
  using assms by (auto simp: ctr_core_def chan_up_def)

lemma taken_down:
  assumes "ctr_core s" "cstate s = kConnecting" "cchannel s = Some ch"
  defines "t \<equiv> s\<lparr>cchannel := Some (ch\<lparr>events := 0, addedToLoop := False\<rparr>),
       pendingF := pendingF s @ [F_resetChannel]\<rparr>"
  shows "mset (created t) = mset (closed t) + mset (handed t) + {# fd ch #}" "backoff_ok t"
    "chan_down t" "starts t = 0" "eventHandling (the (cchannel t)) = eventHandling ch"
  using assms by (simp_all add: ctr_defs)

lemma handleError_core:
  assumes "ctr_core s" "cchannel s = Some ch"
  shows "\<exists>t ch'. handleError s = Inr t \<and> ctr_core t \<and> cstate t \<noteq> kConnecting \<and> (cstate t = kConnected \<longrightarrow> cstate s = kConnected)
     \<and> cchannel t = Some ch' \<and> eventHandling ch' = eventHandling ch"
proof (cases "cstate s = kConnecting")
  case True
  from taken_down [OF assms(1) True assms(2)] show ?thesis
    by (auto simp: handleError_def True removeAndReset_up [OF assms(2)] retry_frame intro!: retry_core)
qed (use assms in \<open>auto simp: handleError_def\<close>)

lemma handleWrite_core:
  assumes "ctr_core s" "cchannel s = Some ch" "cstate s \<noteq> kConnected"
  shows "\<exists>t ch'. handleWrite ans s = Inr t \<and> ctr_core t \<and> cchannel t = Some ch' \<and> eventHandling ch' = eventHandling ch"
proof (cases "cstate s = kConnecting")
  case True
  obtain opt lans pans where ans: "ans = (opt, lans, pans)" by (metis prod_cases3)
  let ?t = "s\<lparr>cchannel := Some (ch\<lparr>events := 0, addedToLoop := False\<rparr>), pendingF := pendingF s @ [F_resetChannel]\<rparr>"
  note down = taken_down [OF assms(1) True assms(2)]
  have "ctr_core (retry (fd ch) ?t)" using down by (intro retry_core) auto
  moreover have "ctr_core (?t\<lparr>cstate := kConnected, handed := handed s @ [fd ch]\<rparr>)"
      "ctr_core (?t\<lparr>cstate := kConnected, closed := closed s @ [fd ch]\<rparr>)"
    using down by (auto simp: ctr_defs)
  ultimately show ?thesis
    by (auto simp: handleWrite_def ans True removeAndReset_up [OF assms(2)] retry_frame Let_def)
next
  case False
  with assms(3) have "cstate s = kDisconnected" by (cases "cstate s") auto
  with assms show ?thesis by (auto simp: handleWrite_def split: prod.splits)
qed

lemma stopInLoop_core:
  assumes "ctr_inv s"
  shows "\<exists>t. stopInLoop s = Inr t \<and> ctr_inv t"
proof (cases "cstate s = kConnecting")
  case True
  from assms have core: "ctr_core s" by (simp add: ctr_inv_def)
  from up_cases [OF this True] obtain ch where ch: "cchannel s = Some ch" by blast
  let ?t = "s\<lparr>cchannel := Some (ch\<lparr>events := 0, addedToLoop := False\<rparr>), pendingF := pendingF s @ [F_resetChannel]\<rparr>"
  have "retry (fd ch) (s\<lparr>cstate := kDisconnected, cchannel := cchannel ?t, pendingF := pendingF ?t\<rparr>) = retry (fd ch) ?t"
    by (cases s) (simp add: retry_def Let_def)
  then have run: "stopInLoop s = Inr (retry (fd ch) ?t)"
    using ch by (simp add: stopInLoop_def True removeAndReset_up [where ch = ch])
  have "ctr_core (retry (fd ch) ?t)" using taken_down [OF core True ch] by (intro retry_core) auto
  with run assms ch show ?thesis by (auto simp: ctr_inv_def not_handling_def retry_frame)
qed (use assms in \<open>simp add: stopInLoop_def\<close>)

lemma core_channel:
  assumes "ctr_core s" "cchannel s = Some ch"
    "fd ch' = fd ch" "events ch' = events ch" "addedToLoop ch' = addedToLoop ch" "tied ch' = tied ch"
  shows "ctr_core (s\<lparr>cchannel := Some ch'\<rparr>)"
  using assms by (auto simp: ctr_defs split: States.splits)

lemma connector_callbacks:
  "filter (\<lambda>cb. cb = WriteCallback \<or> cb = ErrorCallback) (dispatch rv) \<in>
     {[], [ErrorCallback], [WriteCallback], [ErrorCallback, WriteCallback]}"
  by (simp add: dispatch_def)

lemma callbacks_core:
  assumes "cbs \<in> {[], [ErrorCallback], [WriteCallback], [ErrorCallback, WriteCallback]}"
    and s: "ctr_core s" "cstate s = kConnecting" "cchannel s = Some ch"
  shows "\<exists>t ch'. rfold (ctr_invoke ans) cbs s = Inr t \<and> ctr_core t \<and> cchannel t = Some ch'"
proof -
  obtain t ch' where t: "handleError s = Inr t" "ctr_core t" "cstate t \<noteq> kConnected" "cchannel t = Some ch'"
    using handleError_core [OF s(1,3)] s(2) by auto
  have "\<exists>u ch'. handleWrite ans t = Inr u \<and> ctr_core u \<and> cchannel u = Some ch'"
    using handleWrite_core [OF t(2,4,3)] by blast
  moreover have "\<exists>u ch'. handleWrite ans s = Inr u \<and> ctr_core u \<and> cchannel u = Some ch'"
    using handleWrite_core [OF s(1,3), of ans] s(2) by auto
  ultimately show ?thesis using assms(1) s t by (auto simp: result_simps)
qed

lemma ctr_handleEvent_core:
  assumes "ctr_inv s" "cstate s = kConnecting"
  shows "\<exists>t. ctr_handleEvent rv ans s = Inr t \<and> ctr_inv t"
proof -
  from assms(1) have core: "ctr_core s" by (simp add: ctr_inv_def)
  from up_cases [OF this assms(2)] obtain ch where ch: "cchannel s = Some ch" "\<not> tied ch" by blast
  let ?ch = "ch\<lparr>revents := rv, eventHandling := True\<rparr>"
  let ?s = "s\<lparr>cchannel := Some ?ch\<rparr>"
  have "ctr_core ?s" by (rule core_channel [OF core ch(1)]) simp_all
  then obtain t ch' where t: "ctr_core t" "cchannel t = Some ch'"
    "rfold (ctr_invoke ans) (filter (\<lambda>cb. cb = WriteCallback \<or> cb = ErrorCallback) (dispatch rv)) ?s = Inr t"
    using callbacks_core [OF connector_callbacks, of ?s ?ch ans rv] assms(2) by auto
  have "ctr_handleEvent rv ans s = Inr (t\<lparr>cchannel := Some (ch'\<lparr>eventHandling := False\<rparr>)\<rparr>)"
    using t(2,3) ch by (simp add: ctr_handleEvent_def handleEvent_def handleEventWithGuard_def set_revents_def)
  moreover have "ctr_core (t\<lparr>cchannel := Some (ch'\<lparr>eventHandling := False\<rparr>)\<rparr>)"
    by (rule core_channel [OF t(1,2)]) simp_all
  ultimately show ?thesis by (simp add: ctr_inv_def not_handling_def)
qed

lemma pending_core:
  assumes "ctr_inv s" "pendingF s = f # fs"
  shows "\<exists>t. run_functor sys f (s\<lparr>pendingF := fs\<rparr>) = Inr t \<and> ctr_inv t"
proof (cases f)
  case F_startInLoop
  with assms have "ready (s\<lparr>pendingF := fs\<rparr>)"
    by (auto simp: ready_def ctr_inv_def ctr_defs count_list_zero split: States.splits)
  from startInLoop_core [OF this] F_startInLoop show ?thesis by simp
next
  case F_stopInLoop
  with assms have "ctr_inv (s\<lparr>pendingF := fs\<rparr>)"
    by (auto simp: ctr_inv_def ctr_defs not_handling_def split: States.splits option.splits)
  from stopInLoop_core [OF this] F_stopInLoop show ?thesis by simp
next
  case F_resetChannel
  with assms have r: "resets s = Suc (count_list fs F_resetChannel)" by (simp add: resets_def)
  with assms(1) have "cstate s \<noteq> kConnecting" by (auto simp: ctr_inv_def ctr_core_def chan_up_def)
  with assms(1) r obtain ch where ch: "cchannel s = Some ch" "\<not> addedToLoop ch" "count_list fs F_resetChannel = 0"
    "\<not> eventHandling ch"
    by (auto simp: ctr_inv_def ctr_core_def chan_down_def not_handling_def split: States.splits option.splits)
  then have "run_functor sys f (s\<lparr>pendingF := fs\<rparr>) = Inr (s\<lparr>pendingF := fs, cchannel := None\<rparr>)"
    by (simp add: F_resetChannel resetChannel_def Channel_dtor_def c_assert_def)
  moreover have "ctr_inv (s\<lparr>pendingF := fs, cchannel := None\<rparr>)"
    using assms F_resetChannel ch \<open>cstate s \<noteq> kConnecting\<close>
    by (auto simp: ctr_inv_def ctr_defs not_handling_def split: States.splits)
  ultimately show ?thesis by blast
qed

lemma timer_ready:
  assumes "ctr_inv s" "i < length (timers s)" "F_resetChannel \<notin> set (pendingF s)"
  shows "ready (s\<lparr>timers := take i (timers s) @ drop (Suc i) (timers s)\<rparr>)"
proof -
  have st: "starts s \<noteq> 0" using assms(2) by (auto simp: starts_def)
  with assms(1) have "cstate s = kDisconnected" "starts s \<le> 1"
    by (auto simp: ctr_inv_def ctr_core_def chan_up_def split: States.splits)
  with assms have "length (timers s) = 1" "count_list (pendingF s) F_startInLoop = 0" "i = 0"
    unfolding starts_def by linarith+
  moreover have "cchannel s = None" "resets s = 0"
    using assms(1,3) \<open>cstate s = kDisconnected\<close>
    by (auto simp: ctr_inv_def ctr_core_def chan_down_def resets_def count_list_zero split: option.splits)
  ultimately show ?thesis
    using assms(1) \<open>cstate s = kDisconnected\<close>
    by (simp add: ready_def ctr_inv_def ctr_core_def starts_def balanced_def backoff_ok_def resets_def open_socks_def)
qed

lemma do_action_ok:
  assumes inv: "ctr_inv s" and "allowed a s"
  shows "\<exists>t. do_action a s = Inr t \<and> ctr_inv t"
proof (cases a)
  case (A_start in_loop sys)
  with assms have "ready (s\<lparr>connectOn := True\<rparr>)" "idle s"
    by (auto simp: idle_def ready_def ctr_inv_def ctr_defs count_list_zero)
  moreover have "ctr_inv (s\<lparr>connectOn := True, pendingF := pendingF s @ [F_startInLoop]\<rparr>)"
    using inv \<open>idle s\<close> by (auto simp: ctr_inv_def ctr_defs idle_def not_handling_def count_list_zero)
  ultimately show ?thesis
    using startInLoop_core [of "s\<lparr>connectOn := True\<rparr>" sys] A_start by (cases in_loop) (auto simp: start_def)
next
  case A_stop
  have "ctr_inv (stop s)"
    using inv by (auto simp: stop_def ctr_inv_def ctr_defs not_handling_def split: States.splits option.splits)
  with A_stop show ?thesis by simp
next
  case (A_restart sys)
  with assms have "ready (s\<lparr>cstate := kDisconnected, retryDelayMs := kInitRetryDelayMs, delays := [], connectOn := True\<rparr>)"
    by (simp add: ready_def ctr_inv_def ctr_defs kInitRetryDelayMs_def backoff_0)
  from startInLoop_core [OF this] A_restart show ?thesis by (simp add: restart_def)
next
  case (A_functor sys)
  with assms show ?thesis using pending_core [OF inv] by (cases "pendingF s") auto
next
  case (A_timer i sys)
  with assms show ?thesis using startInLoop_core [OF timer_ready [OF inv]] by simp
next
  case (A_event rv ans)
  with assms show ?thesis using ctr_handleEvent_core [OF inv] by simp
qed

interpretation ctr: transition_system "\<lambda>s. s = Connector_ctor" ctr_step ctr_inv
proof
  show "ctr_inv s" if "s = Connector_ctor" for s using ctr_inv_ctor that by simp
  show "ctr_inv t" if "ctr_inv s" "ctr_step s t" for s t
    using that do_action_ok by (fastforce elim: ctr_step.cases)
qed

definition ctr_reach :: "Connector \<Rightarrow> bool" where
  "ctr_reach s \<longleftrightarrow> ctr_step\<^sup>*\<^sup>* Connector_ctor s"

lemma ctr_reach_inv: "ctr_reach s \<Longrightarrow> ctr_inv s"
  unfolding ctr_reach_def using ctr.reachable_inv by blast

lemma ctr_reach_step: "ctr_reach s \<Longrightarrow> allowed a s \<Longrightarrow> do_action a s = Inr t \<Longrightarrow> ctr_reach t"
  unfolding ctr_reach_def by (meson ctr_step.intros rtranclp.rtrancl_into_rtrancl)

section \<open>Properties\<close>

text \<open>
  Property C23. The connector neither leaks nor closes twice a socket, whatever the kernel answers and
  in whatever order calls, functors, timers and events come: every socket it created was closed
  once, or handed to the new-connection callback once, or is the one of the attempt in progress.
  In every reachable state every allowed entry returns normally, so that no assertion fails and
  the null \<open>channel_\<close> is not used, and the destructor is safe exactly when no attempt is in progress
  and the queued destruction of the channel has run.
\<close>

theorem connector_no_leak:
  assumes "ctr_reach s"
  shows "mset (created s) = mset (closed s) + mset (handed s) +
           (if cstate s = kConnecting then {# fd (the (cchannel s)) #} else {#}) \<and>
    (allowed a s \<longrightarrow> isOK (do_action a s)) \<and>
    (isOK (Connector_dtor s) \<longleftrightarrow> cstate s \<noteq> kConnecting \<and> F_resetChannel \<notin> set (pendingF s))"
proof (intro conjI impI)
  note inv = ctr_reach_inv [OF assms]
  then show "mset (created s) = mset (closed s) + mset (handed s) +
           (if cstate s = kConnecting then {# fd (the (cchannel s)) #} else {#})"
    by (simp add: ctr_inv_def ctr_core_def balanced_def open_socks_def)
  show "isOK (do_action a s)" if "allowed a s"
    using do_action_ok [OF inv that] by (auto simp: isOK_iff)
  show "isOK (Connector_dtor s) \<longleftrightarrow> cstate s \<noteq> kConnecting \<and> F_resetChannel \<notin> set (pendingF s)"
    using inv
    by (auto simp: Connector_dtor_def isOK_iff result_simps ctr_inv_def ctr_core_def chan_up_def chan_down_def
        resets_def count_list_zero dest!: count_list_Suc split: States.splits option.splits)
qed

lemma reach_ctor: "ctr_reach Connector_ctor"
  by (simp add: ctr_reach_def)

lemmas ctr_eval = start_def startInLoop_def connect_def connecting_def retry_def stop_def Connector_ctor_def
  errno_defs Let_def c_assert_def idle_def kInitRetryDelayMs_def kMaxRetryDelayMs_def
  enableWriting_def Channel_set_events_def Channel_ctor_def

text \<open>A refused first attempt: the socket is closed and a timer of half a second runs.\<close>

lemma reach_refused:
  "\<exists>s. ctr_reach s \<and> timers s = [500] \<and> delays s = [500] \<and> pendingF s = [] \<and> cchannel s = None \<and>
     cstate s = kDisconnected \<and> created s = [7] \<and> closed s = [7] \<and> handed s = []"
proof -
  obtain s where s: "do_action (A_start True (7, ECONNREFUSED)) Connector_ctor = Inr s" "timers s = [500]"
    "delays s = [500]" "pendingF s = []" "cchannel s = None" "cstate s = kDisconnected"
    "created s = [7]" "closed s = [7]" "handed s = []"
    by (simp add: ctr_eval)
  have "allowed (A_start True (7, ECONNREFUSED)) Connector_ctor" by (simp add: ctr_eval)
  from ctr_reach_step [OF reach_ctor this s(1)] s show ?thesis by blast
qed

theorem connector_no_leak_witness:
  "\<exists>s :: Connector. ctr_reach s \<and> timers s = [500] \<and> isOK (do_action (A_timer 0 (8, EINPROGRESS)) s) \<and>
     mset (created s) = mset (closed s) + mset (handed s) \<and> isOK (Connector_dtor s)"
proof -
  obtain s where s: "ctr_reach s" "timers s = [500]" "pendingF s = []" "cstate s = kDisconnected"
    using reach_refused by blast
  have "allowed (A_timer 0 (8, EINPROGRESS)) s" using s by simp
  with connector_no_leak [OF s(1), of "A_timer 0 (8, EINPROGRESS)"] s show ?thesis by auto
qed

text \<open>
  Property C24. The retry delays follow the exponential back-off the comment of \<open>retry\<close> announces:
  since the last \<open>restart\<close> the n-th delay (from 0) is 500 ms doubled n times, capped at 30 s,
  and there is never more than one retry timer pending.
\<close>

theorem connector_backoff:
  assumes "ctr_reach s"
  shows "delays s = map (\<lambda>n. min (500 * 2 ^ n) 30000) [0..<length (delays s)] \<and>
    retryDelayMs s = min (500 * 2 ^ length (delays s)) 30000 \<and> length (timers s) \<le> 1"
proof -
  note inv = ctr_reach_inv [OF assms]
  have "starts s \<le> 1"
    using inv by (auto simp: ctr_inv_def ctr_core_def chan_up_def split: States.splits)
  then have "length (timers s) \<le> 1" by (simp add: starts_def)
  with inv show ?thesis by (simp add: ctr_inv_def ctr_core_def backoff_ok_def backoff_def [abs_def])
qed

theorem connector_backoff_witness:
  "\<exists>s :: Connector. ctr_reach s \<and> length (timers s) = 1 \<and> length (timers s) \<le> 1 \<and>
     delays s = map (\<lambda>n. min (500 * 2 ^ n) 30000) [0..<1] \<and> retryDelayMs s = 1000"
proof -
  obtain s where s: "ctr_reach s" "timers s = [500]" "delays s = [500]" using reach_refused by blast
  with connector_backoff [OF s(1)] show ?thesis by auto
qed

text \<open>
  \<open>start\<close> is not safe on a connector that is not idle, although nothing in the interface
  forbids it. While an attempt is in progress it fails the assertion of \<open>startInLoop\<close>. While a
  retry timer is pending, \<open>stop\<close> followed by \<open>start\<close> begins a new attempt and leaves the old
  timer running, and that timer then fails the same assertion.
\<close>

lemma connector_start_asserts:
  "(cstate s = kConnecting \<longrightarrow> start True sys s = Inl AssertFailed) \<and>
   (cstate s = kDisconnected \<and> cchannel s = None \<and> i < length (timers s) \<longrightarrow>
     (\<exists>t. start True (n, EINPROGRESS) (stop s) = Inr t \<and> timers t = timers s \<and> cstate t = kConnecting \<and>
          do_action (A_timer i sys') t = Inl AssertFailed))"
  by (simp add: ctr_eval)

lemma connector_start_asserts_witness:
  "\<exists>s t :: Connector. ctr_reach s \<and> start True (8, EINPROGRESS) (stop s) = Inr t \<and>
     do_action (A_timer 0 (9, 0)) t = Inl AssertFailed \<and> start True (9, 0) t = Inl AssertFailed"
proof -
  obtain s where s: "ctr_reach s" "timers s = [500]" "cstate s = kDisconnected" "cchannel s = None"
    using reach_refused by blast
  then obtain t where t: "start True (8, EINPROGRESS) (stop s) = Inr t" "cstate t = kConnecting"
    "do_action (A_timer 0 (9, 0)) t = Inl AssertFailed"
    using connector_start_asserts [of s "(9, 0)" 0 8 "(9, 0)"] by auto
  with connector_start_asserts [of t "(9, 0)" 0 8 "(9, 0)"] s show ?thesis by blast
qed

end
