(* ===== verification/NW_TcpClient.thy ===== *)
theory NW_TcpClient
  imports NW_Connector NW_TcpServer
begin

text \<open>
  \<^verbatim>\<open>networker/net/TcpClient.cpp\<close>: a client with at most one connection, over a \<open>Connector\<close>.

  The record holds the members and two histories: the connections it established and those whose
  \<open>connectDestroyed\<close> was queued. Everything but the destructor runs in the client's loop, numbered
  \<open>clLoop\<close>. \<open>clCloseTo\<close> is the close callback set in each connection, and \<open>clPosted\<close> what the
  destructor posted to the loop: both outlive the client, whose life is \<open>clAlive\<close>. \<open>conn_closed\<close> is
  the call of the close callback by a connection that closes, for whatever reason.
  \<open>client_do\<close> composes the client with its connector: an event of the connector that hands a
  socket over calls \<open>newConnection\<close>, and the close callback of the connection reaches
  \<open>removeConnection\<close>, which may restart the connector. The answers of \<open>getpeername\<close> and
  \<open>getsockname\<close> for the new socket come with the event.
\<close>

section \<open>Definitions\<close>

text \<open>The two close callbacks: \<open>TcpClient::removeConnection\<close> and \<open>detail::removeConnection\<close>.\<close>

datatype close_target = CloseToClient | CloseToLoop

datatype client_functor = PostSetClose conn_ref | PostForceClose conn_ref

record TcpClient =
  connector :: Connector
  clName :: string
  clLoop :: nat
  retryOn :: bool
  connectWanted :: bool
  clNextConnId :: int
  connection :: "conn_ref option"
  clEstablished :: "conn_ref list"
  clDestroyed :: "conn_ref list"
  clShutdowns :: "conn_ref list"
  clCloseTo :: "conn_ref \<Rightarrow> close_target option"
  clPosted :: "client_functor list"
  clLinger :: bool
  clAlive :: bool

definition TcpClient_ctor :: "nat \<Rightarrow> string \<Rightarrow> TcpClient" where
  "TcpClient_ctor loop nameArg = \<lparr>connector = Connector_ctor, clName = nameArg, clLoop = loop,
     retryOn = False, connectWanted = True, clNextConnId = 1, connection = None,
     clEstablished = [], clDestroyed = [], clShutdowns = [], clCloseTo = (\<lambda>conn. None), clPosted = [],
     clLinger = False, clAlive = True\<rparr>"

definition enableRetry :: "TcpClient \<Rightarrow> TcpClient" where
  "enableRetry c = c\<lparr>retryOn := True\<rparr>"

definition client_connect :: "bool \<Rightarrow> int \<times> int \<Rightarrow> TcpClient \<Rightarrow> TcpClient result" where
  "client_connect in_loop sys c =
     (let c1 = c\<lparr>connectWanted := True\<rparr> in
      rbind (start in_loop sys (connector c1)) (\<lambda>ctr. Inr (c1\<lparr>connector := ctr\<rparr>)))"

definition client_disconnect :: "TcpClient \<Rightarrow> TcpClient" where
  "client_disconnect c =
     (let c1 = c\<lparr>connectWanted := False\<rparr> in
      case connection c1 of Some conn \<Rightarrow> c1\<lparr>clShutdowns := clShutdowns c1 @ [conn]\<rparr> | None \<Rightarrow> c1)"

definition client_stop :: "TcpClient \<Rightarrow> TcpClient" where
  "client_stop c = (let c1 = c\<lparr>connectWanted := False\<rparr> in c1\<lparr>connector := stop (connector c1)\<rparr>)"

definition client_newConnection ::
    "(byte list \<Rightarrow> string) \<Rightarrow> int \<Rightarrow> InetAddress option \<Rightarrow> TcpClient \<Rightarrow> TcpClient result" where
  "client_newConnection ntop6 sockfd pans c =
     rbind (toIpPort ntop6 (getPeerAddr pans)) (\<lambda>ipp.
       let buf = c_snprintf 32 ('':'' @ ipp @ ''#'' @ dec_int (clNextConnId c)) in
       if clNextConnId c = 2 ^ 31 - 1 then Inl SignedOverflow
       else
         let connName = clName c @ buf;
             conn = \<lparr>cr_id = nat (clNextConnId c), cr_name = connName, cr_loop = clLoop c, cr_fd = sockfd\<rparr>
         in Inr (c\<lparr>clNextConnId := clNextConnId c + 1, connection := Some conn,
                   clEstablished := clEstablished c @ [conn],
                   clCloseTo := (clCloseTo c)(conn \<mapsto> CloseToClient)\<rparr>))"

definition client_removeConnection :: "conn_ref \<Rightarrow> int \<times> int \<Rightarrow> TcpClient \<Rightarrow> TcpClient result" where
  "client_removeConnection conn sys c =
     c_assert (clLoop c = cr_loop conn) (c_assert (connection c = Some conn) (
       let c1 = c\<lparr>connection := None, clDestroyed := clDestroyed c @ [conn]\<rparr> in
       if retryOn c1 \<and> connectWanted c1
       then rbind (restart sys (connector c1)) (\<lambda>ctr. Inr (c1\<lparr>connector := ctr\<rparr>))
       else Inr c1))"

text \<open>\<open>detail::removeConnection\<close>, which needs no client, and the close callback of a connection.\<close>

definition detail_removeConnection :: "conn_ref \<Rightarrow> TcpClient \<Rightarrow> TcpClient" where
  "detail_removeConnection conn c = c\<lparr>clDestroyed := clDestroyed c @ [conn]\<rparr>"

definition conn_closed :: "conn_ref \<Rightarrow> int \<times> int \<Rightarrow> TcpClient \<Rightarrow> TcpClient result" where
  "conn_closed conn sys c =
     (case clCloseTo c conn of
        Some CloseToLoop \<Rightarrow> Inr (detail_removeConnection conn c)
      | Some CloseToClient \<Rightarrow> if clAlive c then client_removeConnection conn sys c else Inl UseAfterFree
      | None \<Rightarrow> Inl UseAfterFree)"



section \<open>Actions\<close>

datatype cl_action =
    ClConnect bool "int \<times> int"
  | ClDisconnect
  | ClStop
  | ClEnableRetry
  | ClFunctor "int \<times> int"
  | ClTimer nat "int \<times> int"
  | ClEvent "32 word" sock_answers "InetAddress option"
  | ClClose conn_ref "int \<times> int"

definition on_connector :: "(Connector \<Rightarrow> Connector result) \<Rightarrow> TcpClient \<Rightarrow> TcpClient result" where
  "on_connector f c = rbind (f (connector c)) (\<lambda>ctr. Inr (c\<lparr>connector := ctr\<rparr>))"

text \<open>An event of the connector, with the callback for the socket it hands over.\<close>

definition client_event ::
    "(byte list \<Rightarrow> string) \<Rightarrow> 32 word \<Rightarrow> sock_answers \<Rightarrow> InetAddress option \<Rightarrow> TcpClient \<Rightarrow> TcpClient result" where
  "client_event ntop6 rv ans pans c =
     rbind (on_connector (ctr_handleEvent rv ans) c) (\<lambda>c1.
       if length (handed (connector c1)) > length (handed (connector c))
       then client_newConnection ntop6 (last (handed (connector c1))) pans c1 else Inr c1)"

fun client_do :: "(byte list \<Rightarrow> string) \<Rightarrow> cl_action \<Rightarrow> TcpClient \<Rightarrow> TcpClient result" where
  "client_do ntop6 (ClConnect in_loop sys) c = client_connect in_loop sys c"
| "client_do ntop6 ClDisconnect c = Inr (client_disconnect c)"
| "client_do ntop6 ClStop c = Inr (client_stop c)"
| "client_do ntop6 ClEnableRetry c = Inr (enableRetry c)"
| "client_do ntop6 (ClFunctor sys) c = on_connector (do_action (A_functor sys)) c"
| "client_do ntop6 (ClTimer i sys) c = on_connector (do_action (A_timer i sys)) c"
| "client_do ntop6 (ClEvent rv ans pans) c = client_event ntop6 rv ans pans c"
| "client_do ntop6 (ClClose conn sys) c = conn_closed conn sys c"

text \<open>
  When an entry may come. The close callback of a connection comes from an event or a functor
  that is later than the functor that destroys the connector's channel.
\<close>

fun client_allowed :: "cl_action \<Rightarrow> TcpClient \<Rightarrow> bool" where
  "client_allowed (ClConnect in_loop sys) c \<longleftrightarrow> allowed (A_start in_loop sys) (connector c)"
| "client_allowed (ClFunctor sys) c \<longleftrightarrow> allowed (A_functor sys) (connector c)"
| "client_allowed (ClTimer i sys) c \<longleftrightarrow> allowed (A_timer i sys) (connector c)"
| "client_allowed (ClEvent rv ans pans) c \<longleftrightarrow> allowed (A_event rv ans) (connector c) \<and> clNextConnId c < 2 ^ 31 - 1"
| "client_allowed (ClClose conn sys) c \<longleftrightarrow> connection c = Some conn \<and> F_resetChannel \<notin> set (pendingF (connector c))"
| "client_allowed _ c \<longleftrightarrow> True"

inductive client_step :: "(byte list \<Rightarrow> string) \<Rightarrow> TcpClient \<Rightarrow> TcpClient \<Rightarrow> bool" for ntop6 where
  "client_allowed a c \<Longrightarrow> client_do ntop6 a c = Inr c' \<Longrightarrow> client_step ntop6 c c'"


section \<open>What the connector hands over\<close>

lemma handed_retry [simp]: "handed (retry n s) = handed s"
  by (simp add: retry_def Let_def)











section \<open>Invariant\<close>








section \<open>Properties\<close>


text \<open>A client that connects at once and whose connection then closes.\<close>

lemma client_steps:
  "(client_step nt)\<^sup>*\<^sup>* c0 c \<Longrightarrow> client_allowed a c \<Longrightarrow> client_do nt a c = Inr d \<Longrightarrow> (client_step nt)\<^sup>*\<^sup>* c0 d"
  by (meson client_step.intros rtranclp.rtrancl_into_rtrancl)

definition ok_answers :: sock_answers where
  "ok_answers = ((0, 0, 0), None, None)"

lemma client_demo:
  "\<exists>c conn. (client_step ref_ntop6)\<^sup>*\<^sup>* (TcpClient_ctor 0 ''cl'') c \<and> connection c = Some conn \<and>
     cr_fd conn = 7 \<and> cr_loop conn = 0 \<and> clLoop c = 0 \<and> retryOn c = False \<and> pendingF (connector c) = [] \<and>
     cstate (connector c) = kConnected"
proof -
  let ?c0 = "TcpClient_ctor 0 ''cl''"
  obtain ipp where ipp: "toIpPort ref_ntop6 (getPeerAddr None) = Inr ipp"
    using toIpPort_ok [OF ref_ntop6_ok] by metis
  obtain c1 where c1: "client_do ref_ntop6 (ClConnect True (7, 0)) ?c0 = Inr c1"
    "connector c1 = Connector_ctor\<lparr>connectOn := True, created := [7], cstate := kConnecting,
       cchannel := Some (enableWriting (Channel_ctor 7))\<rparr>"
    "clNextConnId c1 = 1" "clLoop c1 = 0" "retryOn c1 = False"
    by (simp add: client_connect_def TcpClient_ctor_def ctr_eval)
  have r1: "(client_step ref_ntop6)\<^sup>*\<^sup>* ?c0 c1"
    by (rule client_steps [OF _ _ c1(1)]) (simp_all add: TcpClient_ctor_def Connector_ctor_def idle_def)
  have disp: "filter (\<lambda>cb. cb = WriteCallback \<or> cb = ErrorCallback) (dispatch POLLOUT) = [WriteCallback]"
    by (simp add: dispatch_def has_bits_def poll_flags)
  obtain c2 where c2: "client_do ref_ntop6 (ClEvent POLLOUT ok_answers None) c1 = Inr c2"
    "\<exists>conn. connection c2 = Some conn \<and> cr_fd conn = 7 \<and> cr_loop conn = 0" "clLoop c2 = 0" "retryOn c2 = False"
    "pendingF (connector c2) = [F_resetChannel]" "cstate (connector c2) = kConnected"
    "\<exists>ch. cchannel (connector c2) = Some ch \<and> \<not> addedToLoop ch \<and> \<not> eventHandling ch"
    using c1(2-5) ipp
    by (simp add: client_event_def on_connector_def ctr_handleEvent_def handleEvent_def handleEventWithGuard_def
        disp set_revents_def handleWrite_def ok_answers_def removeAndReset_up getSocketError_def isSelfConnect_def
        getLocalAddr_def sockaddr_zero_def AF_INET_def AF_INET6_def client_newConnection_def Let_def
        enableWriting_def Channel_set_events_def Channel_ctor_def Connector_ctor_def)
  have r2: "(client_step ref_ntop6)\<^sup>*\<^sup>* ?c0 c2"
    by (rule client_steps [OF r1 _ c2(1)]) (simp add: c1(2,3))
  obtain c3 where c3: "client_do ref_ntop6 (ClFunctor (0, 0)) c2 = Inr c3" "connection c3 = connection c2"
    "clLoop c3 = 0" "retryOn c3 = False" "pendingF (connector c3) = []" "cstate (connector c3) = kConnected"
    using c2(3-7) by (auto simp: on_connector_def resetChannel_def Channel_dtor_def c_assert_def)
  have "(client_step ref_ntop6)\<^sup>*\<^sup>* ?c0 c3"
    by (rule client_steps [OF r2 _ c3(1)]) (simp add: c2(5))
  with c3 c2(2) show ?thesis by auto
qed


text \<open>
  A client cannot be connected a second time by hand. When its connection closes and no
  automatic reconnection follows, the connector stays in state \<open>kConnected\<close>, and the next
  \<open>connect\<close> from the loop thread fails the assertion of \<open>startInLoop\<close>.
\<close>

lemma client_reconnect_asserts:
  assumes "connection c = Some conn" "clLoop c = cr_loop conn" "cstate (connector c) = kConnected"
    and "\<not> (retryOn c \<and> connectWanted c)"
  shows "\<exists>d. client_removeConnection conn sys c = Inr d \<and> connection d = None \<and>
    client_connect True sys' d = Inl AssertFailed"
  using assms by (auto simp: client_removeConnection_def client_connect_def start_def startInLoop_def)

lemma client_reconnect_asserts_witness:
  "\<exists>c conn d. (client_step ref_ntop6)\<^sup>*\<^sup>* (TcpClient_ctor 0 ''cl'') c \<and>
     client_removeConnection conn (0, 0) c = Inr d \<and> client_connect True (8, 0) d = Inl AssertFailed"
proof -
  obtain c conn where c: "(client_step ref_ntop6)\<^sup>*\<^sup>* (TcpClient_ctor 0 ''cl'') c" "connection c = Some conn"
    "clLoop c = cr_loop conn" "cstate (connector c) = kConnected" "\<not> (retryOn c \<and> connectWanted c)"
    using client_demo by metis
  from client_reconnect_asserts [OF c(2-5), of "(0, 0)" "(8, 0)"] c(1) show ?thesis by blast
qed

end
