(* ===== verification/NW_LogStream.thy ===== *)
theory NW_LogStream
  imports NW_Text
begin

text \<open>
  \<^verbatim>\<open>networker/base/LogStream.h\<close> and \<^verbatim>\<open>networker/base/LogStream.cpp\<close>: fixed-size buffers and the
  stream operators that format into them.

  A \<open>FixedBuffer\<close> is its array and the offset of \<open>cur_\<close>; every write checks its bounds, so that
  staying inside the array is a theorem. \<open>convert\<close> is the digit loop of the code on a signed or
  unsigned integer of any width, with the remainder of C++ (negative for negative numbers) and the
  nineteen-character table it indexes. What \<open>snprintf\<close> writes for a floating-point number is an
  argument. \<open>fb_text\<close> is the abstract value of a buffer.
\<close>

section \<open>FixedBuffer\<close>

record FixedBuffer =
  fdata :: string
  fcur :: nat

definition kSmallBuffer :: nat where "kSmallBuffer = 4000"

definition kLargeBuffer :: nat where "kLargeBuffer = 4000 * 1000"

definition FixedBuffer_ctor :: "string \<Rightarrow> FixedBuffer" where
  "FixedBuffer_ctor uninit = \<lparr>fdata = uninit, fcur = 0\<rparr>"

definition fb_length :: "FixedBuffer \<Rightarrow> int" where
  "fb_length b = to_int32 (fcur b)"

definition fb_avail :: "FixedBuffer \<Rightarrow> int" where
  "fb_avail b = to_int32 (length (fdata b) - fcur b)"

text \<open>Writing \<open>txt\<close> at \<open>cur_\<close>, and moving \<open>cur_\<close>.\<close>

definition fb_write :: "string \<Rightarrow> FixedBuffer \<Rightarrow> FixedBuffer result" where
  "fb_write txt b = rbind (copy_into (fdata b) (fcur b) txt) (\<lambda>d. Inr (b\<lparr>fdata := d\<rparr>))"

definition fb_add :: "nat \<Rightarrow> FixedBuffer \<Rightarrow> FixedBuffer" where
  "fb_add len b = b\<lparr>fcur := fcur b + len\<rparr>"

definition fb_append :: "string \<Rightarrow> FixedBuffer \<Rightarrow> FixedBuffer result" where
  "fb_append txt b =
     (if fb_avail b > to_int32 (length txt)
      then rbind (fb_write txt b) (\<lambda>b'. Inr (fb_add (length txt) b'))
      else Inr b)"

definition fb_reset :: "FixedBuffer \<Rightarrow> FixedBuffer" where
  "fb_reset b = b\<lparr>fcur := 0\<rparr>"

definition fb_bzero :: "FixedBuffer \<Rightarrow> FixedBuffer" where
  "fb_bzero b = b\<lparr>fdata := replicate (length (fdata b)) (char_of (0 :: nat))\<rparr>"

section \<open>Integers\<close>

definition digits_tab :: string where "digits_tab = ''9876543210123456789''"

definition digitsHex :: string where "digitsHex = ''0123456789ABCDEF''"

text \<open>\<open>zero[lsd]\<close>, where \<open>zero\<close> points to the middle of the table.\<close>

definition zero_at :: "int \<Rightarrow> char" where
  "zero_at lsd = digits_tab ! nat (9 + lsd)"

function convert_loop :: "int \<Rightarrow> string" where
  "convert_loop i =
     (let lsd = c_mod i 10; i' = c_div i 10 in
      zero_at lsd # (if i' \<noteq> 0 then convert_loop i' else []))"
  by auto

termination
proof (relation "measure (\<lambda>i. nat \<bar>i\<bar>)")
  fix i lsd i' :: int
  assume "lsd = c_mod i 10" and "i' = c_div i 10" and "i' \<noteq> 0"
  then have i': "i' = sgn i * (\<bar>i\<bar> div 10)" and "i \<noteq> 0" by (auto simp: c_div_def)
  then have "\<bar>i'\<bar> = \<bar>i\<bar> div 10" by (simp add: abs_mult abs_sgn_eq)
  moreover have "\<bar>i\<bar> div 10 < \<bar>i\<bar>" using \<open>i \<noteq> 0\<close> by (intro int_div_less_self) auto
  ultimately show "(i', i) \<in> measure (\<lambda>i. nat \<bar>i\<bar>)" by simp
qed simp

declare convert_loop.simps [simp del]

definition convert :: "int \<Rightarrow> string" where
  "convert value = rev (convert_loop value @ (if value < 0 then ''-'' else []))"

fun convertHex_loop :: "nat \<Rightarrow> string" where
  "convertHex_loop i = digitsHex ! (i mod 16) # (if i div 16 \<noteq> 0 then convertHex_loop (i div 16) else [])"

declare convertHex_loop.simps [simp del]

definition convertHex :: "64 word \<Rightarrow> string" where
  "convertHex value = rev (convertHex_loop (unat value))"

section \<open>Stream operators\<close>

definition kMaxNumericSize :: int where "kMaxNumericSize = 32"

abbreviation NUL :: char where "NUL \<equiv> CHR 0x00"

text \<open>\<open>formatInteger\<close>: the digits and a terminating NUL go into the buffer, \<open>add\<close> leaves the NUL out.\<close>

definition formatInteger :: "int \<Rightarrow> FixedBuffer \<Rightarrow> FixedBuffer result" where
  "formatInteger v b =
     (if fb_avail b \<ge> kMaxNumericSize
      then rbind (fb_write (convert v @ [NUL]) b) (\<lambda>b'. Inr (fb_add (length (convert v)) b'))
      else Inr b)"

definition put_pointer :: "64 word \<Rightarrow> FixedBuffer \<Rightarrow> FixedBuffer result" where
  "put_pointer v b =
     (if fb_avail b \<ge> kMaxNumericSize
      then rbind (fb_write (''0x'' @ convertHex v @ [NUL]) b) (\<lambda>b'. Inr (fb_add (length (convertHex v) + 2) b'))
      else Inr b)"

text \<open>\<open>txt\<close> is what \<open>%.12g\<close> prints; \<open>snprintf\<close> cuts it to the size but returns its full length.\<close>

definition put_double :: "string \<Rightarrow> FixedBuffer \<Rightarrow> FixedBuffer result" where
  "put_double txt b =
     (if fb_avail b \<ge> kMaxNumericSize
      then rbind (fb_write (c_snprintf (nat kMaxNumericSize) txt @ [NUL]) b) (\<lambda>b'. Inr (fb_add (length txt) b'))
      else Inr b)"

definition put_bool :: "bool \<Rightarrow> FixedBuffer \<Rightarrow> FixedBuffer result" where
  "put_bool v b = fb_append (if v then ''1'' else ''0'') b"

definition put_char :: "char \<Rightarrow> FixedBuffer \<Rightarrow> FixedBuffer result" where
  "put_char v b = fb_append [v] b"

text \<open>A \<open>const char*\<close> is null or the text up to its terminating NUL.\<close>

definition put_cstr :: "string option \<Rightarrow> FixedBuffer \<Rightarrow> FixedBuffer result" where
  "put_cstr str b = (case str of Some txt \<Rightarrow> fb_append txt b | None \<Rightarrow> fb_append ''(null)'' b)"

definition put_string :: "string \<Rightarrow> FixedBuffer \<Rightarrow> FixedBuffer result" where
  "put_string v b = fb_append v b"

text \<open>\<open>Fmt\<close>: the text \<open>snprintf\<close> makes of the value in a buffer of 32 bytes.\<close>

definition Fmt_ctor :: "string \<Rightarrow> string result" where
  "Fmt_ctor txt = c_assert (length txt < 32) (Inr (c_snprintf 32 txt))"

definition put_fmt :: "string \<Rightarrow> FixedBuffer \<Rightarrow> FixedBuffer result" where
  "put_fmt txt b = rbind (Fmt_ctor txt) (\<lambda>t. fb_append t b)"

datatype log_item =
    LBool bool
  | LInt int
  | LPointer "64 word"
  | LDouble string
  | LChar char
  | LCstr "string option"
  | LString string
  | LFmt string

fun put_item :: "log_item \<Rightarrow> FixedBuffer \<Rightarrow> FixedBuffer result" where
  "put_item (LBool v) b = put_bool v b"
| "put_item (LInt v) b = formatInteger v b"
| "put_item (LPointer v) b = put_pointer v b"
| "put_item (LDouble txt) b = put_double txt b"
| "put_item (LChar v) b = put_char v b"
| "put_item (LCstr v) b = put_cstr v b"
| "put_item (LString v) b = put_string v b"
| "put_item (LFmt txt) b = put_fmt txt b"

section \<open>Specification\<close>

definition fb_inv :: "FixedBuffer \<Rightarrow> bool" where
  "fb_inv b \<longleftrightarrow> fcur b \<le> length (fdata b) \<and> length (fdata b) < 2 ^ 31"

definition fb_text :: "FixedBuffer \<Rightarrow> string" where
  "fb_text b = take (fcur b) (fdata b)"

text \<open>The text of an item, and the room its operator asks for.\<close>

fun item_text :: "log_item \<Rightarrow> string" where
  "item_text (LBool v) = (if v then ''1'' else ''0'')"
| "item_text (LInt v) = dec_int v"
| "item_text (LPointer v) = ''0x'' @ convertHex v"
| "item_text (LDouble txt) = txt"
| "item_text (LChar v) = [v]"
| "item_text (LCstr v) = (case v of Some txt \<Rightarrow> txt | None \<Rightarrow> ''(null)'')"
| "item_text (LString v) = v"
| "item_text (LFmt txt) = txt"

fun item_room :: "log_item \<Rightarrow> nat" where
  "item_room (LInt v) = 32"
| "item_room (LPointer v) = 32"
| "item_room (LDouble txt) = 32"
| "item_room x = Suc (length (item_text x))"

text \<open>Values the operators take: 64-bit integers, what \<open>%.12g\<close> can print, texts shorter than 2 GiB.\<close>

fun item_ok :: "log_item \<Rightarrow> bool" where
  "item_ok (LInt v) \<longleftrightarrow> - (2 ^ 63) \<le> v \<and> v < 2 ^ 64"
| "item_ok (LDouble txt) \<longleftrightarrow> length txt < 32"
| "item_ok (LFmt txt) \<longleftrightarrow> length txt < 32"
| "item_ok x \<longleftrightarrow> length (item_text x) < 2 ^ 31"

fun spec_put :: "nat \<Rightarrow> log_item list \<Rightarrow> string \<Rightarrow> string" where
  "spec_put sz [] acc = acc"
| "spec_put sz (x # xs) acc = spec_put sz xs (if length acc + item_room x \<le> sz then acc @ item_text x else acc)"

section \<open>Lemmas on conversion\<close>

lemma zero_at_digit: "\<bar>d\<bar> < 10 \<Longrightarrow> zero_at d = digit_char (nat \<bar>d\<bar>)"
proof -
  assume "\<bar>d\<bar> < 10"
  then have "d \<in> set [- 9 .. 9]" by auto
  moreover have "\<forall>d \<in> set [- 9 .. 9]. zero_at d = digit_char (nat \<bar>d\<bar>)"
    by code_simp
  ultimately show ?thesis by blast
qed

lemma abs_c_div: "\<bar>c_div i 10\<bar> = \<bar>i\<bar> div 10"
  by (cases "i = 0") (simp_all add: c_div_def abs_mult abs_sgn_eq)

lemma abs_c_mod: "\<bar>c_mod i 10\<bar> = \<bar>i\<bar> mod 10"
  by (cases "i < 0") (simp_all add: c_mod_neg c_mod_nonneg)

lemma convert_loop_dec: "convert_loop i = rev (dec (nat \<bar>i\<bar>))"
proof (induction i rule: convert_loop.induct)
  case (1 i)
  let ?n = "nat \<bar>i\<bar>"
  have lsd: "zero_at (c_mod i 10) = digit_char (?n mod 10)"
    using zero_at_digit [of "c_mod i 10"] by (simp add: abs_c_mod nat_mod_distrib)
  have "c_div i 10 = 0 \<longleftrightarrow> \<bar>i\<bar> div 10 = 0" using abs_c_div [of i] by linarith
  moreover have "\<bar>i\<bar> div 10 = 0 \<longleftrightarrow> \<bar>i\<bar> < 10" by (auto simp: zdiv_eq_0_iff)
  ultimately have n10: "c_div i 10 \<noteq> 0 \<longleftrightarrow> \<not> ?n < 10" by auto
  show ?case
  proof (cases "?n < 10")
    case True
    then show ?thesis using n10 lsd
      by (subst convert_loop.simps, subst dec.simps) simp
  next
    case False
    then have "convert_loop (c_div i 10) = rev (dec (?n div 10))"
      using 1 [OF refl refl] n10 by (simp add: abs_c_div nat_div_distrib)
    with False n10 lsd show ?thesis by (subst convert_loop.simps, subst dec.simps) simp
  qed
qed

lemma convert_dec_int: "convert v = dec_int v"
  by (simp add: convert_def convert_loop_dec dec_int_def)

lemma convert_length:
  assumes "- (2 ^ 63) \<le> v" "v < 2 ^ 64"
  shows "length (convert v) \<le> 20"
proof (cases "v < 0")
  case True
  then have "\<bar>v\<bar> < 10 ^ Suc 18" using assms by simp
  from dec_int_length [OF this] show ?thesis using True by (simp add: convert_dec_int)
next
  case False
  then have "\<bar>v\<bar> < 10 ^ Suc 19" using assms by simp
  from dec_int_length [OF this] show ?thesis using False by (simp add: convert_dec_int)
qed

lemma convertHex_loop_length: "n < 16 ^ Suc k \<Longrightarrow> length (convertHex_loop n) \<le> Suc k"
proof (induction k arbitrary: n)
  case 0
  then show ?case by (subst convertHex_loop.simps) simp
next
  case (Suc k)
  then have "n div 16 < 16 ^ Suc k" by (simp add: less_mult_imp_div_less mult.commute)
  from Suc.IH [OF this] show ?case by (subst convertHex_loop.simps) simp
qed

lemma convertHex_length: "length (convertHex v) \<le> 16"
  using convertHex_loop_length [of "unat v" 15] unsigned_less [of v, where 'a = nat] by (simp add: convertHex_def)

definition hex_val :: "char \<Rightarrow> nat" where
  "hex_val c = (if of_char c < (65 :: nat) then of_char c - 48 else of_char c - 55)"

definition read_hex :: "string \<Rightarrow> nat" where
  "read_hex cs = foldr (\<lambda>c n. n * 16 + hex_val c) (rev cs) 0"

lemma hex_val_digit: "d < 16 \<Longrightarrow> hex_val (digitsHex ! d) = d"
proof -
  have "\<forall>d \<in> set [0..<16]. hex_val (digitsHex ! d) = d" by code_simp
  then show "d < 16 \<Longrightarrow> hex_val (digitsHex ! d) = d" by simp
qed

lemma read_hex_convertHex: "read_hex (convertHex v) = unat v"
proof -
  have "foldr (\<lambda>c n. n * 16 + hex_val c) (convertHex_loop n) 0 = n" for n
  proof (induction n rule: convertHex_loop.induct)
    case (1 n)
    show ?case
    proof (cases "n div 16 = 0")
      case True
      then have "n < 16" by (simp add: div_eq_0_iff)
      with True show ?thesis by (subst convertHex_loop.simps) (simp add: hex_val_digit)
    next
      case False
      with 1 show ?thesis by (subst convertHex_loop.simps) (simp add: hex_val_digit)
    qed
  qed
  then show ?thesis by (simp add: read_hex_def convertHex_def)
qed

section \<open>Lemmas on the buffer\<close>

lemma fb_avail_exact: "fb_inv b \<Longrightarrow> fb_avail b = int (length (fdata b)) - int (fcur b)"
  using to_int32_exact [of "length (fdata b) - fcur b"] by (auto simp: fb_inv_def fb_avail_def of_nat_diff)

text \<open>Writing \<open>txt @ tail\<close> and keeping \<open>txt\<close>: what every operator does.\<close>

lemma fb_put:
  assumes "fb_inv b" "length (fb_text b) + length (txt @ tail) \<le> length (fdata b)"
  shows "\<exists>b'. rbind (fb_write (txt @ tail) b) (\<lambda>b'. Inr (fb_add (length txt) b')) = Inr b' \<and> fb_inv b' \<and>
    fb_text b' = fb_text b @ txt \<and> length (fdata b') = length (fdata b)"
proof -
  have cur: "length (fb_text b) = fcur b" using assms(1) by (simp add: fb_inv_def fb_text_def)
  with assms have fits: "fcur b + length (txt @ tail) \<le> length (fdata b)" by simp
  show ?thesis
    using fits assms(1)
    by (auto simp: fb_write_def copy_into_ok fb_add_def fb_inv_def fb_text_def)
qed

text \<open>No operator touches the array more than one byte (its NUL) behind the text it leaves.\<close>

lemma fb_write_rest:
  assumes "fb_write txt b = Inr b'"
  shows "fcur b' = fcur b" and "drop (fcur b + length txt) (fdata b') = drop (fcur b + length txt) (fdata b)"
  using assms by (auto simp: fb_write_def copy_into_def result_simps split: if_splits)

lemma fb_append_rest:
  assumes "fb_append txt b = Inr b'"
  shows "fcur b \<le> fcur b'" and "drop (fcur b') (fdata b') = drop (fcur b') (fdata b)"
  using assms fb_write_rest [of "txt" b] by (auto simp: fb_append_def fb_add_def result_simps split: if_splits)

lemma fb_write_NUL_rest:
  assumes "fb_write (txt @ [NUL]) b = Inr b'" "length txt \<le> n"
  shows "fcur b' = fcur b \<and> drop (Suc (fcur b + n)) (fdata b') = drop (Suc (fcur b + n)) (fdata b)"
proof -
  have "Suc (fcur b + n) = (n - length txt) + (fcur b + length (txt @ [NUL]))" using assms(2) by simp
  with fb_write_rest [OF assms(1)] show ?thesis by (metis drop_drop)
qed

lemma put_item_rest:
  assumes "put_item x b = Inr b'"
  shows "fcur b \<le> fcur b' \<and> drop (Suc (fcur b')) (fdata b') = drop (Suc (fcur b')) (fdata b)"
proof -
  have app: "fcur b \<le> fcur b' \<and> drop (Suc (fcur b')) (fdata b') = drop (Suc (fcur b')) (fdata b)"
    if "fb_append str b = Inr b'" for str
    using fb_append_rest [OF that] by (metis drop_drop plus_1_eq_Suc)
  show ?thesis
  proof (cases x)
    case (LInt v)
    with assms show ?thesis using fb_write_NUL_rest [of "convert v" b _ "length (convert v)"]
      by (auto simp: formatInteger_def fb_add_def result_simps split: if_splits)
  next
    case (LPointer v)
    with assms show ?thesis using fb_write_NUL_rest [of "''0x'' @ convertHex v" b _ "length (convertHex v) + 2"]
      by (auto simp: put_pointer_def fb_add_def result_simps split: if_splits)
  next
    case (LDouble t)
    with assms show ?thesis
      using fb_write_NUL_rest [of "c_snprintf (nat kMaxNumericSize) t" b _ "length t"]
      by (auto simp: put_double_def fb_add_def c_snprintf_def result_simps split: if_splits)
  qed (use assms app in \<open>auto simp: put_bool_def put_char_def put_cstr_def put_string_def put_fmt_def result_simps
      split: option.splits if_splits\<close>)
qed

lemma put_items_rest:
  "rfold put_item xs b = Inr b' \<Longrightarrow>
     fcur b \<le> fcur b' \<and> drop (Suc (fcur b')) (fdata b') = drop (Suc (fcur b')) (fdata b)"
proof (induction xs arbitrary: b)
  case (Cons x xs)
  then obtain b1 where b1: "put_item x b = Inr b1" "rfold put_item xs b1 = Inr b'" by (auto simp: result_simps)
  note IH = Cons.IH [OF b1(2)] and x = put_item_rest [OF b1(1)]
  have "Suc (fcur b') = (fcur b' - fcur b1) + Suc (fcur b1)" using IH by simp
  with IH x show ?case by (metis drop_drop order_trans)
qed simp

lemma fb_text_length: "fb_inv b \<Longrightarrow> length (fb_text b) = fcur b"
  by (simp add: fb_inv_def fb_text_def)

lemma fb_append_spec:
  assumes "fb_inv b" "length txt < 2 ^ 31"
  shows "\<exists>b'. fb_append txt b = Inr b' \<and> fb_inv b' \<and> length (fdata b') = length (fdata b) \<and>
    fb_text b' = (if length (fb_text b) + Suc (length txt) \<le> length (fdata b) then fb_text b @ txt else fb_text b)"
proof (cases "length (fb_text b) + Suc (length txt) \<le> length (fdata b)")
  case True
  with fb_put [OF assms(1), of "txt" "[]"] assms show ?thesis
    by (simp add: fb_append_def fb_avail_exact to_int32_exact fb_text_length) blast
next
  case False
  with assms show ?thesis by (simp add: fb_append_def fb_avail_exact to_int32_exact fb_text_length)
qed

lemma fb_number_spec:
  assumes "fb_inv b" "length txt < 32"
  shows "\<exists>b'. (if fb_avail b \<ge> kMaxNumericSize
        then rbind (fb_write (txt @ [NUL]) b) (\<lambda>b'. Inr (fb_add (length txt) b')) else Inr b) = Inr b' \<and>
    fb_inv b' \<and> length (fdata b') = length (fdata b) \<and>
    fb_text b' = (if length (fb_text b) + 32 \<le> length (fdata b) then fb_text b @ txt else fb_text b)"
proof (cases "length (fb_text b) + 32 \<le> length (fdata b)")
  case True
  with fb_put [OF assms(1), of "txt" "[NUL]"] assms show ?thesis
    by (simp add: fb_avail_exact kMaxNumericSize_def fb_text_length) blast
next
  case False
  with assms show ?thesis by (simp add: fb_avail_exact kMaxNumericSize_def fb_text_length)
qed

text \<open>The operators that go through \<open>append\<close>.\<close>

lemma put_item_append:
  assumes "item_ok x" "\<forall>v. x \<noteq> LInt v" "\<forall>v. x \<noteq> LPointer v" "\<forall>t. x \<noteq> LDouble t"
  shows "put_item x b = fb_append (item_text x) b \<and> item_room x = Suc (length (item_text x)) \<and>
    length (item_text x) < 2 ^ 31"
  using assms
  by (cases x) (auto simp: put_bool_def put_char_def put_cstr_def put_string_def put_fmt_def Fmt_ctor_def c_snprintf_def
      split: option.splits)

lemma put_item_spec:
  assumes "fb_inv b" "item_ok x"
  shows "\<exists>b'. put_item x b = Inr b' \<and> fb_inv b' \<and> length (fdata b') = length (fdata b) \<and>
    fb_text b' = (if length (fb_text b) + item_room x \<le> length (fdata b) then fb_text b @ item_text x else fb_text b)"
proof (cases x)
  case (LInt v)
  with convert_length [of v] assms(2) have "length (convert v) < 32" by simp
  from fb_number_spec [OF assms(1) this] show ?thesis
    unfolding LInt put_item.simps formatInteger_def item_room.simps item_text.simps
    by (simp only: convert_dec_int)
next
  case (LPointer v)
  have "length (''0x'' @ convertHex v) < 32" using convertHex_length [of v] by simp
  note num = fb_number_spec [OF assms(1) this]
  have "put_item x b = (if fb_avail b \<ge> kMaxNumericSize
      then rbind (fb_write ((''0x'' @ convertHex v) @ [NUL]) b) (\<lambda>b'. Inr (fb_add (length (''0x'' @ convertHex v)) b')) else Inr b)"
    by (simp add: LPointer put_pointer_def)
  with num show ?thesis by (simp only: LPointer item_room.simps item_text.simps)
next
  case (LDouble t)
  then have t: "length t < 32" using assms(2) by simp
  then have "c_snprintf (nat kMaxNumericSize) t = t" by (simp add: c_snprintf_def kMaxNumericSize_def)
  with fb_number_spec [OF assms(1) t] show ?thesis
    by (simp only: LDouble put_item.simps put_double_def item_room.simps item_text.simps)
qed (use put_item_append [of x b] assms fb_append_spec [OF assms(1), of "item_text x"] in \<open>simp only: log_item.simps simp_thms\<close>)+

section \<open>Properties\<close>

text \<open>
  Property C30. \<open>convert\<close>, the digit loop with its mirrored table, writes what \<open>printf("%d")\<close> writes, for
  every integer, the most negative one included: reading its text back gives the number. A 64-bit
  number takes at most 20 characters and a pointer at most 16 digits, which also read back, so
  that with sign, prefix and NUL they fit the 32 bytes \<open>kMaxNumericSize\<close> reserves.
\<close>

theorem convert_roundtrip:
  "convert v = dec_int v \<and> read_int (convert v) = v \<and>
   (- (2 ^ 63) \<le> v \<and> v < 2 ^ 64 \<longrightarrow> length (convert v) \<le> 20) \<and>
   read_hex (convertHex w) = unat w \<and> length (convertHex w) \<le> 16"
proof (intro conjI impI)
  show "convert v = dec_int v" by (rule convert_dec_int)
  show "read_int (convert v) = v" by (simp add: convert_dec_int read_int_dec_int)
  show "length (convert v) \<le> 20" if "- (2 ^ 63) \<le> v \<and> v < 2 ^ 64" using that convert_length by blast
  show "read_hex (convertHex w) = unat w" by (rule read_hex_convertHex)
  show "length (convertHex w) \<le> 16" by (rule convertHex_length)
qed

theorem convert_roundtrip_witness:
  "convert (- 9223372036854775808) = ''-9223372036854775808'' \<and> length (convert (- 9223372036854775808)) \<le> 20"
proof -
  have "dec_int (- 9223372036854775808) = ''-9223372036854775808''"
    by (simp add: dec_int_def dec.simps digit_char_eval)
  then show ?thesis
    using convert_roundtrip [of "- 9223372036854775808" 0] by simp
qed

lemma put_items_spec:
  assumes "fb_inv b" "\<forall>x \<in> set xs. item_ok x"
  shows "\<exists>b'. rfold put_item xs b = Inr b' \<and> fb_inv b' \<and> length (fdata b') = length (fdata b) \<and>
    fb_text b' = spec_put (length (fdata b)) xs (fb_text b)"
  using assms
proof (induction xs arbitrary: b)
  case (Cons x xs)
  from put_item_spec [OF Cons.prems(1), of x] Cons.prems(2) obtain b1 where b1: "put_item x b = Inr b1" "fb_inv b1"
    "length (fdata b1) = length (fdata b)"
    "fb_text b1 = (if length (fb_text b) + item_room x \<le> length (fdata b) then fb_text b @ item_text x else fb_text b)"
    by auto
  from Cons.IH [OF b1(2)] Cons.prems(2) obtain b2 where "rfold put_item xs b1 = Inr b2" "fb_inv b2"
    "length (fdata b2) = length (fdata b1)" "fb_text b2 = spec_put (length (fdata b1)) xs (fb_text b1)" by auto
  with b1 show ?case by simp
qed simp

text \<open>
  Property C29. The stream operators implement their specification: any sequence of them on a buffer
  succeeds without ever writing outside the array, and leaves the concatenation of the texts of
  those items for which there was room when they came, the others being dropped whole.
\<close>

theorem logstream_refines:
  assumes "fb_inv b" "\<forall>x \<in> set xs. item_ok x"
  shows "\<exists>b'. rfold put_item xs b = Inr b' \<and> fb_inv b' \<and> length (fdata b') = length (fdata b) \<and>
    fb_text b' = spec_put (length (fdata b)) xs (fb_text b)"
  by (rule put_items_spec [OF assms])

theorem logstream_refines_witness:
  "\<exists>b'. rfold put_item [LCstr (Some ''fd=''), LInt (- 7), LBool True] (FixedBuffer_ctor (replicate 40 NUL)) = Inr b' \<and>
     fb_text b' = ''fd=-71''"
proof -
  let ?b = "FixedBuffer_ctor (replicate 40 NUL)" and ?xs = "[LCstr (Some ''fd=''), LInt (- 7), LBool True]"
  have "fb_inv ?b" by (simp add: fb_inv_def FixedBuffer_ctor_def)
  moreover have "\<forall>x \<in> set ?xs. item_ok x" by simp
  ultimately obtain b' where b': "rfold put_item ?xs ?b = Inr b'" "fb_text b' = spec_put (length (fdata ?b)) ?xs (fb_text ?b)"
    using logstream_refines [of ?b ?xs] by blast
  have "spec_put (length (fdata ?b)) ?xs (fb_text ?b) = ''fd=-71''" by code_simp
  with b' show ?thesis by (metis (no_types, lifting))
qed

text \<open>
  The length test of \<open>append\<close> is on \<open>int\<close>: a length from \<open>2 ^ 31\<close> on looks negative and the copy
  leaves the array.
\<close>

lemma append_huge_overflows:
  assumes "fb_inv b" "length txt = 2 ^ 31"
  shows "fb_append txt b = Inl OutOfBounds"
proof -
  have "to_int32 (length txt) < 0" using assms(2) by (simp add: to_int32_def)
  moreover have "0 \<le> fb_avail b" using assms(1) by (simp add: fb_avail_exact fb_inv_def)
  moreover have "\<not> fcur b + length txt \<le> length (fdata b)" using assms by (simp add: fb_inv_def)
  ultimately show ?thesis by (simp add: fb_append_def fb_write_def copy_into_def)
qed

end
