(* ===== verification/NW_AsyncLogging.thy ===== *)
theory NW_AsyncLogging
  imports NW_LogStream
begin

text \<open>
  \<^verbatim>\<open>networker/base/AsyncLogging.h\<close> and \<^verbatim>\<open>networker/base/AsyncLogging.cpp\<close>: the double-buffered log
  between the threads that log and the thread that writes the file.

  Every step is one critical section, or one stretch of the writing thread between two of them, so
  that any interleaving of \<open>append\<close>, \<open>stop\<close> and \<open>threadFunc\<close> is a sequence of steps. A
  \<open>shared_ptr<Buffer>\<close> is an optional buffer: the code moves them around and never shares one.
  \<open>waitForSeconds\<close> returns at any time, since it has a timeout. The \<open>LogFile\<close> is the list of calls
  made on it; the time stamp of the notice on dropped buffers and the bytes of a fresh buffer are
  arguments. The size of a buffer is that of the fresh ones, \<open>kLargeBuffer\<close> in the code.

  The fields \<open>al_logged\<close> and \<open>al_rounds\<close> are history: the lines accepted so far and the texts of the
  buffers taken over in each round.
\<close>

section \<open>State\<close>

datatype file_call = OAppend string | OFlush

datatype async_pc = ATop | AWaiting | AWriting | ADone

record AsyncLogging =
  al_running :: bool
  currentBuffer :: "FixedBuffer option"
  nextBuffer :: "FixedBuffer option"
  full_buffers :: "FixedBuffer list"
  newBuffer1 :: "FixedBuffer option"
  newBuffer2 :: "FixedBuffer option"
  buffersToWrite :: "FixedBuffer list"
  al_pc :: async_pc
  al_out :: "file_call list"
  al_logged :: "string list"
  al_rounds :: "string list list"

section \<open>Operations\<close>

text \<open>The constructor, \<open>start\<close>, and \<open>threadFunc\<close> up to its loop; the four buffers are zeroed.\<close>

definition AsyncLogging_started :: "string \<Rightarrow> AsyncLogging" where
  "AsyncLogging_started u =
     (let b = Some (fb_bzero (FixedBuffer_ctor u)) in
      \<lparr>al_running = True, currentBuffer = b, nextBuffer = b, full_buffers = [], newBuffer1 = b, newBuffer2 = b,
       buffersToWrite = [], al_pc = ATop, al_out = [], al_logged = [], al_rounds = []\<rparr>)"

definition al_append :: "string \<Rightarrow> string \<Rightarrow> AsyncLogging \<Rightarrow> AsyncLogging result" where
  "al_append u logline s =
     (case currentBuffer s of
        None \<Rightarrow> Inl UseAfterFree
      | Some cur \<Rightarrow>
          if fb_avail cur > int (length logline)
          then rbind (fb_append logline cur) (\<lambda>b. Inr (s\<lparr>currentBuffer := Some b\<rparr>))
          else
            let cur' = (case nextBuffer s of Some b \<Rightarrow> b | None \<Rightarrow> FixedBuffer_ctor u) in
            rbind (fb_append logline cur') (\<lambda>b.
              Inr (s\<lparr>full_buffers := full_buffers s @ [cur], nextBuffer := None, currentBuffer := Some b\<rparr>)))"

definition al_stop :: "AsyncLogging \<Rightarrow> AsyncLogging" where
  "al_stop s = s\<lparr>al_running := False\<rparr>"

text \<open>The critical section of the writing thread, from the return of \<open>waitForSeconds\<close> on.\<close>

definition al_swap :: "AsyncLogging \<Rightarrow> AsyncLogging result" where
  "al_swap s =
     (case currentBuffer s of
        None \<Rightarrow> Inl UseAfterFree
      | Some cur \<Rightarrow>
          let s1 = s\<lparr>currentBuffer := newBuffer1 s, newBuffer1 := None,
                     buffersToWrite := full_buffers s @ [cur], full_buffers := buffersToWrite s, al_pc := AWriting\<rparr>
          in Inr (if nextBuffer s1 = None then s1\<lparr>nextBuffer := newBuffer2 s1, newBuffer2 := None\<rparr> else s1))"

definition empty_buffer :: "FixedBuffer option \<Rightarrow> bool" where
  "empty_buffer b \<longleftrightarrow> (case b of None \<Rightarrow> False | Some b \<Rightarrow> fb_length b = 0)"

text \<open>The head of the loop, up to the wait.\<close>

definition al_top :: "AsyncLogging \<Rightarrow> AsyncLogging result" where
  "al_top s =
     (if al_running s
      then c_assert (empty_buffer (newBuffer1 s)) (c_assert (empty_buffer (newBuffer2 s))
             (c_assert (buffersToWrite s = [])
               (if full_buffers s = [] then Inr (s\<lparr>al_pc := AWaiting\<rparr>) else al_swap s)))
      else Inr (s\<lparr>al_pc := ADone, al_out := al_out s @ [OFlush]\<rparr>))"

definition drop_notice :: "string \<Rightarrow> nat \<Rightarrow> string" where
  "drop_notice stamp n =
     c_snprintf 256 (''Drooped log message at '' @ stamp @ '', '' @ dec (n - 2) @ '' larger buffer'' @ [CHR 0x0A])"

definition drop_excess :: "string \<Rightarrow> AsyncLogging \<Rightarrow> AsyncLogging" where
  "drop_excess stamp s =
     (if length (buffersToWrite s) > 25
      then s\<lparr>al_out := al_out s @ [OAppend (drop_notice stamp (length (buffersToWrite s)))],
             buffersToWrite := take 2 (buffersToWrite s)\<rparr>
      else s)"

text \<open>A buffer the thread gave away comes back from those it has written.\<close>

definition refill :: "FixedBuffer option \<Rightarrow> FixedBuffer list \<Rightarrow> (FixedBuffer option \<times> FixedBuffer list) result" where
  "refill nb bs =
     (case nb of Some b \<Rightarrow> Inr (nb, bs)
      | None \<Rightarrow> c_assert (bs \<noteq> []) (Inr (Some (fb_reset (last bs)), butlast bs)))"

definition al_write :: "string \<Rightarrow> AsyncLogging \<Rightarrow> AsyncLogging result" where
  "al_write stamp s =
     c_assert (buffersToWrite s \<noteq> []) (
       let s1 = drop_excess stamp s;
           s2 = s1\<lparr>al_out := al_out s1 @ map (\<lambda>b. OAppend (fb_text b)) (buffersToWrite s1)\<rparr>;
           bs = (if length (buffersToWrite s2) > 2 then take 2 (buffersToWrite s2) else buffersToWrite s2)
       in rbind (refill (newBuffer1 s2) bs) (\<lambda>(nb1, bs1).
            rbind (refill (newBuffer2 s2) bs1) (\<lambda>(nb2, bs2).
              Inr (s2\<lparr>newBuffer1 := nb1, newBuffer2 := nb2, buffersToWrite := [], al_out := al_out s2 @ [OFlush],
                      al_pc := ATop\<rparr>))))"

section \<open>Interleavings\<close>

definition log_round :: "AsyncLogging \<Rightarrow> AsyncLogging" where
  "log_round s = (if al_pc s = AWriting then s\<lparr>al_rounds := al_rounds s @ [map fb_text (buffersToWrite s)]\<rparr> else s)"

inductive al_step :: "string \<Rightarrow> AsyncLogging \<Rightarrow> AsyncLogging \<Rightarrow> bool" for u where
  append: "length l < 2 ^ 31 \<Longrightarrow> al_append u l s = Inr t \<Longrightarrow>
    al_step u s (t\<lparr>al_logged := al_logged s @ (if length l < length u then [l] else [])\<rparr>)"
| stop: "al_step u s (al_stop s)"
| top: "al_pc s = ATop \<Longrightarrow> al_top s = Inr t \<Longrightarrow> al_step u s (log_round t)"
| wake: "al_pc s = AWaiting \<Longrightarrow> al_swap s = Inr t \<Longrightarrow> al_step u s (log_round t)"
| flush_out: "al_pc s = AWriting \<Longrightarrow> al_write stamp s = Inr t \<Longrightarrow> al_step u s t"

fun call_text :: "file_call \<Rightarrow> string" where
  "call_text (OAppend l) = l"
| "call_text OFlush = []"

definition out_text :: "AsyncLogging \<Rightarrow> string" where
  "out_text s = concat (map call_text (al_out s))"

text \<open>What the front end holds, and what the writing thread has taken and not yet written.\<close>

definition front_text :: "AsyncLogging \<Rightarrow> string" where
  "front_text s = concat (map fb_text (full_buffers s)) @ (case currentBuffer s of Some b \<Rightarrow> fb_text b | None \<Rightarrow> [])"

definition taken_text :: "AsyncLogging \<Rightarrow> string" where
  "taken_text s = concat (map fb_text (buffersToWrite s))"

definition no_drop :: "AsyncLogging \<Rightarrow> bool" where
  "no_drop s \<longleftrightarrow> (\<forall>r \<in> set (al_rounds s). length r \<le> 25)"

section \<open>Invariant\<close>

definition buf_ok :: "string \<Rightarrow> FixedBuffer \<Rightarrow> bool" where
  "buf_ok u b \<longleftrightarrow> fb_inv b \<and> length (fdata b) = length u"

definition buf_fresh :: "string \<Rightarrow> FixedBuffer option \<Rightarrow> bool" where
  "buf_fresh u b \<longleftrightarrow> (case b of None \<Rightarrow> False | Some b \<Rightarrow> buf_ok u b \<and> fcur b = 0)"

definition al_inv :: "string \<Rightarrow> AsyncLogging \<Rightarrow> bool" where
  "al_inv u s \<longleftrightarrow>
     (case currentBuffer s of None \<Rightarrow> False | Some b \<Rightarrow> buf_ok u b) \<and>
     (nextBuffer s = None \<and> full_buffers s \<noteq> [] \<or> buf_fresh u (nextBuffer s)) \<and>
     (\<forall>b \<in> set (full_buffers s). buf_ok u b) \<and> (\<forall>b \<in> set (buffersToWrite s). buf_ok u b) \<and>
     (if al_pc s = AWriting
      then buffersToWrite s \<noteq> [] \<and> newBuffer1 s = None \<and>
           (newBuffer2 s = None \<and> 2 \<le> length (buffersToWrite s) \<or> buf_fresh u (newBuffer2 s)) \<and>
           al_rounds s \<noteq> [] \<and> last (al_rounds s) = map fb_text (buffersToWrite s)
      else buffersToWrite s = [] \<and> buf_fresh u (newBuffer1 s) \<and> buf_fresh u (newBuffer2 s)) \<and>
     concat (map concat (al_rounds s)) @ front_text s = concat (al_logged s) \<and>
     (no_drop s \<longrightarrow> out_text s @ taken_text s = concat (map concat (al_rounds s)))"

lemma buf_fresh_Some: "buf_fresh u b \<Longrightarrow> \<exists>b'. b = Some b' \<and> buf_ok u b' \<and> fcur b' = 0 \<and> fb_text b' = []"
  by (auto simp: buf_fresh_def fb_text_def split: option.splits)

lemma buf_fresh_reset: "buf_ok u b \<Longrightarrow> buf_fresh u (Some (fb_reset b))"
  by (auto simp: buf_fresh_def buf_ok_def fb_reset_def fb_inv_def)

lemma buf_fresh_new: "length u < 2 ^ 31 \<Longrightarrow> buf_fresh u (Some (FixedBuffer_ctor u))"
  by (simp add: buf_fresh_def buf_ok_def fb_inv_def FixedBuffer_ctor_def)

lemma buf_fresh_empty: "buf_fresh u b \<Longrightarrow> empty_buffer b"
  by (auto simp: buf_fresh_def empty_buffer_def fb_length_def to_int32_def split: option.splits)

lemma al_init_inv: "length u < 2 ^ 31 \<Longrightarrow> al_inv u (AsyncLogging_started u)"
  by (simp add: al_inv_def AsyncLogging_started_def Let_def buf_fresh_def buf_ok_def fb_inv_def fb_bzero_def
      FixedBuffer_ctor_def front_text_def out_text_def taken_text_def fb_text_def)

text \<open>A line of less than the size of a buffer fits the current buffer or an empty one.\<close>

lemma append_line:
  assumes "buf_ok u b" "length l < 2 ^ 31"
  shows "\<exists>b'. fb_append l b = Inr b' \<and> buf_ok u b' \<and>
    fb_text b' = (if fcur b + length l < length u then fb_text b @ l else fb_text b)"
  using fb_append_spec [of b l] assms by (auto simp: buf_ok_def fb_text_length)

lemma al_append_ok:
  assumes "al_inv u s" "length u < 2 ^ 31" "length l < 2 ^ 31"
  shows "\<exists>t. al_append u l s = Inr t \<and> al_inv u (t\<lparr>al_logged := al_logged s @ (if length l < length u then [l] else [])\<rparr>)"
proof -
  from assms(1) obtain cur where cur: "currentBuffer s = Some cur" "buf_ok u cur"
    by (auto simp: al_inv_def split: option.splits)
  then have av: "fb_avail cur > int (length l) \<longleftrightarrow> fcur cur + length l < length u"
    by (auto simp: buf_ok_def fb_avail_exact fb_inv_def)
  show ?thesis
  proof (cases "fcur cur + length l < length u")
    case True
    with append_line [OF cur(2) assms(3)] obtain b' where b': "fb_append l cur = Inr b'" "buf_ok u b'" "fb_text b' = fb_text cur @ l"
      by auto
    with True av cur assms(1) show ?thesis
      by (auto simp: al_append_def al_inv_def front_text_def no_drop_def out_text_def taken_text_def)
  next
    case False
    let ?c = "case nextBuffer s of Some b \<Rightarrow> b | None \<Rightarrow> FixedBuffer_ctor u"
    have "buf_fresh u (Some ?c)"
      using assms(1) buf_fresh_new [OF assms(2)] by (auto simp: al_inv_def buf_fresh_def split: option.splits)
    from buf_fresh_Some [OF this] have c: "buf_ok u ?c" "fcur ?c = 0" "fb_text ?c = []" by simp_all
    with append_line [OF c(1) assms(3)] obtain b' where b': "fb_append l ?c = Inr b'" "buf_ok u b'"
      "fb_text b' = (if length l < length u then l else [])" by auto
    have "al_append u l s = Inr (s\<lparr>full_buffers := full_buffers s @ [cur], nextBuffer := None, currentBuffer := Some b'\<rparr>)"
      using False av cur(1) b'(1) by (simp add: al_append_def Let_def)
    with False av cur assms(1) b'(2,3) show ?thesis
      by (auto simp: al_inv_def front_text_def no_drop_def out_text_def taken_text_def)
  qed
qed

lemma al_swap_ok:
  assumes "al_inv u s" "al_pc s \<noteq> AWriting"
  shows "\<exists>t. al_swap s = Inr t \<and> al_inv u (log_round t)"
proof -
  from assms(1) obtain cur where cur: "currentBuffer s = Some cur" "buf_ok u cur"
    by (auto simp: al_inv_def split: option.splits)
  have new: "buf_fresh u (newBuffer1 s)" "buf_fresh u (newBuffer2 s)" "buffersToWrite s = []"
    using assms by (auto simp: al_inv_def)
  from buf_fresh_Some [OF new(1)] obtain b1 where b1: "newBuffer1 s = Some b1" "buf_ok u b1" "fb_text b1 = []" by auto
  show ?thesis
    using assms cur new b1
    by (auto simp: al_swap_def Let_def log_round_def al_inv_def front_text_def no_drop_def out_text_def taken_text_def
        Suc_le_eq)
qed

lemma al_top_ok:
  assumes "al_inv u s" "al_pc s = ATop"
  shows "\<exists>t. al_top s = Inr t \<and> al_inv u (log_round t)"
proof -
  have top: "buf_fresh u (newBuffer1 s)" "buf_fresh u (newBuffer2 s)" "buffersToWrite s = []"
    using assms by (auto simp: al_inv_def)
  have "al_inv u (log_round (s\<lparr>al_pc := pc, al_out := al_out s @ ys\<rparr>))" if "pc \<noteq> AWriting" "ys = [] \<or> ys = [OFlush]" for pc ys
    using assms that by (auto simp: log_round_def al_inv_def front_text_def no_drop_def out_text_def taken_text_def)
  from this [of AWaiting "[]"] this [of ADone "[OFlush]"] show ?thesis
    using al_swap_ok [OF assms(1)] assms(2) top by (auto simp: al_top_def buf_fresh_empty)
qed

lemma refill_ok:
  assumes "nb = None \<and> bs \<noteq> [] \<or> buf_fresh u nb" "\<forall>b \<in> set bs. buf_ok u b"
  shows "\<exists>nb' bs'. refill nb bs = Inr (nb', bs') \<and> buf_fresh u nb' \<and> (\<forall>b \<in> set bs'. buf_ok u b) \<and>
    length bs \<le> Suc (length bs')"
  using assms buf_fresh_reset [of u "last bs"]
  by (auto simp: refill_def buf_fresh_def split: option.splits dest: in_set_butlastD)

text \<open>Having given one or two buffers away, the thread has at least as many to take back.\<close>

lemma al_write_buffers:
  fixes stamp :: string
  assumes "al_inv u s" "al_pc s = AWriting"
  defines "s1 \<equiv> drop_excess stamp s"
  defines "s2 \<equiv> s1\<lparr>al_out := al_out s1 @ map (\<lambda>b. OAppend (fb_text b)) (buffersToWrite s1)\<rparr>"
  shows "\<exists>nb1 nb2. al_write stamp s = Inr (s2\<lparr>newBuffer1 := nb1, newBuffer2 := nb2, buffersToWrite := [],
      al_out := al_out s2 @ [OFlush], al_pc := ATop\<rparr>) \<and> buf_fresh u nb1 \<and> buf_fresh u nb2"
proof -
  let ?bs = "if length (buffersToWrite s2) > 2 then take 2 (buffersToWrite s2) else buffersToWrite s2"
  have w: "buffersToWrite s \<noteq> []" "newBuffer1 s = None" "\<forall>b \<in> set (buffersToWrite s). buf_ok u b"
    "newBuffer2 s = None \<and> 2 \<le> length (buffersToWrite s) \<or> buf_fresh u (newBuffer2 s)"
    using assms(1,2) by (auto simp: al_inv_def)
  have bs: "?bs \<noteq> []" "\<forall>b \<in> set ?bs. buf_ok u b" "2 \<le> length (buffersToWrite s) \<Longrightarrow> length ?bs = 2"
    using w(1,3) by (auto simp: s2_def s1_def drop_excess_def dest: in_set_takeD)
  have nb: "newBuffer1 s2 = newBuffer1 s" "newBuffer2 s2 = newBuffer2 s" by (simp_all add: s2_def s1_def drop_excess_def)
  from refill_ok [of "newBuffer1 s2" ?bs u] bs(1,2) w(2) nb obtain nb1 bs1
    where r1: "refill (newBuffer1 s2) ?bs = Inr (nb1, bs1)" "buf_fresh u nb1" "\<forall>b \<in> set bs1. buf_ok u b"
      "length ?bs \<le> Suc (length bs1)" by auto
  have "newBuffer2 s2 = None \<and> bs1 \<noteq> [] \<or> buf_fresh u (newBuffer2 s2)"
    using w(4) bs(3) r1(4) nb by auto
  from refill_ok [OF this r1(3)] obtain nb2 bs2 where "refill (newBuffer2 s2) bs1 = Inr (nb2, bs2)" "buf_fresh u nb2" by auto
  moreover have "al_write stamp s = rbind (refill (newBuffer1 s2) ?bs) (\<lambda>(nb1, bs1). rbind (refill (newBuffer2 s2) bs1)
      (\<lambda>(nb2, bs2). Inr (s2\<lparr>newBuffer1 := nb1, newBuffer2 := nb2, buffersToWrite := [], al_out := al_out s2 @ [OFlush], al_pc := ATop\<rparr>)))"
    using w(1) unfolding al_write_def Let_def s1_def [symmetric] s2_def [symmetric] by (simp only: c_assert_holds not_False_eq_True)
  ultimately show ?thesis using r1(1,2) by (auto simp only: rbind_Inr prod.case)
qed

lemma al_write_ok:
  assumes "al_inv u s" "al_pc s = AWriting"
  shows "\<exists>t. al_write stamp s = Inr t \<and> al_inv u t"
proof -
  have call_texts: "concat (map (call_text \<circ> (\<lambda>b. OAppend (fb_text b))) bs) = concat (map fb_text bs)" for bs
    by (simp add: comp_def)
  have small: "length (buffersToWrite s) \<le> 25" if "no_drop s"
    using that assms last_in_set [of "al_rounds s"] by (auto simp: no_drop_def al_inv_def)
  from al_write_buffers [OF assms, of stamp] obtain nb1 nb2 where t: "al_write stamp s = Inr ((drop_excess stamp s)\<lparr>
newBuffer1 := nb1,
      newBuffer2 := nb2, buffersToWrite := [],
      al_out := al_out (drop_excess stamp s) @ map (\<lambda>b. OAppend (fb_text b)) (buffersToWrite (drop_excess stamp s)) @ [OFlush],
      al_pc := ATop\<rparr>)" "buf_fresh u nb1" "buf_fresh u nb2"
    by auto
  show ?thesis
    unfolding t(1) using assms small t(2,3)
    by (auto simp: al_inv_def drop_excess_def front_text_def no_drop_def out_text_def taken_text_def call_texts)
qed

lemma al_stop_inv: "al_inv u s \<Longrightarrow> al_inv u (al_stop s)"
  by (simp add: al_inv_def al_stop_def front_text_def no_drop_def out_text_def taken_text_def)

interpretation async: transition_system "\<lambda>s. s = AsyncLogging_started u" "al_step u" "\<lambda>s. length u < 2 ^ 31 \<longrightarrow> al_inv u s" for u
proof
  show "length u < 2 ^ 31 \<longrightarrow> al_inv u s" if "s = AsyncLogging_started u" for s using al_init_inv that by blast
  show "length u < 2 ^ 31 \<longrightarrow> al_inv u t" if "length u < 2 ^ 31 \<longrightarrow> al_inv u s" "al_step u s t" for s t
  proof
    assume u: "length u < 2 ^ 31"
    with that have inv: "al_inv u s" by blast
    from that(2) show "al_inv u t"
    proof cases
      case (append l t')
      then show ?thesis using al_append_ok [OF inv u, of l] by auto
    next
      case stop
      then show ?thesis using al_stop_inv [OF inv] by simp
    next
      case (top t')
      then show ?thesis using al_top_ok [OF inv] by auto
    next
      case (wake t')
      then show ?thesis using al_swap_ok [OF inv] by auto
    next
      case (flush_out stamp)
      then show ?thesis using al_write_ok [OF inv, of stamp] by auto
    qed
  qed
qed

section \<open>Properties\<close>

text \<open>
  Property C36. In every interleaving of logging threads, the writing thread and \<open>stop\<close>, no assertion fails and no
  null buffer is used: every step that may come returns normally, and at the head of the loop the
  two spare buffers are there and empty. What the file got, what the writing thread has taken and
  what the front end holds are together exactly the accepted lines in order, unless a round took
  over more than 25 buffers; a line is accepted if it is shorter than a buffer.
\<close>

theorem async_logging_keeps_lines:
  assumes "length u < 2 ^ 31" "(al_step u)\<^sup>*\<^sup>* (AsyncLogging_started u) s"
  shows "(no_drop s \<longrightarrow> out_text s @ taken_text s @ front_text s = concat (al_logged s)) \<and>
    (\<forall>l. length l < 2 ^ 31 \<longrightarrow> isOK (al_append u l s)) \<and>
    (al_pc s = ATop \<longrightarrow> isOK (al_top s)) \<and> (al_pc s = AWaiting \<longrightarrow> isOK (al_swap s)) \<and>
    (al_pc s = AWriting \<longrightarrow> (\<forall>stamp. isOK (al_write stamp s)))"
proof -
  have inv: "al_inv u s" using async.reachable_inv [OF refl assms(2)] assms(1) by blast
  then have "out_text s @ taken_text s @ front_text s = concat (al_logged s)" if "no_drop s"
    using that by (simp add: al_inv_def flip: append_assoc)
  moreover have "isOK (al_append u l s)" if "length l < 2 ^ 31" for l
    using al_append_ok [OF inv assms(1) that] by (auto simp: isOK_iff)
  ultimately show ?thesis
    using al_top_ok [OF inv] al_swap_ok [OF inv] al_write_ok [OF inv] by (auto simp: isOK_iff)
qed

lemma started_simps [simp]:
  "al_logged (AsyncLogging_started u) = []" "al_pc (AsyncLogging_started u) = ATop" "al_rounds (AsyncLogging_started u) = []"
  "al_running (AsyncLogging_started u)" "al_out (AsyncLogging_started u) = []"
  by (simp_all add: AsyncLogging_started_def Let_def)

lemma demo_append:
  defines "u \<equiv> replicate 4 CHR ''?''"
  shows "al_step u (AsyncLogging_started u) ((AsyncLogging_started u)\<lparr>
    currentBuffer := Some \<lparr>fdata = [CHR ''a'', CHR ''b'', NUL, NUL], fcur = 2\<rparr>, al_logged := [''ab'']\<rparr>)"
proof -
  have "al_append u ''ab'' (AsyncLogging_started u) =
      Inr ((AsyncLogging_started u)\<lparr>currentBuffer := Some \<lparr>fdata = [CHR ''a'', CHR ''b'', NUL, NUL], fcur = 2\<rparr>\<rparr>)"
    unfolding u_def by code_simp
  from al_step.append [OF _ this] show ?thesis by (simp add: u_def)
qed

theorem async_logging_keeps_lines_witness:
  "\<exists>s. al_logged s = [''ab''] \<and> out_text s @ taken_text s @ front_text s = ''ab'' \<and> isOK (al_top s)"
proof -
  let ?u = "replicate 4 CHR ''?''"
  let ?init = "AsyncLogging_started ?u"
  let ?s = "?init\<lparr>currentBuffer := Some \<lparr>fdata = [CHR ''a'', CHR ''b'', NUL, NUL], fcur = 2\<rparr>, al_logged := [''ab'']\<rparr>"
  have reach: "(al_step ?u)\<^sup>*\<^sup>* ?init ?s" using demo_append by blast
  have "length ?u < 2 ^ 31" "al_pc ?s = ATop" "no_drop ?s" "al_logged ?s = [''ab'']" by (simp_all add: no_drop_def)
  with async_logging_keeps_lines [OF _ reach] show ?thesis by (metis concat.simps append_Nil2)
qed

text \<open>
  \<open>stop\<close> does not wait for the log to be written: when the writing thread ends, the lines that came
  after the buffers were last taken over are still in the front end, and whatever happens then
  they never reach the file; this can be every line logged between \<open>start\<close> and \<open>stop\<close>.
\<close>

lemma async_logging_loses_on_stop:
  assumes "length u < 2 ^ 31" "(al_step u)\<^sup>*\<^sup>* (AsyncLogging_started u) s" "al_pc s = ADone"
    and "(al_step u)\<^sup>*\<^sup>* s t" "no_drop s"
  shows "al_out t = al_out s \<and> (\<exists>lost. concat (al_logged t) = out_text t @ front_text s @ lost)"
proof -
  have done_step: "al_pc b = ADone \<and> al_out b = al_out a \<and> al_rounds b = al_rounds a \<and>
      (\<exists>l. concat (al_logged b) = concat (al_logged a) @ l)"
    if "al_step u a b" "al_pc a = ADone" for a b
    using that by (cases rule: al_step.cases)
      (auto simp: al_append_def al_stop_def Let_def result_simps split: option.splits if_splits)
  have t: "al_pc t = ADone \<and> al_out t = al_out s \<and> (\<exists>l. concat (al_logged t) = concat (al_logged s) @ l)"
    using assms(4,3)
  proof (induction rule: rtranclp_induct)
    case (step a b)
    with done_step [of a b] show ?case by fastforce
  qed simp
  have inv: "al_inv u s" using async.reachable_inv [OF refl assms(2)] assms(1) by blast
  then have "taken_text s = []" "out_text s @ front_text s = concat (al_logged s)"
    using assms(3,5) by (auto simp: al_inv_def taken_text_def)
  with t show ?thesis unfolding out_text_def by (metis append_assoc)
qed

lemma async_logging_loses_on_stop_witness:
  "\<exists>s. al_pc s = ADone \<and> al_logged s = [''ab''] \<and> out_text s = [] \<and>
     (\<forall>t. (al_step (replicate 4 CHR ''?''))\<^sup>*\<^sup>* s t \<longrightarrow> al_out t = al_out s)"
proof -
  let ?u = "replicate 4 CHR ''?''"
  let ?init = "AsyncLogging_started ?u"
  let ?s1 = "?init\<lparr>currentBuffer := Some \<lparr>fdata = [CHR ''a'', CHR ''b'', NUL, NUL], fcur = 2\<rparr>, al_logged := [''ab'']\<rparr>"
  let ?s2 = "al_stop ?s1"
  let ?s3 = "?s2\<lparr>al_pc := ADone, al_out := [OFlush]\<rparr>"
  have "al_step ?u ?init ?s1" by (rule demo_append)
  moreover have "al_step ?u ?s1 ?s2" by (rule al_step.stop)
  moreover have "al_top ?s2 = Inr ?s3" "log_round ?s3 = ?s3" "al_pc ?s2 = ATop"
    by (simp_all add: al_top_def al_stop_def log_round_def)
  then have "al_step ?u ?s2 ?s3" by (metis al_step.top)
  ultimately have "(al_step ?u)\<^sup>*\<^sup>* ?init ?s3" by (meson converse_rtranclp_into_rtranclp r_into_rtranclp)
  moreover have "no_drop ?s3" "out_text ?s3 = []"
    by (simp_all add: no_drop_def out_text_def al_stop_def)
  ultimately show ?thesis
    using async_logging_loses_on_stop [of ?u ?s3] by (intro exI [of _ ?s3]) (simp add: al_stop_def)
qed

end
