(* ===== verification/NW_Date.thy ===== *)
theory NW_Date
  imports NW_Text
begin

text \<open>
  \<^verbatim>\<open>networker/base/Date.h\<close> and \<^verbatim>\<open>networker/base/Date.cpp\<close>: days as Julian day numbers.

  The two conversions are the integer formulas of the code, with the division of C++ and a check of
  every sum, difference and product of \<open>int\<close>s (\<open>c_ints\<close>); \<open>jdn\<close> and \<open>ymd_at\<close> are their values when
  nothing overflows. The reference is the Gregorian calendar by its rules: \<open>leap\<close>, \<open>days_in_month\<close>
  and \<open>next_day\<close>; the day number is shown to count the days of that calendar, and the inverse
  formula to invert it, from the year -4799 to the last one without an overflow.
\<close>

section \<open>Definitions\<close>

definition getJulianDayNumber :: "int \<Rightarrow> int \<Rightarrow> int \<Rightarrow> int result" where
  "getJulianDayNumber year month day =
     c_ints [14 - month] (
     let a = c_div (14 - month) 12 in
     c_ints [year + 4800, year + 4800 - a, 12 * a, month + 12 * a, month + 12 * a - 3] (
     let y = year + 4800 - a;
         m = month + 12 * a - 3;
         sum1 = day + c_div (153 * m + 2) 5;
         sum2 = sum1 + y * 365;
         sum3 = sum2 + c_div y 4;
         sum4 = sum3 - c_div y 100;
         sum5 = sum4 + c_div y 400
     in c_ints [153 * m, 153 * m + 2, sum1, y * 365, sum2, sum3, sum4, sum5, sum5 - 32045]
          (Inr (sum5 - 32045))))"

record YearMonthDay =
  ymd_year :: int
  ymd_month :: int
  ymd_day :: int

definition getYearMonthDay :: "int \<Rightarrow> YearMonthDay result" where
  "getYearMonthDay julianDayNumber =
     c_ints [julianDayNumber + 32044] (
     let a = julianDayNumber + 32044 in
     c_ints [4 * a, 4 * a + 3] (
     let b = c_div (4 * a + 3) 146097 in
     c_ints [b * 146097, a - c_div (b * 146097) 4] (
     let c = a - c_div (b * 146097) 4 in
     c_ints [4 * c, 4 * c + 3] (
     let d = c_div (4 * c + 3) 1461 in
     c_ints [1461 * d, c - c_div (1461 * d) 4] (
     let e = c - c_div (1461 * d) 4 in
     c_ints [5 * e, 5 * e + 2] (
     let m = c_div (5 * e + 2) 153;
         day = e - c_div (153 * m + 2) 5 + 1;
         month = m + 3 - 12 * c_div m 10;
         year = b * 100 + d - 4800 + c_div m 10
     in c_ints [153 * m, 153 * m + 2, e - c_div (153 * m + 2) 5, day, m + 3, 12 * c_div m 10, month,
                b * 100, b * 100 + d, b * 100 + d - 4800, year]
          (Inr \<lparr>ymd_year = year, ymd_month = month, ymd_day = day\<rparr>)))))))"

definition kDaysPerWeek :: int where "kDaysPerWeek = 7"

definition kJulianDayOf1970_01_01 :: int where
  "kJulianDayOf1970_01_01 = projr (getJulianDayNumber 1970 1 1)"

definition Date_valid :: "int \<Rightarrow> bool" where
  "Date_valid jd \<longleftrightarrow> jd > 0"

definition weekDay :: "int \<Rightarrow> int result" where
  "weekDay jd = c_ints [jd + 1] (Inr (c_mod (jd + 1) kDaysPerWeek))"

text \<open>\<open>%02d\<close> and \<open>%4d\<close>.\<close>

definition pad :: "char \<Rightarrow> nat \<Rightarrow> string \<Rightarrow> string" where
  "pad c n txt = replicate (n - length txt) c @ txt"

definition toIsoString :: "int \<Rightarrow> string result" where
  "toIsoString jd =
     rbind (getYearMonthDay jd) (\<lambda>ymd.
       Inr (c_snprintf 32 (pad CHR '' '' 4 (dec_int (ymd_year ymd)) @ ''-'' @
         pad CHR ''0'' 2 (dec_int (ymd_month ymd)) @ ''-'' @ pad CHR ''0'' 2 (dec_int (ymd_day ymd)))))"

section \<open>The values of the formulas\<close>

text \<open>What the two functions return when nothing overflows.\<close>

definition jdn :: "int \<Rightarrow> int \<Rightarrow> int \<Rightarrow> int" where
  "jdn year month day =
     (let a = c_div (14 - month) 12;
          y = year + 4800 - a;
          m = month + 12 * a - 3
      in day + c_div (153 * m + 2) 5 + y * 365 + c_div y 4 - c_div y 100 + c_div y 400 - 32045)"

definition ymd_at :: "int \<Rightarrow> YearMonthDay" where
  "ymd_at j =
     (let a = j + 32044;
          b = c_div (4 * a + 3) 146097;
          c = a - c_div (b * 146097) 4;
          d = c_div (4 * c + 3) 1461;
          e = c - c_div (1461 * d) 4;
          m = c_div (5 * e + 2) 153
      in \<lparr>ymd_year = b * 100 + d - 4800 + c_div m 10, ymd_month = m + 3 - 12 * c_div m 10,
          ymd_day = e - c_div (153 * m + 2) 5 + 1\<rparr>)"

section \<open>The calendar\<close>

definition leap :: "int \<Rightarrow> bool" where
  "leap y \<longleftrightarrow> 4 dvd y \<and> (\<not> 100 dvd y \<or> 400 dvd y)"

definition days_in_month :: "int \<Rightarrow> int \<Rightarrow> int" where
  "days_in_month y m = (if m = 2 then (if leap y then 29 else 28) else if m \<in> {4, 6, 9, 11} then 30 else 31)"

definition valid_ymd :: "int \<Rightarrow> int \<Rightarrow> int \<Rightarrow> bool" where
  "valid_ymd y m d \<longleftrightarrow> 1 \<le> m \<and> m \<le> 12 \<and> 1 \<le> d \<and> d \<le> days_in_month y m"

definition next_day :: "int \<times> int \<times> int \<Rightarrow> int \<times> int \<times> int" where
  "next_day = (\<lambda>(y, m, d).
     if d < days_in_month y m then (y, m, d + 1) else if m < 12 then (y, m + 1, 1) else (y + 1, 1, 1))"

section \<open>Lemmas\<close>

text \<open>The day number by the year that starts in March, its month from 0 and the day in it from 0.\<close>

definition march_day :: "int \<Rightarrow> int \<Rightarrow> int" where
  "march_day yy doy = doy + 365 * yy + yy div 4 - yy div 100 + yy div 400"

lemma march_day_add: "march_day yy doy = march_day yy 0 + doy"
  by (simp add: march_day_def)

lemma jdn_late:
  assumes "- 4799 \<le> y" "3 \<le> m" "m \<le> 12"
  shows "jdn y m d = march_day (y + 4800) 0 + (d - 1 + (153 * (m - 3) + 2) div 5) - 32044"
proof -
  have "c_div (14 - m) 12 = 0" using assms by (simp add: c_div_nonneg)
  moreover have "0 \<le> y + 4800" "0 \<le> m - 3" using assms by auto
  ultimately show ?thesis by (simp add: jdn_def march_day_def c_div_nonneg Let_def)
qed

lemma jdn_early:
  assumes "- 4799 \<le> y" "m = 1 \<or> m = 2"
  shows "jdn y m d = march_day (y + 4799) 0 + (d - 1 + (153 * (m + 9) + 2) div 5) - 32044"
proof -
  have "c_div (14 - m) 12 = 1" using assms(2) by (auto simp: c_div_def)
  moreover have "0 \<le> y + 4799" using assms by auto
  ultimately show ?thesis
    using assms(2) by (auto simp: jdn_def march_day_def c_div_nonneg Let_def add.commute [of y])
qed

lemma div_succ: "0 < k \<Longrightarrow> (n + 1) div k = n div k + (if k dvd n + 1 then 1 else 0)" for n k :: int
proof -
  assume k: "0 < k"
  show ?thesis
  proof (cases "k dvd n + 1")
    case True
    then obtain q where "n + 1 = k * q" by blast
    then have "n = k * (q - 1) + (k - 1)" by (simp add: algebra_simps)
    with k have "n div k = q - 1" by (intro int_div_pos_eq [of _ _ _ "k - 1"]) auto
    moreover have "(n + 1) div k = q" using k \<open>n + 1 = k * q\<close> by simp
    ultimately show ?thesis using True by simp
  next
    case False
    then have "(n + 1) mod k \<noteq> 0" by (simp add: dvd_eq_mod_eq_0)
    then have "n + 1 = k * ((n + 1) div k) + (n + 1) mod k" "1 \<le> (n + 1) mod k" "(n + 1) mod k < k"
      using k pos_mod_sign [OF k, of "n + 1"] pos_mod_bound [OF k, of "n + 1"] by simp_all
    then have "n div k = (n + 1) div k"
      by (intro int_div_pos_eq [of _ _ _ "(n + 1) mod k - 1"]) linarith+
    with False show ?thesis by simp
  qed
qed

lemma march_day_next_year: "march_day (yy + 1) 0 = march_day yy 0 + (if leap (yy + 1) then 366 else 365)"
proof -
  define p4 p100 p400 where "p4 = (4 dvd yy + 1)" and "p100 = (100 dvd yy + 1)" and "p400 = (400 dvd yy + 1)"
  have "100 dvd (400 :: int)" "4 dvd (100 :: int)" by simp_all
  then have imp: "p400 \<Longrightarrow> p100" "p100 \<Longrightarrow> p4" unfolding p4_def p100_def p400_def using dvd_trans by blast+
  have "(yy + 1) div 4 = yy div 4 + (if p4 then 1 else 0)" "(yy + 1) div 100 = yy div 100 + (if p100 then 1 else 0)"
    "(yy + 1) div 400 = yy div 400 + (if p400 then 1 else 0)"
    unfolding p4_def p100_def p400_def by (rule div_succ, simp)+
  note dv = this
  have "march_day (yy + 1) 0 = march_day yy 0 + 365 + (if p4 then 1 else 0) - (if p100 then 1 else 0) + (if p400 then 1 else 0)"
    unfolding march_day_def by (simp only: dv) (simp add: algebra_simps)
  moreover have "leap (yy + 1) \<longleftrightarrow> p4 \<and> (\<not> p100 \<or> p400)" unfolding leap_def p4_def p100_def p400_def ..
  ultimately show ?thesis using imp by (cases p4; cases p100; cases p400) simp_all
qed

lemma leap_shift: "leap (y + 4800) = leap y"
proof -
  have "k dvd y + 4800 \<longleftrightarrow> k dvd y" if "k dvd 4800" for k using that by (simp add: dvd_add_left_iff)
  then show ?thesis by (simp add: leap_def)
qed

lemma jdn_next_day:
  assumes "valid_ymd y m d" "- 4799 \<le> y"
  shows "case next_day (y, m, d) of (y', m', d') \<Rightarrow>
    jdn y' m' d' = jdn y m d + 1 \<and> valid_ymd y' m' d'"
proof (cases "d < days_in_month y m")
  case True
  with assms show ?thesis by (simp add: next_day_def valid_ymd_def jdn_def Let_def)
next
  case False
  with assms have d: "d = days_in_month y m" "1 \<le> m" "m \<le> 12" by (auto simp: valid_ymd_def)
  then consider "m = 2" | "m = 12" | "m = 1" | "3 \<le> m" "m \<le> 11" by linarith
  then show ?thesis
  proof cases
    case 1
    have "march_day (y + 4800) 0 = march_day (y + 4799) 0 + (if leap y then 366 else 365)"
      using march_day_next_year [of "y + 4799"] leap_shift [of y] by (simp add: add.commute)
    with 1 d(1) assms(2) show ?thesis
      by (simp add: next_day_def jdn_early jdn_late days_in_month_def valid_ymd_def)
  next
    case 2
    with d(1) assms(2) show ?thesis
      using jdn_early [of "y + 1" 1 1] by (simp add: next_day_def jdn_late days_in_month_def valid_ymd_def add.commute)
  next
    case 3
    with d(1) assms(2) show ?thesis
      by (simp add: next_day_def jdn_early days_in_month_def valid_ymd_def)
  next
    case 4
    then have "m \<in> {3, 4, 5, 6, 7, 8, 9, 10, 11}" by (simp only: insert_iff empty_iff simp_thms) arith
    then show ?thesis
      using d(1) assms(2) by (auto simp: next_day_def jdn_late days_in_month_def valid_ymd_def)
  qed
qed

text \<open>Splitting a day count into centuries, years and days: the first two steps of the inverse.\<close>

lemma div_by_bounds: "k * q \<le> x \<Longrightarrow> x < k * q + k \<Longrightarrow> x div k = q" for x k q :: int
  by (rule int_div_pos_eq [of _ _ _ "x - k * q"]) auto

lemma march_day_split:
  assumes "0 \<le> yy"
  defines "b \<equiv> yy div 100" and "r \<equiv> yy mod 100"
  shows "march_day yy doy = 36524 * b + b div 4 + (365 * r + r div 4 + doy)"
proof -
  have y: "yy = 100 * b + r" by (simp add: b_def r_def)
  then have "365 * yy = 36500 * b + 365 * r" by simp
  moreover have "yy div 4 = 25 * b + r div 4"
  proof -
    have "yy = r + 4 * (25 * b)" using y by simp
    then show ?thesis by (simp only: div_mult_self2)
  qed
  moreover have "yy div 400 = b div 4"
    unfolding b_def using zdiv_zmult2_eq [of 4 yy 100] by simp
  moreover have "yy div 100 = b" by (simp add: b_def)
  ultimately show ?thesis by (simp only: march_day_def)
qed

lemma leap_day_last:
  assumes "leap (yy + 1)"
  shows "yy mod 100 mod 4 = 3 \<and> (yy mod 100 = 99 \<longrightarrow> yy div 100 mod 4 = 3)"
proof -
  from assms have four: "4 dvd yy + 1" and hund: "100 dvd yy + 1 \<Longrightarrow> 400 dvd yy + 1" by (auto simp: leap_def)
  have "yy mod 4 = 3" using four by presburger
  moreover have "yy mod 100 mod 4 = yy mod 4" by (rule mod_mod_cancel) simp
  moreover have "yy div 100 mod 4 = 3" if "yy mod 100 = 99"
  proof -
    define q where "q = yy div 100"
    have "100 * q + 99 = yy" using mult_div_mod_eq [of 100 yy] unfolding that q_def .
    then have y: "yy + 1 = 100 * (q + 1)" by simp
    then have "100 dvd yy + 1" by (metis dvd_triv_left)
    then obtain k where "yy + 1 = 400 * k" using hund by blast
    with y have "q + 1 = 4 * k" by simp
    then have "q mod 4 = 3" by presburger
    then show ?thesis by (simp add: q_def)
  qed
  ultimately show ?thesis by simp
qed

lemma day_split:
  assumes "0 \<le> yy" "0 \<le> doy" "doy \<le> 365" "doy = 365 \<longrightarrow> leap (yy + 1)"
  defines "a \<equiv> march_day yy doy"
  defines "b \<equiv> (4 * a + 3) div 146097"
  defines "c \<equiv> a - b * 146097 div 4"
  defines "d \<equiv> (4 * c + 3) div 1461"
  shows "b = yy div 100" "0 \<le> a" "0 \<le> c" "d = yy mod 100" "c - 1461 * d div 4 = doy"
proof -
  define b0 r b4 bm r4 rm where defs: "b0 = yy div 100" "r = yy mod 100" "b4 = b0 div 4" "bm = b0 mod 4" "r4 = r div 4" "rm = r mod 4"
  have b0: "b0 = 4 * b4 + bm" "0 \<le> bm" "bm \<le> 3" "0 \<le> b0" using assms(1) by (auto simp: defs)
  have r: "r = 4 * r4 + rm" "0 \<le> rm" "rm \<le> 3" "0 \<le> r" "r \<le> 99" by (auto simp: defs)
  define c0 where "c0 = 365 * r + r4 + doy"
  have a: "a = 36524 * b0 + b4 + c0"
    using march_day_split [OF assms(1), of doy] by (simp add: a_def c0_def defs)
  have last: "doy \<noteq> 365 \<or> rm = 3 \<and> (r = 99 \<longrightarrow> bm = 3)"
    using leap_day_last [of yy] assms(4) by (auto simp: defs)
  have c0: "0 \<le> c0" using r assms(2) unfolding c0_def by linarith
  consider "r \<le> 98" | "r = 99" "doy \<le> 364" | "r = 99" "bm = 3" using r(5) assms(3) last by linarith
  then have c1: "4 * c0 + 3 - bm < 146097"
  proof cases
    case 1
    moreover have "r4 \<le> 24" using r by presburger
    ultimately show ?thesis using b0(2) assms(3) unfolding c0_def by simp
  next
    case 2
    moreover have "r4 \<le> 24" using r 2 by presburger
    ultimately show ?thesis using b0(2) assms(3) unfolding c0_def by simp
  next
    case 3
    moreover have "r4 \<le> 24" using r 3 by presburger
    ultimately show ?thesis using b0(2) assms(3) unfolding c0_def by simp
  qed
  have "4 * a + 3 = 146097 * b0 + (4 * c0 + 3 - bm)" using a b0(1) by linarith
  then have b: "b = b0" unfolding b_def using c0 c1 b0 by (intro div_by_bounds) linarith+
  then show "b = yy div 100" by (simp add: defs)
  show "0 \<le> a" using a b0 c0 by linarith
  have "b0 * 146097 div 4 = 36524 * b0 + b4" using b0 by (intro div_by_bounds) simp_all
  then have c: "c = c0" using a b by (simp add: c_def)
  then show "0 \<le> c" using c0 by simp
  have "4 * doy < 1458 + rm" using assms(3) r(2) last by linarith
  then have d: "d = r" unfolding d_def c c0_def using r assms(2) by (intro div_by_bounds) simp_all
  then show "d = yy mod 100" by (simp add: defs)
  have "1461 * r div 4 = 365 * r + r4" using r by (intro div_by_bounds) simp_all
  then show "c - 1461 * d div 4 = doy" using c d by (simp add: c0_def)
qed

text \<open>The months from March, by their lengths: the last step of the inverse.\<close>

definition month_len :: "int \<Rightarrow> int" where
  "month_len k = (if k \<in> {1, 3, 6, 8} then 30 else if k = 11 then 29 else 31)"

lemma upto_11: "0 \<le> k \<Longrightarrow> k \<le> 11 \<Longrightarrow> k \<in> {0, 1, 2, 3, 4, 5, 6, 7, 8, 9, 10, 11}" for k :: int
  by (simp only: insert_iff empty_iff simp_thms) arith

lemma month_split:
  assumes "0 \<le> k" "k \<le> 11" "0 \<le> dd" "dd < month_len k"
  shows "(5 * (dd + (153 * k + 2) div 5) + 2) div 153 = k"
proof -
  have "k \<in> {0, 1, 2, 3, 4, 5, 6, 7, 8, 9, 10, 11}" by (rule upto_11 [OF assms(1,2)])
  then have "153 * k \<le> 5 * (dd + (153 * k + 2) div 5) + 2 \<and> 5 * (dd + (153 * k + 2) div 5) + 2 < 153 * k + 153"
    using assms(3,4) by (elim insertE emptyE) (simp_all add: month_len_def)
  then show ?thesis by (intro div_by_bounds) auto
qed

lemma month_start: "0 \<le> k \<Longrightarrow> k \<le> 11 \<Longrightarrow> 0 \<le> dd \<Longrightarrow> dd < month_len k \<Longrightarrow>
    0 \<le> dd + (153 * k + 2) div 5 \<and> dd + (153 * k + 2) div 5 \<le> 365 \<and>
    (dd + (153 * k + 2) div 5 = 365 \<longrightarrow> k = 11 \<and> dd = 28)"
proof -
  assume k: "0 \<le> k" "k \<le> 11" "0 \<le> dd" "dd < month_len k"
  have "k \<in> {0, 1, 2, 3, 4, 5, 6, 7, 8, 9, 10, 11}" by (rule upto_11 [OF k(1,2)])
  then show ?thesis using k(3,4) by (elim insertE emptyE) (simp_all add: month_len_def)
qed

lemma ymd_of_march:
  assumes "0 \<le> yy" "0 \<le> k" "k \<le> 11" "0 \<le> dd" "dd < month_len k" "k = 11 \<and> dd = 28 \<Longrightarrow> leap (yy + 1)"
  shows "ymd_at (march_day yy (dd + (153 * k + 2) div 5) - 32044) =
    \<lparr>ymd_year = yy - 4800 + (if k < 10 then 0 else 1), ymd_month = (if k < 10 then k + 3 else k - 9), ymd_day = dd + 1\<rparr>"
proof -
  let ?doy = "dd + (153 * k + 2) div 5"
  note ms = month_start [OF assms(2-5)]
  have "0 \<le> ?doy" "?doy \<le> 365" "?doy = 365 \<longrightarrow> leap (yy + 1)" using ms assms(6) by blast+
  note ds = day_split [OF assms(1) this]
  let ?a = "march_day yy ?doy" and ?b = "yy div 100" and ?d = "yy mod 100"
  have nn: "0 \<le> ?b" "0 \<le> ?d" "0 \<le> ?doy" using assms(1) ms by simp_all
  have b: "c_div (4 * ?a + 3) 146097 = ?b" using ds(1,2) by (simp add: c_div_nonneg)
  have c: "c_div (?b * 146097) 4 = ?b * 146097 div 4" using nn(1) by (simp add: c_div_nonneg)
  have d0: "(4 * (?a - ?b * 146097 div 4) + 3) div 1461 = ?d" using ds(4) unfolding ds(1) .
  have d: "c_div (4 * (?a - ?b * 146097 div 4) + 3) 1461 = ?d"
  proof (subst c_div_nonneg)
    have "0 \<le> ?a - ?b * 146097 div 4" using ds(3) unfolding ds(1) .
    then show "0 \<le> 4 * (?a - ?b * 146097 div 4) + 3" by (intro add_nonneg_nonneg mult_nonneg_nonneg) simp_all
    show "(4 * (?a - ?b * 146097 div 4) + 3) div 1461 = ?d" by (rule d0)
  qed simp
  have e: "c_div (1461 * ?d) 4 = 1461 * ?d div 4" using nn(2) by (simp add: c_div_nonneg)
  have f: "?a - ?b * 146097 div 4 - 1461 * ?d div 4 = ?doy" using ds(5) unfolding ds(1) d0 .
  have g: "c_div (5 * ?doy + 2) 153 = k"
    using month_split [OF assms(2-5)] nn(3) by (subst c_div_nonneg) simp_all
  have h: "c_div (153 * k + 2) 5 = (153 * k + 2) div 5" using assms(2) by (simp add: c_div_nonneg)
  have i: "c_div k 10 = (if k < 10 then 0 else 1)"
    using assms(2,3) by (auto simp: c_div_nonneg intro!: div_by_bounds)
  have "?b * 100 + ?d = yy" by simp
  then show ?thesis
    unfolding ymd_at_def Let_def diff_add_cancel b c d e f g h i by simp
qed

lemma ymd_of_jdn:
  assumes "valid_ymd y m d" "- 4799 \<le> y"
  shows "ymd_at (jdn y m d) = \<lparr>ymd_year = y, ymd_month = m, ymd_day = d\<rparr>"
proof (cases "m \<le> 2")
  case True
  with assms have m: "m = 1 \<or> m = 2" "1 \<le> d" by (auto simp: valid_ymd_def)
  then have k: "0 \<le> m + 9" "m + 9 \<le> 11" "0 \<le> d - 1" "d - 1 < month_len (m + 9)"
    using assms(1) by (auto simp: valid_ymd_def days_in_month_def month_len_def split: if_splits)
  have "m + 9 = 11 \<and> d - 1 = 28 \<Longrightarrow> leap (y + 4799 + 1)"
    using assms(1) leap_shift [of y] by (auto simp: valid_ymd_def days_in_month_def add.commute split: if_splits)
  moreover have "jdn y m d = march_day (y + 4799) (d - 1 + (153 * (m + 9) + 2) div 5) - 32044"
    by (subst march_day_add) (simp only: jdn_early [OF assms(2) m(1)])
  ultimately show ?thesis using ymd_of_march [OF _ k, of "y + 4799"] assms(2) m(1) by auto
next
  case False
  with assms have m: "3 \<le> m" "m \<le> 12" "1 \<le> d" by (auto simp: valid_ymd_def)
  have k: "0 \<le> m - 3" "m - 3 \<le> 11" "0 \<le> d - 1" using m by auto
  have len: "d - 1 < month_len (m - 3)" "\<not> m - 3 = 11"
    using assms(1) m by (auto simp: valid_ymd_def days_in_month_def month_len_def split: if_splits)
  have "jdn y m d = march_day (y + 4800) (d - 1 + (153 * (m - 3) + 2) div 5) - 32044"
    by (subst march_day_add) (simp only: jdn_late [OF assms(2) m(1,2)])
  with ymd_of_march [OF _ k len(1), of "y + 4800"] assms(2) m(1,2) len(2) show ?thesis by auto
qed

section \<open>No overflow\<close>

lemma valid_ymd_bounds: "valid_ymd y m d \<Longrightarrow> 1 \<le> m \<and> m \<le> 12 \<and> 1 \<le> d \<and> d \<le> 31"
  by (auto simp: valid_ymd_def days_in_month_def split: if_splits)

text \<open>The days from the beginning of the year -4799 to the last whole year the formulas can do.\<close>

lemma div_bounds:
  fixes x k :: int
  assumes "0 < k"
  shows "k * (x div k) \<le> x" and "x < k * (x div k) + k"
  using assms mult_div_mod_eq [of k x] pos_mod_sign [of k x] pos_mod_bound [of k x] by linarith+

lemma getJulianDayNumber_fits:
  assumes "- 4799 \<le> y" "y \<le> 1465102" "1 \<le> m" "m \<le> 12" "1 \<le> d" "d \<le> 31"
  shows "getJulianDayNumber y m d = Inr (jdn y m d)"
proof -
  define a where "a = c_div (14 - m) 12"
  have "14 - m < 24" "0 \<le> 14 - m" using assms by auto
  then have "a = (if m \<le> 2 then 1 else 0)"
    using assms(3,4) by (auto simp: a_def c_div_nonneg intro!: div_by_bounds)
  then have a: "0 \<le> a" "a \<le> 1" "0 \<le> m + 12 * a - 3" "m + 12 * a - 3 \<le> 11"
    using assms(3,4) by auto
  define yy where "yy = y + 4800 - a"
  define mm where "mm = m + 12 * a - 3"
  have yy: "0 \<le> yy" "yy \<le> 1469902" using assms(1,2) a by (auto simp: yy_def)
  have mm: "0 \<le> mm" "mm \<le> 11" using a by (auto simp: mm_def)
  define p q r t where "p = c_div (153 * mm + 2) 5" and "q = c_div yy 4" and "r = c_div yy 100" and "t = c_div yy 400"
  have "p = (153 * mm + 2) div 5" "q = yy div 4" "r = yy div 100" "t = yy div 400"
    using yy mm by (simp_all add: p_def q_def r_def t_def c_div_nonneg)
  then have dv: "0 \<le> p" "p \<le> 338" "0 \<le> q" "q \<le> 367476" "0 \<le> r" "r \<le> 14700" "0 \<le> t" "t \<le> 3675"
    using yy mm div_bounds [of 5 "153 * mm + 2"] div_bounds [of 4 yy] div_bounds [of 100 yy] div_bounds [of 400 yy]
    by (simp_all add: pos_imp_zdiv_nonneg_iff)
  have g1: "list_all int32 [14 - m]" using assms by (simp add: int32_def)
  have g2: "list_all int32 [y + 4800, yy, 12 * a, m + 12 * a, mm]"
    using assms a(1,2) yy mm by (simp add: int32_def)
  have g3: "list_all int32 [153 * mm, 153 * mm + 2, d + p, yy * 365, d + p + yy * 365, d + p + yy * 365 + q,
      d + p + yy * 365 + q - r, d + p + yy * 365 + q - r + t, d + p + yy * 365 + q - r + t - 32045]"
    using assms(5,6) yy mm dv by (simp add: int32_def)
  show ?thesis
    unfolding getJulianDayNumber_def jdn_def Let_def a_def [symmetric] yy_def [symmetric] mm_def [symmetric]
      p_def [symmetric] q_def [symmetric] r_def [symmetric] t_def [symmetric]
    by (simp only: c_ints_fits [OF g1] c_ints_fits [OF g2] c_ints_fits [OF g3])
qed

lemma getYearMonthDay_fits:
  assumes "- 32044 \<le> j" "j \<le> 536838867"
  shows "getYearMonthDay j = Inr (ymd_at j)"
proof -
  define a where "a = j + 32044"
  have a: "0 \<le> a" "4 * a + 3 < 2 ^ 31" using assms by (simp_all add: a_def)
  define b where "b = c_div (4 * a + 3) 146097"
  have b: "b = (4 * a + 3) div 146097" using a by (simp add: b_def c_div_nonneg)
  have b': "0 \<le> b" "146097 * b \<le> 4 * a + 3" "4 * a + 3 < 146097 * b + 146097"
    unfolding b using a div_bounds [of 146097 "4 * a + 3"] by (simp_all add: pos_imp_zdiv_nonneg_iff)
  define p where "p = c_div (b * 146097) 4"
  have p: "p = b * 146097 div 4" using b' by (simp add: p_def c_div_nonneg)
  have p': "4 * p \<le> b * 146097" "b * 146097 < 4 * p + 4" unfolding p using div_bounds [of 4 "b * 146097"] by simp_all
  define c where "c = a - p"
  have c: "0 \<le> c" "4 * c < 146097" using b' p' by (simp_all add: c_def)
  define d where "d = c_div (4 * c + 3) 1461"
  have d: "d = (4 * c + 3) div 1461" using c by (simp add: d_def c_div_nonneg)
  have d': "0 \<le> d" "1461 * d \<le> 4 * c + 3" "4 * c + 3 < 1461 * d + 1461"
    unfolding d using c div_bounds [of 1461 "4 * c + 3"] by (simp_all add: pos_imp_zdiv_nonneg_iff)
  define r where "r = c_div (1461 * d) 4"
  have r: "r = 1461 * d div 4" using d' by (simp add: r_def c_div_nonneg)
  have r': "4 * r \<le> 1461 * d" "1461 * d < 4 * r + 4" unfolding r using div_bounds [of 4 "1461 * d"] by simp_all
  define e where "e = c - r"
  have e: "0 \<le> e" "4 * e < 1461" using d' r' by (simp_all add: e_def)
  define m where "m = c_div (5 * e + 2) 153"
  have m: "m = (5 * e + 2) div 153" using e by (simp add: m_def c_div_nonneg)
  have m': "0 \<le> m" "153 * m \<le> 5 * e + 2"
    unfolding m using e div_bounds [of 153 "5 * e + 2"] by (simp_all add: pos_imp_zdiv_nonneg_iff)
  define s t where "s = c_div (153 * m + 2) 5" and "t = c_div m 10"
  have st: "s = (153 * m + 2) div 5" "t = m div 10" using m' by (simp_all add: s_def t_def c_div_nonneg)
  have st': "0 \<le> s" "5 * s \<le> 153 * m + 2" "0 \<le> t" "10 * t \<le> m"
    unfolding st using m' div_bounds [of 5 "153 * m + 2"] div_bounds [of 10 m]
    by (simp_all add: pos_imp_zdiv_nonneg_iff)
  have g1: "list_all int32 [a]" using a by (simp add: int32_def)
  have g2: "list_all int32 [4 * a, 4 * a + 3]" using a by (simp add: int32_def)
  have g3: "list_all int32 [b * 146097, c]" using a b' c by (simp add: int32_def)
  have g4: "list_all int32 [4 * c, 4 * c + 3]" using c by (simp add: int32_def)
  have g5: "list_all int32 [1461 * d, e]" using c d' e by (simp add: int32_def)
  have g6: "list_all int32 [5 * e, 5 * e + 2]" using e by (simp add: int32_def)
  have g7: "list_all int32 [153 * m, 153 * m + 2, e - s, e - s + 1, m + 3, 12 * t, m + 3 - 12 * t, b * 100, b * 100 + d,
      b * 100 + d - 4800, b * 100 + d - 4800 + t]"
    using a(2) b' c d' e m' st' by (simp add: int32_def)
  show ?thesis
    unfolding getYearMonthDay_def ymd_at_def Let_def a_def [symmetric] b_def [symmetric] p_def [symmetric] c_def [symmetric]
      d_def [symmetric] r_def [symmetric] e_def [symmetric] m_def [symmetric] s_def [symmetric] t_def [symmetric]
    by (simp only: c_ints_fits [OF g1] c_ints_fits [OF g2] c_ints_fits [OF g3] c_ints_fits [OF g4] c_ints_fits [OF g5]
        c_ints_fits [OF g6] c_ints_fits [OF g7])
qed

lemma epoch_day: "kJulianDayOf1970_01_01 = 2440588"
  using getJulianDayNumber_fits [of 1970 1 1] by (simp add: kJulianDayOf1970_01_01_def jdn_def c_div_def)

lemma march_year:
  assumes "0 \<le> yy" "yy \<le> 1469901"
  shows "0 \<le> march_day yy 0 \<and> march_day yy 0 \<le> 536870317"
  using assms div_bounds [of 4 yy] div_bounds [of 100 yy] div_bounds [of 400 yy] by (simp add: march_day_def)

lemma jdn_range:
  assumes "valid_ymd y m d" "- 4799 \<le> y" "y \<le> 1465101"
  shows "- 32044 \<le> jdn y m d" and "jdn y m d < 536838867"
proof -
  note year = march_year
  have d: "1 \<le> m" "m \<le> 12" "0 \<le> d - 1" "d - 1 \<le> 30" using valid_ymd_bounds [OF assms(1)] by auto
  have month: "0 \<le> (153 * k + 2) div 5 \<and> (153 * k + 2) div 5 \<le> 337" if "0 \<le> k" "k \<le> 11" for k :: int
    using that div_bounds [of 5 "153 * k + 2"] by (simp add: pos_imp_zdiv_nonneg_iff)
  have "- 32044 \<le> jdn y m d \<and> jdn y m d < 536838867"
  proof (cases "m \<le> 2")
    case True
    then have "m = 1 \<or> m = 2" using d(1) by auto
    from jdn_early [OF assms(2) this, of d] show ?thesis
      using year [of "y + 4799"] month [of "m + 9"] d True assms(2,3) by simp
  next
    case False
    then have "3 \<le> m" by simp
    from jdn_late [OF assms(2) this d(2), of d] show ?thesis
      using year [of "y + 4800"] month [of "m - 3"] d False assms(2,3) by simp
  qed
  then show "- 32044 \<le> jdn y m d" and "jdn y m d < 536838867" by simp_all
qed

text \<open>The number grows with the year.\<close>

lemma jdn_year_range:
  assumes "- 4799 \<le> y"
  shows "- 32044 \<le> jdn y 1 1" and "y \<le> 1465102 \<Longrightarrow> jdn y 1 1 \<le> 536838942"
proof -
  have m: "1 = (1 :: int) \<or> 1 = (2 :: int)" by simp
  note j = jdn_early [OF assms m, of 1]
  have "0 \<le> march_day (y + 4799) 0"
    using assms div_bounds [of 4 "y + 4799"] div_bounds [of 100 "y + 4799"] div_bounds [of 400 "y + 4799"]
    by (simp add: march_day_def)
  then show "- 32044 \<le> jdn y 1 1" using j by simp
  show "jdn y 1 1 \<le> 536838942" if "y \<le> 1465102"
    using march_year [of "y + 4799"] assms that j by simp
qed

lemma jdn_year_bound:
  assumes "valid_ymd y m d" "- 4799 \<le> y" "jdn y m d \<le> 536838867"
  shows "y \<le> 1465102"
proof (rule ccontr)
  assume "\<not> y \<le> 1465102"
  then have y: "1465103 \<le> y" by simp
  have d: "1 \<le> m" "m \<le> 12" "0 \<le> d - 1" using valid_ymd_bounds [OF assms(1)] by auto
  have low: "536870679 + 365 * (yy - 1469902) \<le> march_day yy 0" if "1469902 \<le> yy" for yy
    using that div_bounds [of 4 yy] div_bounds [of 100 yy] div_bounds [of 400 yy] by (simp add: march_day_def)
  show False
  proof (cases "m \<le> 2")
    case True
    then have m: "m = 1 \<or> m = 2" using d(1) by auto
    then have "306 \<le> (153 * (m + 9) + 2) div 5" by auto
    with jdn_early [OF assms(2) m, of d] low [of "y + 4799"] y d(3) assms(3) show False by simp
  next
    case False
    then have m: "3 \<le> m" by simp
    then have "0 \<le> (153 * (m - 3) + 2) div 5" by (simp add: pos_imp_zdiv_nonneg_iff)
    with jdn_late [OF assms(2) m d(2), of d] low [of "y + 4800"] y d(3) assms(3) show False by simp
  qed
qed

lemma weekDay_fits: "- 1 \<le> jd \<Longrightarrow> jd + 1 < 2 ^ 31 \<Longrightarrow> weekDay jd = Inr ((jd + 1) mod 7)"
  by (simp add: weekDay_def c_ints_def int32_def kDaysPerWeek_def c_mod_nonneg)

lemma getYearMonthDay_overflows: "536838867 < k \<Longrightarrow> getYearMonthDay k = Inl SignedOverflow"
  by (auto simp: getYearMonthDay_def c_ints_def int32_def Let_def)

section \<open>Properties\<close>

text \<open>
  Property C31. Day numbers count the days of the Gregorian calendar, without an overflow, from the
  year -4799 to the year 1465101, the last whole one for which the code's \<open>int\<close> arithmetic fits:
  the number of the day after a valid date is the number of the date plus one, across month ends,
  leap days and centuries; the number of 1970-01-01, a Thursday, is 2440588; \<open>getYearMonthDay\<close>
  recovers the date from its number, so different dates have different numbers; and the weekday of a
  positive number lies in 0 to 6 and goes round. From the number 536838868 on \<open>getYearMonthDay\<close>
  overflows.
\<close>

theorem date_calendar:
  assumes "valid_ymd y m d" "- 4799 \<le> y" "y \<le> 1465101"
  shows "\<exists>j. getJulianDayNumber y m d = Inr j \<and>
    getYearMonthDay j = Inr \<lparr>ymd_year = y, ymd_month = m, ymd_day = d\<rparr> \<and>
    (case next_day (y, m, d) of (y', m', d') \<Rightarrow> valid_ymd y' m' d' \<and> getJulianDayNumber y' m' d' = Inr (j + 1)) \<and>
    (Date_valid j \<longrightarrow> (\<exists>w. weekDay j = Inr w \<and> 0 \<le> w \<and> w < 7 \<and> weekDay (j + 1) = Inr ((w + 1) mod 7))) \<and>
    kJulianDayOf1970_01_01 = 2440588 \<and> weekDay kJulianDayOf1970_01_01 = Inr 4 \<and>
    (\<forall>k. 536838867 < k \<and> k < 2 ^ 31 \<longrightarrow> getYearMonthDay k = Inl SignedOverflow)"
proof -
  define j where "j = jdn y m d"
  note range = jdn_range [OF assms, folded j_def]
  have md: "1 \<le> m" "m \<le> 12" "1 \<le> d" "d \<le> 31" using assms(1) valid_ymd_bounds by auto
  have "getJulianDayNumber y m d = Inr j" using assms(2,3) md by (simp add: getJulianDayNumber_fits j_def)
  moreover have "getYearMonthDay j = Inr \<lparr>ymd_year = y, ymd_month = m, ymd_day = d\<rparr>"
    using range ymd_of_jdn [OF assms(1,2)] by (simp add: getYearMonthDay_fits j_def)
  moreover have "case next_day (y, m, d) of (y', m', d') \<Rightarrow>
      valid_ymd y' m' d' \<and> getJulianDayNumber y' m' d' = Inr (j + 1)"
  proof -
    obtain y' m' d' where n: "next_day (y, m, d) = (y', m', d')" by (metis prod_cases3)
    with jdn_next_day [OF assms(1,2)] have v: "valid_ymd y' m' d'" "jdn y' m' d' = j + 1" by (simp_all add: j_def)
    moreover have "- 4799 \<le> y'" "y' \<le> 1465102" using n assms(2,3) by (auto simp: next_day_def split: if_splits)
    ultimately show ?thesis using n valid_ymd_bounds [OF v(1)] by (simp add: getJulianDayNumber_fits)
  qed
  moreover have "\<exists>w. weekDay j = Inr w \<and> 0 \<le> w \<and> w < 7 \<and> weekDay (j + 1) = Inr ((w + 1) mod 7)" if "Date_valid j"
  proof -
    have "weekDay j = Inr ((j + 1) mod 7)" "weekDay (j + 1) = Inr ((j + 1 + 1) mod 7)"
      using that range by (simp_all add: weekDay_fits Date_valid_def)
    moreover have "(j + 1 + 1) mod 7 = ((j + 1) mod 7 + 1) mod 7" by (simp only: mod_add_left_eq)
    ultimately show ?thesis by (intro exI [of _ "(j + 1) mod 7"]) simp
  qed
  moreover have "weekDay kJulianDayOf1970_01_01 = Inr 4" by (simp add: epoch_day weekDay_fits)
  ultimately show ?thesis
    using epoch_day getYearMonthDay_overflows by (intro exI [of _ j] conjI) (assumption | simp)+
qed

theorem date_calendar_witness:
  "\<exists>j. getJulianDayNumber 2000 2 29 = Inr j \<and> getYearMonthDay j = Inr \<lparr>ymd_year = 2000, ymd_month = 2, ymd_day = 29\<rparr> \<and>
     getJulianDayNumber 2000 3 1 = Inr (j + 1)"
proof -
  have "valid_ymd 2000 2 29" "next_day (2000, 2, 29) = (2000, 3, 1)"
    by (simp_all add: valid_ymd_def days_in_month_def leap_def next_day_def)
  with date_calendar [of 2000 2 29] show ?thesis by auto
qed

end
