(* ===== verification/NW_TimeZone.thy ===== *)
theory NW_TimeZone
  imports NW_Date NW_Buffer
begin

text \<open>
  \<^verbatim>\<open>networker/base/TimeZone.h\<close> and \<^verbatim>\<open>networker/base/TimeZone.cpp\<close>: broken-down time in UTC and in a
  zone, and the reader of zone files.

  \<open>time_t\<close> is an unbounded integer; the conversions of \<open>time_t\<close> to \<open>int\<close> are written out (\<open>cast32\<close>),
  and the \<open>int\<close> arithmetic of the UTC conversions is checked (\<open>c_ints\<close>). A zone file
  is its bytes, \<open>None\<close> if it cannot be opened; a read past its end is the exception of the code, an
  index out of a vector is undefined behaviour. \<open>gmtime_r\<close> and \<open>timegm\<close> of the C library are
  arguments. \<open>std::lower_bound\<close> on a range that is sorted by the key is the length of the prefix of
  smaller keys.
\<close>

section \<open>Broken-down time\<close>

definition cast32 :: "int \<Rightarrow> int" where
  "cast32 i = (i + 2 ^ 31) mod 2 ^ 32 - 2 ^ 31"

record tm =
  tm_sec :: int
  tm_min :: int
  tm_hour :: int
  tm_mday :: int
  tm_mon :: int
  tm_year :: int
  tm_wday :: int
  tm_yday :: int
  tm_isdst :: bool
  tm_gmtoff :: int
  tm_zone :: "byte list"

definition tm_zero :: tm where
  "tm_zero = \<lparr>tm_sec = 0, tm_min = 0, tm_hour = 0, tm_mday = 0, tm_mon = 0, tm_year = 0, tm_wday = 0,
     tm_yday = 0, tm_isdst = False, tm_gmtoff = 0, tm_zone = []\<rparr>"

definition fillHMS :: "int \<Rightarrow> tm \<Rightarrow> tm" where
  "fillHMS seconds utc =
     (let minutes = seconds div 60
      in utc\<lparr>tm_sec := seconds mod 60, tm_min := minutes mod 60, tm_hour := minutes div 60\<rparr>)"

definition kSecondsPerDay :: int where "kSecondsPerDay = 24 * 60 * 60"

definition toUtcTime :: "int \<Rightarrow> bool \<Rightarrow> tm result" where
  "toUtcTime secondsSinceEpoch yday =
     (let utc = tm_zero\<lparr>tm_zone := [71, 77, 84]\<rparr>;
          seconds0 = cast32 (c_mod secondsSinceEpoch kSecondsPerDay);
          days0 = cast32 (c_div secondsSinceEpoch kSecondsPerDay);
          (seconds, days) = (if seconds0 < 0 then (seconds0 + kSecondsPerDay, days0 - 1) else (seconds0, days0));
          utc = fillHMS seconds utc;
          date = days + kJulianDayOf1970_01_01
      in c_ints [seconds, days, date] (
         rbind (getYearMonthDay date) (\<lambda>ymd.
         c_ints [ymd_year ymd - 1900, ymd_month ymd - 1] (
         rbind (weekDay date) (\<lambda>wday.
         let utc = utc\<lparr>tm_year := ymd_year ymd - 1900, tm_mon := ymd_month ymd - 1, tm_mday := ymd_day ymd,
                       tm_wday := wday\<rparr>
         in if yday
            then rbind (getJulianDayNumber (ymd_year ymd) 1 1) (\<lambda>startOfYear.
                   c_ints [date - startOfYear] (Inr (utc\<lparr>tm_yday := date - startOfYear\<rparr>)))
            else Inr utc)))))"

definition fromUtcTime :: "int \<Rightarrow> int \<Rightarrow> int \<Rightarrow> int \<Rightarrow> int \<Rightarrow> int \<Rightarrow> int result" where
  "fromUtcTime year month day hour minute seconds =
     rbind (getJulianDayNumber year month day) (\<lambda>date.
     c_ints [hour * 3600, minute * 50, hour * 3600 + minute * 50, hour * 3600 + minute * 50 + seconds,
             date - kJulianDayOf1970_01_01] (
       let secondsInDay = hour * 3600 + minute * 50 + seconds;
           days = date - kJulianDayOf1970_01_01
       in Inr (days * kSecondsPerDay + secondsInDay)))"

definition fromUtcTime_tm :: "tm \<Rightarrow> int result" where
  "fromUtcTime_tm utc =
     c_ints [tm_year utc + 1900, tm_mon utc + 1]
       (fromUtcTime (tm_year utc + 1900) (tm_mon utc + 1) (tm_mday utc) (tm_hour utc) (tm_min utc) (tm_sec utc))"

text \<open>The broken-down time of a second, in unbounded integers; it also serves as a \<open>gmtime_r\<close>.\<close>

definition utc_tm :: "int \<Rightarrow> tm" where
  "utc_tm t =
     (let date = t div 86400 + 2440588; ymd = ymd_at date
      in (fillHMS (t mod 86400) (tm_zero\<lparr>tm_zone := [71, 77, 84]\<rparr>))
           \<lparr>tm_year := ymd_year ymd - 1900, tm_mon := ymd_month ymd - 1, tm_mday := ymd_day ymd,
            tm_wday := (date + 1) mod 7, tm_yday := date - jdn (ymd_year ymd) 1 1\<rparr>)"

section \<open>Zones\<close>

record Transition =
  gmttime :: int
  localtime :: int
  localtimeIdx :: int

record Localtime =
  gmtOffset :: int
  isDst :: bool
  arrbIdx :: int

record tz_data =
  transitions :: "Transition list"
  localtimes :: "Localtime list"
  abbrev :: "byte list"

text \<open>\<open>Comp\<close>: the key two transitions are compared by.\<close>

definition comp_key :: "bool \<Rightarrow> Transition \<Rightarrow> int" where
  "comp_key compareGmt t = (if compareGmt then gmttime t else localtime t)"

definition comp_less :: "bool \<Rightarrow> Transition \<Rightarrow> Transition \<Rightarrow> bool" where
  "comp_less compareGmt lhs rhs \<longleftrightarrow> comp_key compareGmt lhs < comp_key compareGmt rhs"

definition comp_equal :: "bool \<Rightarrow> Transition \<Rightarrow> Transition \<Rightarrow> bool" where
  "comp_equal compareGmt lhs rhs \<longleftrightarrow> comp_key compareGmt lhs = comp_key compareGmt rhs"

definition vec_at :: "'a list \<Rightarrow> int \<Rightarrow> 'a result" where
  "vec_at xs i = (if 0 \<le> i \<and> i < int (length xs) then Inr (xs ! nat i) else Inl OutOfBounds)"

definition lower_bound :: "bool \<Rightarrow> Transition list \<Rightarrow> Transition \<Rightarrow> nat" where
  "lower_bound g ts sentry = length (takeWhile (\<lambda>t. comp_less g t sentry) ts)"

definition findLocaltime :: "tz_data \<Rightarrow> Transition \<Rightarrow> bool \<Rightarrow> Localtime result" where
  "findLocaltime data sentry g =
     (if transitions data = [] \<or> comp_less g sentry (hd (transitions data))
      then vec_at (localtimes data) 0
      else
        let i = lower_bound g (transitions data) sentry in
        if i \<noteq> length (transitions data)
        then (if \<not> comp_equal g sentry (transitions data ! i)
              then c_assert (i \<noteq> 0) (vec_at (localtimes data) (localtimeIdx (transitions data ! (i - 1))))
              else vec_at (localtimes data) (localtimeIdx (transitions data ! i)))
        else vec_at (localtimes data) (localtimeIdx (last (transitions data))))"

definition TimeZone_fixed :: "int \<Rightarrow> byte list \<Rightarrow> tz_data" where
  "TimeZone_fixed eastOfUtc nm = \<lparr>transitions = [],
     localtimes = [\<lparr>gmtOffset = eastOfUtc, isDst = False, arrbIdx = 0\<rparr>], abbrev = nm\<rparr>"

text \<open>\<open>&data.abbreviation[i]\<close>: the text from there to its NUL; \<open>operator[]\<close> reaches the end at most.\<close>

definition abbrev_at :: "byte list \<Rightarrow> int \<Rightarrow> byte list result" where
  "abbrev_at ab i = (if 0 \<le> i \<and> i \<le> int (length ab) then Inr (takeWhile (\<lambda>c. c \<noteq> 0) (drop (nat i) ab)) else Inl OutOfBounds)"

definition toLocalTime :: "(int \<Rightarrow> tm) \<Rightarrow> tz_data option \<Rightarrow> int \<Rightarrow> tm result" where
  "toLocalTime gmtime zone seconds =
     c_assert (zone \<noteq> None) (
       let data = the zone in
       rbind (findLocaltime data \<lparr>gmttime = seconds, localtime = 0, localtimeIdx = 0\<rparr> True) (\<lambda>local.
         rbind (abbrev_at (abbrev data) (arrbIdx local)) (\<lambda>zn.
           Inr ((gmtime (seconds + gmtOffset local))\<lparr>tm_isdst := isDst local, tm_gmtoff := gmtOffset local, tm_zone := zn\<rparr>))))"

definition fromLocalTime :: "(int \<Rightarrow> tm) \<Rightarrow> (tm \<Rightarrow> int) \<Rightarrow> tz_data option \<Rightarrow> tm \<Rightarrow> int result" where
  "fromLocalTime gmtime timegm zone localTm =
     c_assert (zone \<noteq> None) (
       let data = the zone; seconds = timegm localTm in
       rbind (findLocaltime data \<lparr>gmttime = 0, localtime = seconds, localtimeIdx = 0\<rparr> False) (\<lambda>local.
         if tm_isdst localTm
         then rbind (toLocalTime gmtime zone (seconds - gmtOffset local)) (\<lambda>tryTm.
                Inr ((if \<not> tm_isdst tryTm \<and> tm_hour tryTm = tm_hour localTm \<and> tm_min tryTm = tm_min localTm
                      then seconds - 3600 else seconds) - gmtOffset local))
         else Inr (seconds - gmtOffset local)))"

section \<open>Zone files\<close>

definition readBytes :: "int \<Rightarrow> byte list \<Rightarrow> (byte list \<times> byte list) result" where
  "readBytes n bs =
     (if n < 0 then Inl OutOfBounds
      else if int (length bs) < n then Inl (LogicError ''no enough data'')
      else Inr (take (nat n) bs, drop (nat n) bs))"

definition readInt32_be :: "byte list \<Rightarrow> (int \<times> byte list) result" where
  "readInt32_be bs =
     (if length bs < 4 then Inl (LogicError ''bad int32_t data'')
      else Inr (sint (networkToHost32 (of_le_bytes (take 4 bs))), drop 4 bs))"

definition readUInt8 :: "byte list \<Rightarrow> (int \<times> byte list) result" where
  "readUInt8 bs = (case bs of [] \<Rightarrow> Inl (LogicError ''bad uint8_t data'') | b # bs' \<Rightarrow> Inr (uint b, bs'))"

fun read_many :: "(byte list \<Rightarrow> ('a \<times> byte list) result) \<Rightarrow> nat \<Rightarrow> byte list \<Rightarrow> ('a list \<times> byte list) result" where
  "read_many f 0 bs = Inr ([], bs)"
| "read_many f (Suc n) bs = rbind (f bs) (\<lambda>(x, bs1). rbind (read_many f n bs1) (\<lambda>(xs, bs2). Inr (x # xs, bs2)))"

definition readType :: "byte list \<Rightarrow> (Localtime \<times> byte list) result" where
  "readType bs =
     rbind (readInt32_be bs) (\<lambda>(gmtoff, bs1). rbind (readUInt8 bs1) (\<lambda>(isdst, bs2).
       rbind (readUInt8 bs2) (\<lambda>(abbrind, bs3).
         Inr (\<lparr>gmtOffset = gmtoff, isDst = isdst \<noteq> 0, arrbIdx = abbrind\<rparr>, bs3))))"

text \<open>The loop that fills \<open>data->localtimes\<close>: what was pushed before an exception stays there.\<close>

fun push_types :: "nat \<Rightarrow> byte list \<Rightarrow> tz_data \<Rightarrow> tz_data \<times> byte list result" where
  "push_types 0 bs data = (data, Inr bs)"
| "push_types (Suc n) bs data =
     (case readType bs of Inl e \<Rightarrow> (data, Inl e)
      | Inr (lt, bs1) \<Rightarrow> push_types n bs1 (data\<lparr>localtimes := localtimes data @ [lt]\<rparr>))"

fun push_transitions :: "(int \<times> int) list \<Rightarrow> tz_data \<Rightarrow> tz_data result" where
  "push_transitions [] data = Inr data"
| "push_transitions ((t, localIdx) # ts) data =
     rbind (vec_at (localtimes data) localIdx) (\<lambda>lt.
       push_transitions ts (data\<lparr>transitions := transitions data @
         [\<lparr>gmttime = t, localtime = t + gmtOffset lt, localtimeIdx = localIdx\<rparr>]\<rparr>))"

definition tz_magic :: "byte list" where "tz_magic = [84, 90, 105, 102]"

text \<open>The six counts of the header: leap seconds, times, types and characters are used.\<close>

definition readHeader :: "byte list \<Rightarrow> ((int \<times> int \<times> int) \<times> byte list) result" where
  "readHeader bs =
     rbind (readBytes 4 bs) (\<lambda>(head, bs). if head \<noteq> tz_magic then Inl (LogicError ''bad head'') else
     rbind (readBytes 1 bs) (\<lambda>(version, bs). rbind (readBytes 15 bs) (\<lambda>(_, bs).
     rbind (readInt32_be bs) (\<lambda>(isgmtcnt, bs). rbind (readInt32_be bs) (\<lambda>(isstdcnt, bs).
     rbind (readInt32_be bs) (\<lambda>(leapcnt, bs). rbind (readInt32_be bs) (\<lambda>(timecnt, bs).
     rbind (readInt32_be bs) (\<lambda>(typecnt, bs). rbind (readInt32_be bs) (\<lambda>(charcnt, bs).
       Inr ((timecnt, typecnt, charcnt), bs))))))))))"

text \<open>\<open>trans.reserve(timecnt)\<close> throws \<open>length_error\<close>, a \<open>logic_error\<close>, for a negative count.\<close>

definition readTimes :: "int \<Rightarrow> byte list \<Rightarrow> ((int \<times> int) list \<times> byte list) result" where
  "readTimes timecnt bs =
     (if timecnt < 0 then Inl (LogicError ''vector::reserve'') else
      rbind (read_many readInt32_be (nat timecnt) bs) (\<lambda>(trans, bs).
      rbind (read_many readUInt8 (nat timecnt) bs) (\<lambda>(idx, bs). Inr (zip trans idx, bs))))"

text \<open>The body of the \<open>try\<close> block: the data as far as it was filled, and the exception if any.\<close>

definition tz_try :: "byte list \<Rightarrow> tz_data \<Rightarrow> tz_data result \<times> error option" where
  "tz_try bs data =
     (case rbind (readHeader bs) (\<lambda>((timecnt, typecnt, charcnt), bs).
             rbind (readTimes timecnt bs) (\<lambda>(tms, bs). Inr (tms, typecnt, charcnt, bs))) of
        Inl e \<Rightarrow> (Inr data, Some e)
      | Inr (tms, typecnt, charcnt, bs) \<Rightarrow>
          (case push_types (nat typecnt) bs data of
             (data1, Inl e) \<Rightarrow> (Inr data1, Some e)
           | (data1, Inr bs1) \<Rightarrow>
               (case push_transitions tms data1 of
                  Inl e \<Rightarrow> (Inl e, None)
                | Inr data2 \<Rightarrow>
                    (case readBytes charcnt bs1 of
                       Inl e \<Rightarrow> (Inr data2, Some e)
                     | Inr (ab, _) \<Rightarrow> (Inr (data2\<lparr>abbrev := ab\<rparr>), None)))))"

text \<open>\<open>logic_error\<close> is caught; anything else (undefined behaviour here) is not.\<close>

definition is_logic_error :: "error \<Rightarrow> bool" where
  "is_logic_error e \<longleftrightarrow> (case e of LogicError _ \<Rightarrow> True | _ \<Rightarrow> False)"

definition readTimeZoneFile :: "byte list option \<Rightarrow> tz_data \<Rightarrow> (bool \<times> tz_data) result" where
  "readTimeZoneFile zonefile data =
     (case zonefile of None \<Rightarrow> Inr (True, data)
      | Some bs \<Rightarrow>
          (case tz_try bs data of
             (Inl e, _) \<Rightarrow> Inl e
           | (Inr data', None) \<Rightarrow> Inr (True, data')
           | (Inr data', Some e) \<Rightarrow> if is_logic_error e then Inr (True, data') else Inl e))"

definition tz_data_empty :: tz_data where
  "tz_data_empty = \<lparr>transitions = [], localtimes = [], abbrev = []\<rparr>"

definition TimeZone_file :: "byte list option \<Rightarrow> tz_data option result" where
  "TimeZone_file zonefile =
     rbind (readTimeZoneFile zonefile tz_data_empty) (\<lambda>(ok, data). Inr (if ok then Some data else None))"

section \<open>UTC\<close>

lemma jdn_first: "jdn (- 4799) 1 1 = - 31738"
  by (simp add: jdn_def c_div_def)

lemma jdn_surj:
  assumes "- 31738 \<le> j"
  shows "\<exists>y m d. valid_ymd y m d \<and> - 4799 \<le> y \<and> jdn y m d = j"
  using assms
proof (induction j rule: int_ge_induct)
  case base
  have "valid_ymd (- 4799) 1 1" by (simp add: valid_ymd_def days_in_month_def)
  with jdn_first show ?case by (intro exI [of _ "- 4799"] exI [of _ 1]) simp
next
  case (step j)
  then obtain y m d where ymd: "valid_ymd y m d" "- 4799 \<le> y" "jdn y m d = j" by blast
  obtain y' m' d' where n: "next_day (y, m, d) = (y', m', d')" by (metis prod_cases3)
  then have "y \<le> y'" by (auto simp: next_day_def split: if_splits)
  with jdn_next_day [OF ymd(1,2)] n ymd show ?case by (intro exI [of _ y'] exI [of _ m'] exI [of _ d']) simp
qed

lemma jdn_of_ymd:
  assumes "- 31738 \<le> j"
  shows "jdn (ymd_year (ymd_at j)) (ymd_month (ymd_at j)) (ymd_day (ymd_at j)) = j"
    and "valid_ymd (ymd_year (ymd_at j)) (ymd_month (ymd_at j)) (ymd_day (ymd_at j))"
  using jdn_surj [OF assms] ymd_of_jdn by force+

lemma cast32_id: "- (2 ^ 31) \<le> i \<Longrightarrow> i < 2 ^ 31 \<Longrightarrow> cast32 i = i"
  by (simp add: cast32_def)

text \<open>The correction for negative remainders yields the floor division.\<close>

lemma day_and_second:
  assumes "- (2 ^ 37) \<le> t" "t < 2 ^ 45"
  defines "s0 \<equiv> cast32 (c_mod t kSecondsPerDay)" and "d0 \<equiv> cast32 (c_div t kSecondsPerDay)"
  shows "(if s0 < 0 then (s0 + kSecondsPerDay, d0 - 1) else (s0, d0)) = (t mod 86400, t div 86400)"
proof -
  have spd: "kSecondsPerDay = 86400" by (simp add: kSecondsPerDay_def)
  show ?thesis
  proof (cases "0 \<le> t")
    case True
    have "t mod 86400 < 86400" "0 \<le> t mod 86400" "0 \<le> t div 86400" using True by simp_all
    moreover have "t div 86400 < 2 ^ 31" using assms(2) by (simp add: div_less_iff_less_mult)
    ultimately show ?thesis
      using True by (simp add: s0_def d0_def spd c_mod_nonneg c_div_nonneg cast32_id)
  next
    case False
    define q r where "q = (- t) div 86400" and "r = (- t) mod 86400"
    have t: "- t = 86400 * q + r" "0 \<le> r" "r < 86400" by (simp_all add: q_def r_def)
    have q: "0 \<le> q" "q < 2 ^ 31" using t assms(1) False by simp_all
    have s0: "s0 = - r" "d0 = - q"
      using False t(2,3) q by (simp_all add: s0_def d0_def spd c_mod_neg c_div_neg cast32_id q_def [symmetric] r_def [symmetric])
    show ?thesis
    proof (cases "r = 0")
      case True
      then have "t = 86400 * (- q)" using t(1) by simp
      then have "t div 86400 = - q" "t mod 86400 = 0" by (simp_all add: div_by_bounds)
      with True s0 show ?thesis by simp
    next
      case neq: False
      with t(2) have "0 < r" by simp
      then have d: "t div 86400 = - q - 1" using t by (intro div_by_bounds) simp_all
      then have "t mod 86400 = 86400 - r" using t(1) mult_div_mod_eq [of 86400 t] by simp
      with d s0 \<open>0 < r\<close> show ?thesis by (simp add: spd)
    qed
  qed
qed

lemma utc_tm_fields:
  assumes "- (2 ^ 37) \<le> t" "t < 2 ^ 45"
  defines "u \<equiv> utc_tm t"
  defines "jd \<equiv> jdn (tm_year u + 1900) (tm_mon u + 1) (tm_mday u)"
  shows "0 \<le> tm_sec u \<and> tm_sec u < 60 \<and> 0 \<le> tm_min u \<and> tm_min u < 60 \<and> 0 \<le> tm_hour u \<and> tm_hour u < 24 \<and>
    valid_ymd (tm_year u + 1900) (tm_mon u + 1) (tm_mday u) \<and>
    t = (jd - 2440588) * 86400 + tm_hour u * 3600 + tm_min u * 60 + tm_sec u \<and>
    tm_wday u = (jd + 1) mod 7 \<and> tm_yday u = jd - jdn (tm_year u + 1900) 1 1"
proof -
  define s days where "s = t mod 86400" and "days = t div 86400"
  have t: "t = days * 86400 + s" "0 \<le> s" "s < 86400" by (simp_all add: s_def days_def)
  let ?j = "days + 2440588" and ?ymd = "ymd_at (days + 2440588)"
  have j': "- 31738 \<le> ?j" using assms(1) t by simp
  have u: "tm_sec u = s mod 60" "tm_min u = s div 60 mod 60" "tm_hour u = s div 60 div 60"
    "tm_year u + 1900 = ymd_year ?ymd" "tm_mon u + 1 = ymd_month ?ymd" "tm_mday u = ymd_day ?ymd"
    "tm_wday u = (?j + 1) mod 7" "tm_yday u = ?j - jdn (ymd_year ?ymd) 1 1"
    by (simp_all add: u_def utc_tm_def fillHMS_def Let_def s_def days_def)
  have jd: "jd = ?j" unfolding jd_def u(4-6) by (rule jdn_of_ymd(1) [OF j'])
  define q where "q = s div 60"
  have "60 * q + s mod 60 = s" "60 * (q div 60) + q mod 60 = q"
    unfolding q_def by (rule mult_div_mod_eq)+
  then have "s = q div 60 * 3600 + q mod 60 * 60 + s mod 60" by linarith
  then have split: "s = tm_hour u * 3600 + tm_min u * 60 + tm_sec u" by (simp only: u q_def)
  have "s div 60 div 60 < 24" using t(3) by (simp add: div_less_iff_less_mult)
  then have range: "0 \<le> tm_sec u" "tm_sec u < 60" "0 \<le> tm_min u" "tm_min u < 60" "0 \<le> tm_hour u" "tm_hour u < 24"
    unfolding u using t(2) by (simp_all add: div_int_pos_iff)
  show ?thesis
    using range jdn_of_ymd(2) [OF j'] split t(1) unfolding jd u(4-8) by simp
qed

text \<open>On these times nothing overflows: \<open>toUtcTime\<close> returns that value.\<close>

lemma utc_tm_date:
  assumes "- (2 ^ 37) \<le> t" "t < 2 ^ 45"
  shows "0 \<le> t div 86400 + 2440588" "t div 86400 + 2440588 \<le> 409670000"
    and "- 4799 \<le> ymd_year (ymd_at (t div 86400 + 2440588))" "ymd_year (ymd_at (t div 86400 + 2440588)) \<le> 1465102"
proof -
  let ?j = "t div 86400 + 2440588"
  show j: "0 \<le> ?j" "?j \<le> 409670000" using assms div_bounds [of 86400 t] by simp_all
  from jdn_surj [of ?j] j obtain y m d where ymd: "valid_ymd y m d" "- 4799 \<le> y" "jdn y m d = ?j" by auto
  then have y: "ymd_year (ymd_at ?j) = y" using ymd_of_jdn [OF ymd(1,2)] by simp
  with ymd show "- 4799 \<le> ymd_year (ymd_at ?j)" by simp
  show "ymd_year (ymd_at ?j) \<le> 1465102"
    using jdn_year_bound [OF ymd(1,2)] ymd(3) j(2) unfolding y by simp
qed

lemma toUtcTime_fits:
  assumes "- (2 ^ 37) \<le> t" "t < 2 ^ 45"
  shows "toUtcTime t True = Inr (utc_tm t)"
proof -
  let ?j = "t div 86400 + 2440588" and ?d = "t div 86400"
  define s where "s = t mod 86400"
  define ymd where "ymd = ymd_at ?j"
  note date = utc_tm_date [OF assms, folded ymd_def]
  have valid: "valid_ymd (ymd_year ymd) (ymd_month ymd) (ymd_day ymd)"
    unfolding ymd_def by (rule jdn_of_ymd(2)) (use date in simp)
  note md = valid_ymd_bounds [OF valid]
  have g: "getYearMonthDay ?j = Inr ymd" "getJulianDayNumber (ymd_year ymd) 1 1 = Inr (jdn (ymd_year ymd) 1 1)"
    "weekDay ?j = Inr ((?j + 1) mod 7)"
    using date by (simp_all add: getYearMonthDay_fits ymd_def getJulianDayNumber_fits weekDay_fits)
  have first: "valid_ymd (ymd_year ymd) 1 1" by (simp add: valid_ymd_def days_in_month_def)
  have "0 \<le> s" "s < 86400" by (simp_all add: s_def)
  then have "list_all int32 [s, ?d, ?j]" using date(1,2) by (simp add: int32_def)
  note g1 = c_ints_fits [OF this]
  have "list_all int32 [ymd_year ymd - 1900, ymd_month ymd - 1]" using date(3,4) md by (simp add: int32_def)
  note g2 = c_ints_fits [OF this]
  have "- 32044 \<le> jdn (ymd_year ymd) 1 1" "jdn (ymd_year ymd) 1 1 \<le> 536838942"
    using jdn_year_range [OF date(3)] date(4) by simp_all
  then have "list_all int32 [?j - jdn (ymd_year ymd) 1 1]" using date(1,2) by (simp add: int32_def)
  note g3 = c_ints_fits [OF this]
  show ?thesis
    unfolding toUtcTime_def Let_def day_and_second [OF assms] s_def [symmetric] prod.case epoch_day g1 g rbind_Inr g2 if_True g3
    by (simp add: utc_tm_def ymd_def s_def Let_def)
qed

lemma fromUtcTime_utc:
  assumes "- (2 ^ 37) \<le> t" "t < 2 ^ 45"
  shows "fromUtcTime_tm (utc_tm t) = Inr (t - 10 * tm_min (utc_tm t))"
proof -
  define u where "u = utc_tm t"
  define j where "j = jdn (tm_year u + 1900) (tm_mon u + 1) (tm_mday u)"
  note f = utc_tm_fields [OF assms, folded u_def, folded j_def]
  have year: "- 4799 \<le> tm_year u + 1900" "tm_year u + 1900 \<le> 1465102"
    using utc_tm_date(3,4) [OF assms] by (simp_all add: u_def utc_tm_def Let_def)
  have md: "1 \<le> tm_mon u + 1" "tm_mon u + 1 \<le> 12" "1 \<le> tm_mday u" "tm_mday u \<le> 31"
    using f valid_ymd_bounds by blast+
  have "list_all int32 [tm_year u + 1900, tm_mon u + 1]" using year md by (simp add: int32_def)
  note g1 = c_ints_fits [OF this]
  have "j - 2440588 = t div 86400" using f by (intro div_by_bounds [symmetric]) simp_all
  then have "- 2440588 \<le> j - 2440588" "j - 2440588 \<le> 409670000" using utc_tm_date(1,2) [OF assms] by simp_all
  then have "list_all int32 [tm_hour u * 3600, tm_min u * 50, tm_hour u * 3600 + tm_min u * 50,
      tm_hour u * 3600 + tm_min u * 50 + tm_sec u, j - 2440588]" using f by (simp add: int32_def)
  note g2 = c_ints_fits [OF this]
  have "getJulianDayNumber (tm_year u + 1900) (tm_mon u + 1) (tm_mday u) = Inr j"
    unfolding j_def by (rule getJulianDayNumber_fits [OF year md])
  then show ?thesis
    using f unfolding u_def [symmetric] fromUtcTime_tm_def fromUtcTime_def g1 Let_def epoch_day kSecondsPerDay_def
    by (simp only: rbind_Inr g2) simp
qed

text \<open>
  Property C32. \<open>toUtcTime\<close> is right for every time between 2300 BC and the year one million: no \<open>int\<close>
  overflows, the fields are in range, the date is valid in the calendar, and together they denote
  the given second; the weekday and the day of the year fit the date. \<open>fromUtcTime\<close> does not
  invert it: it counts 50 seconds to a minute, so it returns 10 seconds too little for every minute
  of the time.
\<close>

theorem utc_time:
  assumes "- (2 ^ 37) \<le> t" "t < 2 ^ 45"
  shows "\<exists>u jd jd1. toUtcTime t True = Inr u \<and>
    getJulianDayNumber (tm_year u + 1900) (tm_mon u + 1) (tm_mday u) = Inr jd \<and>
    getJulianDayNumber (tm_year u + 1900) 1 1 = Inr jd1 \<and>
    0 \<le> tm_sec u \<and> tm_sec u < 60 \<and> 0 \<le> tm_min u \<and> tm_min u < 60 \<and> 0 \<le> tm_hour u \<and> tm_hour u < 24 \<and>
    valid_ymd (tm_year u + 1900) (tm_mon u + 1) (tm_mday u) \<and>
    t = (jd - 2440588) * 86400 + tm_hour u * 3600 + tm_min u * 60 + tm_sec u \<and>
    tm_wday u = (jd + 1) mod 7 \<and> tm_yday u = jd - jd1 \<and>
    fromUtcTime_tm u = Inr (t - 10 * tm_min u)"
proof -
  let ?u = "utc_tm t"
  note f = utc_tm_fields [OF assms]
  have year: "- 4799 \<le> tm_year ?u + 1900" "tm_year ?u + 1900 \<le> 1465102"
    using utc_tm_date(3,4) [OF assms] by (simp_all add: utc_tm_def Let_def)
  have md: "1 \<le> tm_mon ?u + 1" "tm_mon ?u + 1 \<le> 12" "1 \<le> tm_mday ?u" "tm_mday ?u \<le> 31"
    using f valid_ymd_bounds by blast+
  show ?thesis
    using f toUtcTime_fits [OF assms] fromUtcTime_utc [OF assms] getJulianDayNumber_fits [OF year md]
      getJulianDayNumber_fits [OF year, of 1 1]
    by (intro exI conjI) (assumption | simp)+
qed

theorem utc_time_witness:
  "\<exists>u. toUtcTime (- 1) True = Inr u \<and> tm_sec u < 60 \<and> fromUtcTime_tm u = Inr (- 1 - 10 * tm_min u)"
  using utc_time [of "- 1"] by auto

section \<open>Zone lookup\<close>

definition tz_ok :: "tz_data \<Rightarrow> bool" where
  "tz_ok d \<longleftrightarrow> localtimes d \<noteq> [] \<and> strict_sorted (map gmttime (transitions d)) \<and>
     (\<forall>t \<in> set (transitions d). 0 \<le> localtimeIdx t \<and> localtimeIdx t < int (length (localtimes d)))"

text \<open>The rule in force at a second: that of the last transition not after it, or the first rule.\<close>

definition zone_at :: "tz_data \<Rightarrow> int \<Rightarrow> Localtime" where
  "zone_at d t =
     (let xs = filter (\<lambda>x. gmttime x \<le> t) (transitions d) in
      if xs = [] then hd (localtimes d) else localtimes d ! nat (localtimeIdx (last xs)))"

lemma sorted_prefix:
  assumes "strict_sorted (map gmttime ts)"
  shows "filter (\<lambda>x. gmttime x \<le> t) ts = takeWhile (\<lambda>x. gmttime x \<le> t) ts"
  using assms
proof (induction ts)
  case (Cons a ts)
  have "filter (\<lambda>x. gmttime x \<le> t) ts = []" if "\<not> gmttime a \<le> t"
    using Cons.prems that by (auto simp: filter_empty_conv)
  with Cons show ?case by auto
qed simp

lemma takeWhile_le_less:
  fixes t :: int
  assumes "strict_sorted (map gmttime ts)"
  defines "n \<equiv> length (takeWhile (\<lambda>x. gmttime x < t) ts)"
  shows "takeWhile (\<lambda>x. gmttime x \<le> t) ts =
    (if n < length ts \<and> gmttime (ts ! n) = t then take (Suc n) ts else take n ts)"
  using assms(1) unfolding n_def
proof (induction ts)
  case (Cons a ts)
  have "takeWhile (\<lambda>x. gmttime x \<le> t) ts = []" if "t \<le> gmttime a"
    using Cons.prems that by (cases ts) auto
  with Cons show ?case by auto
qed simp

lemma findLocaltime_gmt:
  assumes "tz_ok d"
  shows "findLocaltime d \<lparr>gmttime = t, localtime = l, localtimeIdx = i\<rparr> True = Inr (zone_at d t)"
proof -
  let ?ts = "transitions d" and ?s = "\<lparr>gmttime = t, localtime = l, localtimeIdx = i\<rparr>"
  define n where "n = length (takeWhile (\<lambda>x. gmttime x < t) ?ts)"
  have lt: "localtimes d \<noteq> []" and srt: "strict_sorted (map gmttime ?ts)"
    and idx: "\<And>x. x \<in> set ?ts \<Longrightarrow> vec_at (localtimes d) (localtimeIdx x) = Inr (localtimes d ! nat (localtimeIdx x))"
    using assms by (auto simp: tz_ok_def vec_at_def)
  have le: "n \<le> length ?ts" unfolding n_def by (rule length_takeWhile_le)
  have lb: "lower_bound True ?ts ?s = n" by (simp add: lower_bound_def comp_less_def comp_key_def n_def)
  have zone: "zone_at d t = (let xs = (if n < length ?ts \<and> gmttime (?ts ! n) = t then take (Suc n) ?ts else take n ?ts) in
      if xs = [] then hd (localtimes d) else localtimes d ! nat (localtimeIdx (last xs)))"
    unfolding zone_at_def sorted_prefix [OF srt] takeWhile_le_less [OF srt] n_def ..
  show ?thesis
  proof (cases "?ts = [] \<or> t < gmttime (hd ?ts)")
    case True
    then have "n = 0" "n < length ?ts \<Longrightarrow> gmttime (?ts ! n) \<noteq> t"
      unfolding n_def by (cases ?ts; auto)+
    with True lt zone show ?thesis
      by (auto simp: findLocaltime_def comp_less_def comp_key_def vec_at_def hd_conv_nth)
  next
    case False
    then have cond: "?ts \<noteq> []" "\<not> comp_less True ?s (hd ?ts)" by (simp_all add: comp_less_def comp_key_def)
    have eq: "comp_equal True ?s x \<longleftrightarrow> gmttime x = t" for x by (auto simp: comp_equal_def comp_key_def)
    have pos: "n \<noteq> 0 \<or> gmttime (?ts ! n) = t"
      using False unfolding n_def by (cases ?ts) auto
    have last_take: "last (take (Suc k) ?ts) = ?ts ! k" if "k < length ?ts" for k
      using that by (simp add: take_Suc_conv_app_nth)
    have nth: "vec_at (localtimes d) (localtimeIdx (?ts ! k)) = Inr (localtimes d ! nat (localtimeIdx (?ts ! k)))"
      if "k < length ?ts" for k using idx that by simp
    consider "n < length ?ts" "gmttime (?ts ! n) = t" | "n < length ?ts" "gmttime (?ts ! n) \<noteq> t" "n \<noteq> 0" | "n = length ?ts"
      using le pos by linarith
    then show ?thesis
    proof cases
      case 1
      moreover from this have "take (Suc n) ?ts \<noteq> []" by auto
      ultimately show ?thesis
        by (simp add: findLocaltime_def cond lb eq nth zone last_take Let_def)
    next
      case 2
      then obtain k where k: "n = Suc k" by (cases n) auto
      with 2 have "take n ?ts \<noteq> []" "last (take n ?ts) = ?ts ! (n - 1)" using last_take [of k] by auto
      with 2 k show ?thesis
        by (simp add: findLocaltime_def cond lb eq nth zone Let_def)
    next
      case 3
      with False have "last ?ts \<in> set ?ts" by simp
      with 3 False show ?thesis
        by (simp add: findLocaltime_def cond lb idx zone Let_def)
    qed
  qed
qed

lemma zone_at_mem: "tz_ok d \<Longrightarrow> zone_at d t \<in> set (localtimes d)"
proof -
  assume ok: "tz_ok d"
  let ?xs = "filter (\<lambda>x. gmttime x \<le> t) (transitions d)"
  have "last ?xs \<in> set (transitions d)" if "?xs \<noteq> []"
    using last_in_set [OF that] by simp
  then have "nat (localtimeIdx (last ?xs)) < length (localtimes d)" if "?xs \<noteq> []"
    using ok that unfolding tz_ok_def by (metis nat_less_iff)
  with ok show ?thesis by (auto simp: zone_at_def tz_ok_def Let_def simp del: filter_empty_conv)
qed

text \<open>
  Property C33. \<open>toLocalTime\<close> applies the right rule. On zone data whose transitions ascend and whose indices
  are valid, the binary search of \<open>findLocaltime\<close>, with its special cases for a time before the
  first transition, on a transition and after the last, finds the rule of the last transition
  that is not after the given second, and the first rule if there is none; the result is the UTC
  time shifted by that rule's offset, and no access is out of range.
\<close>

theorem toLocalTime_rule:
  assumes "tz_ok d" "\<forall>l \<in> set (localtimes d). 0 \<le> arrbIdx l \<and> arrbIdx l \<le> int (length (abbrev d))"
  shows "\<exists>zn. toLocalTime gmtime (Some d) t =
    Inr ((gmtime (t + gmtOffset (zone_at d t)))\<lparr>tm_isdst := isDst (zone_at d t), tm_gmtoff := gmtOffset (zone_at d t), tm_zone := zn\<rparr>)"
proof -
  have "0 \<le> arrbIdx (zone_at d t) \<and> arrbIdx (zone_at d t) \<le> int (length (abbrev d))"
    using assms(2) zone_at_mem [OF assms(1)] by blast
  then show ?thesis
    unfolding toLocalTime_def Let_def option.sel findLocaltime_gmt [OF assms(1)] rbind_Inr abbrev_at_def
    by (auto intro: exI)
qed

definition demo_zone :: tz_data where
  "demo_zone = \<lparr>transitions = [\<lparr>gmttime = 100, localtime = 3700, localtimeIdx = 1\<rparr>],
     localtimes = [\<lparr>gmtOffset = 0, isDst = False, arrbIdx = 0\<rparr>, \<lparr>gmtOffset = 3600, isDst = True, arrbIdx = 4\<rparr>],
     abbrev = [71, 77, 84, 0, 66, 83, 84, 0]\<rparr>"

theorem toLocalTime_rule_witness:
  "\<exists>zn. toLocalTime utc_tm (Some demo_zone) 150 =
     Inr ((utc_tm 3750)\<lparr>tm_isdst := True, tm_gmtoff := 3600, tm_zone := zn\<rparr>)"
proof -
  have "tz_ok demo_zone" by (simp add: tz_ok_def demo_zone_def)
  moreover have "\<forall>l \<in> set (localtimes demo_zone). 0 \<le> arrbIdx l \<and> arrbIdx l \<le> int (length (abbrev demo_zone))"
    by (simp add: demo_zone_def)
  ultimately show ?thesis
    using toLocalTime_rule [of demo_zone utc_tm 150] by (simp add: demo_zone_def zone_at_def)
qed

section \<open>Reading zone files\<close>

text \<open>
  A zone file that cannot be opened, or that is not a zone file at all, yields a zone that claims
  to be valid: \<open>readTimeZoneFile\<close> returns true whatever happened, so that the constructor never
  resets \<open>data_\<close>, and the first use of the zone reads the front of an empty vector.
\<close>

lemma bad_zone_file_accepted:
  assumes "f = None \<or> (\<exists>bs. f = Some bs \<and> take 4 bs \<noteq> tz_magic)"
  shows "\<exists>d. TimeZone_file f = Inr (Some d) \<and> localtimes d = [] \<and>
    toLocalTime gmtime (Some d) t = Inl OutOfBounds"
proof -
  have "readHeader bs = Inl (LogicError ''bad head'') \<or> readHeader bs = Inl (LogicError ''no enough data'')"
    if "take 4 bs \<noteq> tz_magic" for bs
    using that by (cases "length bs < 4") (simp_all add: readHeader_def readBytes_def)
  with assms have "readTimeZoneFile f tz_data_empty = Inr (True, tz_data_empty)"
    by (fastforce simp: readTimeZoneFile_def tz_try_def is_logic_error_def)
  then show ?thesis
    by (simp add: TimeZone_file_def toLocalTime_def findLocaltime_def tz_data_empty_def vec_at_def)
qed

lemma bad_zone_file_accepted_witness:
  "\<exists>d. TimeZone_file (Some [1, 2, 3]) = Inr (Some d) \<and> toLocalTime utc_tm (Some d) 0 = Inl OutOfBounds"
  using bad_zone_file_accepted [of "Some [1, 2, 3]" utc_tm 0] by (auto simp: tz_magic_def)

text \<open>An encoder of the format, to state that the reader inverts it.\<close>

definition enc32 :: "int \<Rightarrow> byte list" where
  "enc32 i = le_bytes 4 (hostToNetwork32 (word_of_int i))"

definition enc_type :: "Localtime \<Rightarrow> byte list" where
  "enc_type l = enc32 (gmtOffset l) @ [if isDst l then 1 else 0, word_of_int (arrbIdx l)]"

definition tz_encode :: "tz_data \<Rightarrow> byte list" where
  "tz_encode d = tz_magic @ [0] @ replicate 15 0 @ enc32 0 @ enc32 0 @ enc32 0 @
     enc32 (int (length (transitions d))) @ enc32 (int (length (localtimes d))) @ enc32 (int (length (abbrev d))) @
     concat (map (\<lambda>t. enc32 (gmttime t)) (transitions d)) @ map (\<lambda>t. word_of_int (localtimeIdx t)) (transitions d) @
     concat (map enc_type (localtimes d)) @ abbrev d"

definition in32 :: "int \<Rightarrow> bool" where
  "in32 i \<longleftrightarrow> - (2 ^ 31) \<le> i \<and> i < 2 ^ 31"

definition in8 :: "int \<Rightarrow> bool" where
  "in8 i \<longleftrightarrow> 0 \<le> i \<and> i < 2 ^ 8"

text \<open>Data the format can hold: counts and fields in range, local times as the rules give them.\<close>

definition tz_encodable :: "tz_data \<Rightarrow> bool" where
  "tz_encodable d \<longleftrightarrow> in32 (int (length (transitions d))) \<and> in32 (int (length (localtimes d))) \<and> in32 (int (length (abbrev d))) \<and>
     (\<forall>l \<in> set (localtimes d). in32 (gmtOffset l) \<and> in8 (arrbIdx l)) \<and>
     (\<forall>t \<in> set (transitions d). in32 (gmttime t) \<and> in8 (localtimeIdx t) \<and> localtimeIdx t < int (length (localtimes d)) \<and>
        localtime t = gmttime t + gmtOffset (localtimes d ! nat (localtimeIdx t)))"

lemma readInt32_enc: "in32 i \<Longrightarrow> readInt32_be (enc32 i @ bs) = Inr (i, bs)"
proof -
  assume i: "in32 i"
  have "networkToHost32 (of_le_bytes (enc32 i)) = word_of_int i"
    unfolding enc32_def networkToHost32_def hostToNetwork32_def by (rule le_bytes_read_back) simp
  moreover have "sint (word_of_int i :: 32 word) = i"
    using i by (simp add: in32_def signed_of_int signed_take_bit_int_eq_self)
  moreover have "length (enc32 i) = 4" by (simp add: enc32_def)
  ultimately show ?thesis by (simp add: readInt32_be_def)
qed

lemma readUInt8_enc: "in8 i \<Longrightarrow> readUInt8 (word_of_int i # bs) = Inr (i, bs)"
  by (simp add: readUInt8_def in8_def unsigned_of_int take_bit_int_eq_self)

lemma readBytes_enc: "readBytes (int (length xs)) (xs @ bs) = Inr (xs, bs)"
  by (simp add: readBytes_def)

lemma readBytes_exact: "n = int (length xs) \<Longrightarrow> readBytes n (xs @ bs) = Inr (xs, bs)"
  by (simp add: readBytes_def)

lemma read_many_enc:
  assumes "\<And>x bs. x \<in> set xs \<Longrightarrow> f (enc x @ bs) = Inr (g x, bs)"
  shows "read_many f (length xs) (concat (map enc xs) @ bs) = Inr (map g xs, bs)"
  using assms by (induction xs) auto

lemma readType_enc: "in32 (gmtOffset l) \<Longrightarrow> in8 (arrbIdx l) \<Longrightarrow> readType (enc_type l @ bs) = Inr (l, bs)"
  using readUInt8_enc [of 1] readUInt8_enc [of 0]
  by (auto simp: readType_def enc_type_def readInt32_enc readUInt8_enc in8_def)

lemma push_types_enc:
  assumes "\<forall>l \<in> set ls. in32 (gmtOffset l) \<and> in8 (arrbIdx l)"
  shows "push_types (length ls) (concat (map enc_type ls) @ bs) d = (d\<lparr>localtimes := localtimes d @ ls\<rparr>, Inr bs)"
  using assms by (induction ls arbitrary: d) (simp_all add: readType_enc)

lemma push_transitions_enc:
  assumes "\<forall>t \<in> set ts. 0 \<le> localtimeIdx t \<and> localtimeIdx t < int (length (localtimes d)) \<and>
      localtime t = gmttime t + gmtOffset (localtimes d ! nat (localtimeIdx t))"
  shows "push_transitions (map (\<lambda>t. (gmttime t, localtimeIdx t)) ts) d = Inr (d\<lparr>transitions := transitions d @ ts\<rparr>)"
  using assms
proof (induction ts arbitrary: d)
  case (Cons t ts)
  then have "push_transitions (map (\<lambda>t. (gmttime t, localtimeIdx t)) ts) (d\<lparr>transitions := transitions d @ [t]\<rparr>) =
      Inr (d\<lparr>transitions := transitions d @ t # ts\<rparr>)" by simp
  moreover have "\<lparr>gmttime = gmttime t, localtime = gmttime t + gmtOffset (localtimes d ! nat (localtimeIdx t)),
      localtimeIdx = localtimeIdx t\<rparr> = t"
    using Cons.prems by (cases t) simp
  moreover have "vec_at (localtimes d) (localtimeIdx t) = Inr (localtimes d ! nat (localtimeIdx t))"
    using Cons.prems by (simp add: vec_at_def)
  ultimately show ?case by simp
qed simp

lemma readHeader_enc:
  assumes "in32 a" "in32 b" "in32 c"
  shows "readHeader (tz_magic @ [0] @ replicate 15 0 @ enc32 0 @ enc32 0 @ enc32 0 @ enc32 a @ enc32 b @ enc32 c @ bs) =
    Inr ((a, b, c), bs)"
proof -
  have "in32 0" by (simp add: in32_def)
  moreover have "readBytes 4 (tz_magic @ xs) = Inr (tz_magic, xs)" "readBytes 1 ([0] @ xs) = Inr ([0], xs)"
    "readBytes 15 (replicate 15 0 @ xs) = Inr (replicate 15 0, xs)" for xs
    by (rule readBytes_exact, simp add: tz_magic_def)+
  ultimately show ?thesis
    using assms unfolding readHeader_def by (simp only: readInt32_enc rbind_Inr prod.case not_not if_False simp_thms)
qed

lemma readTimes_enc:
  assumes "\<forall>t \<in> set ts. in32 (gmttime t) \<and> in8 (localtimeIdx t)"
  shows "readTimes (int (length ts)) (concat (map (\<lambda>t. enc32 (gmttime t)) ts) @ map (\<lambda>t. word_of_int (localtimeIdx t)) ts @ bs) =
    Inr (map (\<lambda>t. (gmttime t, localtimeIdx t)) ts, bs)"
proof -
  have single: "map (\<lambda>t. word_of_int (localtimeIdx t)) ts = concat (map (\<lambda>t. [word_of_int (localtimeIdx t)]) ts)"
    by (induction ts) simp_all
  have "read_many readInt32_be (length ts) (concat (map (\<lambda>t. enc32 (gmttime t)) ts) @ xs) = Inr (map gmttime ts, xs)" for xs
    using assms by (intro read_many_enc) (simp add: readInt32_enc)
  moreover have "read_many readUInt8 (length ts) (concat (map (\<lambda>t. [word_of_int (localtimeIdx t)]) ts) @ xs) =
      Inr (map localtimeIdx ts, xs)" for xs
    using assms by (intro read_many_enc) (simp add: readUInt8_enc)
  ultimately show ?thesis
    unfolding single by (simp add: readTimes_def zip_map_map zip_same_conv_map)
qed

text \<open>
  Property C34. Reading a zone file inverts writing one: for all zone data the format can hold, the
  constructor of \<open>TimeZone\<close> recovers every rule, every transition with its local time, and the
  abbreviations.
\<close>

theorem tz_file_roundtrip:
  assumes "tz_encodable d"
  shows "TimeZone_file (Some (tz_encode d)) = Inr (Some d)"
proof -
  note enc = assms [unfolded tz_encodable_def]
  have types: "push_types (length (localtimes d)) (concat (map enc_type (localtimes d)) @ abbrev d) tz_data_empty =
      (tz_data_empty\<lparr>localtimes := localtimes d\<rparr>, Inr (abbrev d))"
    using push_types_enc [of "localtimes d" "abbrev d" tz_data_empty] enc by (simp add: tz_data_empty_def)
  have trans: "push_transitions (map (\<lambda>t. (gmttime t, localtimeIdx t)) (transitions d)) (tz_data_empty\<lparr>localtimes := localtimes d\<rparr>) =
      Inr (tz_data_empty\<lparr>localtimes := localtimes d, transitions := transitions d\<rparr>)"
    using push_transitions_enc [of "transitions d" "tz_data_empty\<lparr>localtimes := localtimes d\<rparr>"] enc
    by (simp add: tz_data_empty_def in8_def)
  have "readTimes (int (length (transitions d))) (concat (map (\<lambda>t. enc32 (gmttime t)) (transitions d)) @
      map (\<lambda>t. word_of_int (localtimeIdx t)) (transitions d) @ bs) =
      Inr (map (\<lambda>t. (gmttime t, localtimeIdx t)) (transitions d), bs)" for bs
    using enc by (intro readTimes_enc) blast
  then have "tz_try (tz_encode d) tz_data_empty = (Inr (tz_data_empty\<lparr>localtimes := localtimes d,
      transitions := transitions d, abbrev := abbrev d\<rparr>), None)"
    using enc readBytes_enc [of "abbrev d" "[]"] by (simp add: tz_try_def tz_encode_def readHeader_enc [simplified] types trans)
  then show ?thesis
    by (simp add: TimeZone_file_def readTimeZoneFile_def tz_data_empty_def)
qed

theorem tz_file_roundtrip_witness: "TimeZone_file (Some (tz_encode demo_zone)) = Inr (Some demo_zone)"
  by (rule tz_file_roundtrip) (simp add: tz_encodable_def demo_zone_def in32_def in8_def)

end
