(* ===== verification/NW_LogFile.thy ===== *)
theory NW_LogFile
  imports NW_TimeZone
begin

text \<open>
  \<^verbatim>\<open>networker/base/FileUtil.h\<close>, \<^verbatim>\<open>networker/base/FileUtil.cpp\<close>, \<^verbatim>\<open>networker/base/LogFile.h\<close> and
  \<^verbatim>\<open>networker/base/LogFile.cpp\<close>: buffered files and the rolling log file.

  The file system is a store: names refer to inodes, inodes hold text, and an open \<open>FILE\<close> refers to
  its inode, so that renaming a file that is being written moves the name and not the writer. The
  text of an inode includes what \<open>stdio\<close> still buffers; \<open>af_unflushed\<close> bounds that part. How much
  \<open>fwrite\<close> takes of a request is an argument (at most what it is given), and so are the clock, the
  host name and \<open>gmtime_r\<close>. \<open>fopen\<close> succeeds: the code does not check it. \<open>LogFile::append\<close> holds a mutex or is used by one thread, so each call is
  one step.
\<close>

section \<open>The file system\<close>

record filesystem =
  fs_names :: "string \<Rightarrow> nat option"
  fs_data :: "nat \<Rightarrow> string"
  fs_next :: nat

definition c_rename :: "string \<Rightarrow> string \<Rightarrow> filesystem \<Rightarrow> filesystem" where
  "c_rename old new fs =
     (case fs_names fs old of None \<Rightarrow> fs
      | Some i \<Rightarrow> fs\<lparr>fs_names := (fs_names fs)(old := None, new := Some i)\<rparr>)"

text \<open>\<open>fopen(name, "ae")\<close>: the inode of the name, a new empty one if there is none.\<close>

definition c_fopen_append :: "string \<Rightarrow> filesystem \<Rightarrow> nat \<times> filesystem" where
  "c_fopen_append name fs =
     (case fs_names fs name of Some i \<Rightarrow> (i, fs)
      | None \<Rightarrow> (fs_next fs, fs\<lparr>fs_names := (fs_names fs)(name \<mapsto> fs_next fs), fs_data := (fs_data fs)(fs_next fs := []),
                                fs_next := Suc (fs_next fs)\<rparr>))"

section \<open>AppendFile\<close>

record AppendFile =
  af_ino :: nat
  writtenBytes :: int
  af_unflushed :: nat

definition AppendFile_ctor :: "string \<Rightarrow> filesystem \<Rightarrow> AppendFile \<times> filesystem" where
  "AppendFile_ctor filename fs =
     (let (i, fs1) = c_fopen_append filename fs in (\<lparr>af_ino = i, writtenBytes = 0, af_unflushed = 0\<rparr>, fs1))"

text \<open>\<open>wr k n\<close> is how much the \<open>k\<close>-th \<open>fwrite_unlocked\<close> takes of \<open>n\<close> bytes.\<close>

definition af_write :: "(nat \<Rightarrow> nat \<Rightarrow> nat) \<Rightarrow> nat \<Rightarrow> string \<Rightarrow> AppendFile \<Rightarrow> filesystem \<Rightarrow> nat \<times> filesystem" where
  "af_write wr k txt f fs =
     (let n = min (wr k (length txt)) (length txt)
      in (n, fs\<lparr>fs_data := (fs_data fs)(af_ino f := fs_data fs (af_ino f) @ take n txt)\<rparr>))"

text \<open>The loop of \<open>append\<close>; its result is the number of bytes written.\<close>

function append_loop :: "(nat \<Rightarrow> nat \<Rightarrow> nat) \<Rightarrow> nat \<Rightarrow> string \<Rightarrow> nat \<Rightarrow> AppendFile \<Rightarrow> filesystem \<Rightarrow> nat \<times> filesystem" where
  "append_loop wr k logline n f fs =
     (if length logline - n > 0
      then let (x, fs1) = af_write wr k (drop n logline) f fs in
           if x = 0 then (n, fs1) else append_loop wr (Suc k) logline (n + x) f fs1
      else (n, fs))"
  by auto

termination
  by (relation "measure (\<lambda>(wr, k, logline, n, f, fs). length logline - n)") auto

declare append_loop.simps [simp del]

definition af_append :: "(nat \<Rightarrow> nat \<Rightarrow> nat) \<Rightarrow> string \<Rightarrow> AppendFile \<Rightarrow> filesystem \<Rightarrow> AppendFile \<times> filesystem" where
  "af_append wr logline f fs =
     (let (n, fs1) = af_write wr 0 logline f fs;
          (m, fs2) = append_loop wr 1 logline n f fs1
      in (f\<lparr>writtenBytes := writtenBytes f + int (length logline), af_unflushed := af_unflushed f + m\<rparr>, fs2))"

definition af_flush :: "AppendFile \<Rightarrow> AppendFile" where
  "af_flush f = f\<lparr>af_unflushed := 0\<rparr>"

section \<open>LogFile\<close>

record LogFile =
  lf_basename :: string
  rollSize :: int
  flushInterval :: int
  checkEveryN :: int
  lf_count :: int
  lf_file :: "AppendFile option"
  startOfPeriod :: int
  lastRoll :: int
  lastFlush :: int

definition kRollPerSeconds :: int where "kRollPerSeconds = 60 * 60 * 24"

text \<open>\<open>strftime\<close> with \<open>%Y%m%d.\<close> and with \<open>-%Y%m%d_%H%M%S\<close>.\<close>

abbreviation d2 :: "int \<Rightarrow> string" where "d2 i \<equiv> pad CHR ''0'' 2 (dec_int i)"

definition ymd_text :: "tm \<Rightarrow> string" where
  "ymd_text t = dec_int (tm_year t + 1900) @ d2 (tm_mon t + 1) @ d2 (tm_mday t)"

definition hms_text :: "tm \<Rightarrow> string" where
  "hms_text t = d2 (tm_hour t) @ d2 (tm_min t) @ d2 (tm_sec t)"

definition log_name :: "(int \<Rightarrow> tm) \<Rightarrow> string \<Rightarrow> string \<Rightarrow> int \<Rightarrow> string" where
  "log_name gmtime host base now = base @ ymd_text (gmtime now) @ ''.'' @ host @ ''.log''"

definition roll_name :: "(int \<Rightarrow> tm) \<Rightarrow> string \<Rightarrow> string \<Rightarrow> int \<Rightarrow> string" where
  "roll_name gmtime host base now =
     log_name gmtime host base now @ ''-'' @ ymd_text (gmtime now) @ ''_'' @ hms_text (gmtime now) @ ''.roll''"

definition getLogFileName :: "(int \<Rightarrow> tm) \<Rightarrow> string \<Rightarrow> string \<Rightarrow> int \<Rightarrow> bool \<Rightarrow> filesystem \<Rightarrow> string \<times> filesystem" where
  "getLogFileName gmtime host base now isRoll fs =
     (let filename = log_name gmtime host base now
      in (filename, if isRoll then c_rename filename (roll_name gmtime host base now) fs else fs))"

definition rollFile :: "(int \<Rightarrow> tm) \<Rightarrow> string \<Rightarrow> bool \<Rightarrow> int \<Rightarrow> LogFile \<Rightarrow> filesystem \<Rightarrow> bool \<times> LogFile \<times> filesystem" where
  "rollFile gmtime host isRoll now lf fs =
     (let (filename, fs1) = getLogFileName gmtime host (lf_basename lf) now isRoll fs;
          start = c_div now kRollPerSeconds * kRollPerSeconds
      in if now > lastRoll lf
         then let (f, fs2) = AppendFile_ctor filename fs1
              in (True, lf\<lparr>lastRoll := now, lastFlush := now, startOfPeriod := start, lf_file := Some f\<rparr>, fs2)
         else (False, lf, fs1))"

definition LogFile_ctor :: "(int \<Rightarrow> tm) \<Rightarrow> string \<Rightarrow> string \<Rightarrow> int \<Rightarrow> int \<Rightarrow> int \<Rightarrow> int \<Rightarrow> filesystem \<Rightarrow> LogFile \<times> filesystem" where
  "LogFile_ctor gmtime host base rollsz flushIv checkN now fs =
     snd (rollFile gmtime host False now
       \<lparr>lf_basename = base, rollSize = rollsz, flushInterval = flushIv, checkEveryN = checkN, lf_count = 0,
        lf_file = None, startOfPeriod = 0, lastRoll = 0, lastFlush = 0\<rparr> fs)"

text \<open>\<open>append_unlocked\<close>: \<open>now\<close> is the clock at the check, \<open>now'\<close> at the roll.\<close>

definition append_unlocked :: "(int \<Rightarrow> tm) \<Rightarrow> string \<Rightarrow> (nat \<Rightarrow> nat \<Rightarrow> nat) \<Rightarrow> int \<Rightarrow> int \<Rightarrow> string \<Rightarrow> LogFile \<Rightarrow> filesystem
    \<Rightarrow> (LogFile \<times> filesystem) result" where
  "append_unlocked gmtime host wr now now' logline lf fs =
     (case lf_file lf of
        None \<Rightarrow> Inl UseAfterFree
      | Some f \<Rightarrow>
          let (f1, fs1) = af_append wr logline f fs; lf1 = lf\<lparr>lf_file := Some f1\<rparr> in
          if writtenBytes f1 > rollSize lf1
          then Inr (snd (rollFile gmtime host True now' lf1 fs1))
          else
            let lf2 = lf1\<lparr>lf_count := lf_count lf1 + 1\<rparr> in
            if lf_count lf2 \<ge> checkEveryN lf2
            then
              let lf3 = lf2\<lparr>lf_count := 0\<rparr>; thisPeriod = c_div now kRollPerSeconds * kRollPerSeconds in
              if thisPeriod \<noteq> startOfPeriod lf3 then Inr (snd (rollFile gmtime host True now' lf3 fs1))
              else if now - lastFlush lf3 > flushInterval lf3
              then Inr (lf3\<lparr>lastFlush := now, lf_file := Some (af_flush f1)\<rparr>, fs1)
              else Inr (lf3, fs1)
            else Inr (lf2, fs1))"

definition lf_flush :: "LogFile \<Rightarrow> LogFile result" where
  "lf_flush lf = (case lf_file lf of None \<Rightarrow> Inl UseAfterFree | Some f \<Rightarrow> Inr (lf\<lparr>lf_file := Some (af_flush f)\<rparr>))"

section \<open>Writing everything\<close>

lemma append_loop_spec:
  assumes "n \<le> length logline"
  shows "\<exists>m fs'. append_loop wr k logline n f fs = (m, fs') \<and> n \<le> m \<and> m \<le> length logline \<and>
    fs' = fs\<lparr>fs_data := (fs_data fs)(af_ino f := fs_data fs (af_ino f) @ take (m - n) (drop n logline))\<rparr> \<and>
    ((\<forall>j r. 0 < r \<longrightarrow> 0 < wr j r) \<longrightarrow> m = length logline)"
  using assms
proof (induction wr k logline n f fs rule: append_loop.induct)
  case (1 wr k logline n f fs)
  let ?x = "min (wr k (length logline - n)) (length logline - n)"
  let ?fs = "fs\<lparr>fs_data := (fs_data fs)(af_ino f := fs_data fs (af_ino f) @ take ?x (drop n logline))\<rparr>"
  have w: "af_write wr k (drop n logline) f fs = (?x, ?fs)" by (simp add: af_write_def Let_def)
  consider "n = length logline" | "n < length logline" "?x = 0" | "n < length logline" "?x \<noteq> 0" using 1(2) by linarith
  then show ?case
  proof cases
    case 1
    then show ?thesis by (subst append_loop.simps) simp
  next
    case 2
    then have "\<not> (\<forall>j r. 0 < r \<longrightarrow> 0 < wr j r)" by (metis min_less_iff_conj neq0_conv zero_less_diff)
    with 2 show ?thesis by (subst append_loop.simps) (simp add: w)
  next
    case 3
    then have h: "length logline - n > 0" "?x \<noteq> 0" "n + ?x \<le> length logline" using 1(2) by simp_all
    obtain m fs' where m: "append_loop wr (Suc k) logline (n + ?x) f ?fs = (m, fs')" "n + ?x \<le> m" "m \<le> length logline"
      "fs' = ?fs\<lparr>fs_data := (fs_data ?fs)(af_ino f := fs_data ?fs (af_ino f) @ take (m - (n + ?x)) (drop (n + ?x) logline))\<rparr>"
      "(\<forall>j r. 0 < r \<longrightarrow> 0 < wr j r) \<longrightarrow> m = length logline"
      using 1(1) [OF h(1) refl w [symmetric] h(2,3)] by (elim exE conjE) (rule that)
    have "take (m - n) (drop n logline) = take ?x (drop n logline) @ take (m - (n + ?x)) (drop (n + ?x) logline)"
      using take_add [of ?x "m - (n + ?x)" "drop n logline"] m(2) by (simp add: add.commute)
    with m 3 w show ?thesis by (subst append_loop.simps) auto
  qed
qed

lemma af_append_spec:
  "\<exists>m. af_append wr logline f fs = (f\<lparr>writtenBytes := writtenBytes f + int (length logline), af_unflushed := af_unflushed f + m\<rparr>,
      fs\<lparr>fs_data := (fs_data fs)(af_ino f := fs_data fs (af_ino f) @ take m logline)\<rparr>) \<and> m \<le> length logline \<and>
    ((\<forall>j r. 0 < r \<longrightarrow> 0 < wr j r) \<longrightarrow> m = length logline)"
proof -
  let ?n = "min (wr 0 (length logline)) (length logline)"
  let ?fs = "fs\<lparr>fs_data := (fs_data fs)(af_ino f := fs_data fs (af_ino f) @ take ?n logline)\<rparr>"
  have n: "?n \<le> length logline" by simp
  from append_loop_spec [OF n, of wr 1 f ?fs] obtain m fs' where m: "append_loop wr 1 logline ?n f ?fs = (m, fs')" "?n \<le> m" "m \<le> length logline"
    "fs' = ?fs\<lparr>fs_data := (fs_data ?fs)(af_ino f := fs_data ?fs (af_ino f) @ take (m - ?n) (drop ?n logline))\<rparr>"
    "(\<forall>j r. 0 < r \<longrightarrow> 0 < wr j r) \<longrightarrow> m = length logline" by blast
  have "take m logline = take ?n logline @ take (m - ?n) (drop ?n logline)"
    using m(2) by (metis le_add_diff_inverse take_add)
  then have "fs' = fs\<lparr>fs_data := (fs_data fs)(af_ino f := fs_data fs (af_ino f) @ take m logline)\<rparr>"
    by (simp add: m(4))
  with m(1,3,5) show ?thesis by (intro exI [of _ m]) (simp add: af_append_def af_write_def Let_def)
qed

section \<open>File names\<close>

text \<open>What \<open>gmtime_r\<close> promises: fields in range that denote the given second.\<close>

definition tm_secs :: "tm \<Rightarrow> int" where
  "tm_secs u = (jdn (tm_year u + 1900) (tm_mon u + 1) (tm_mday u) - 2440588) * 86400 +
     tm_hour u * 3600 + tm_min u * 60 + tm_sec u"

definition tm_fields :: "tm \<Rightarrow> bool" where
  "tm_fields u \<longleftrightarrow> (\<forall>i \<in> {tm_mon u + 1, tm_mday u, tm_hour u, tm_min u, tm_sec u}. 0 \<le> i \<and> i < 100)"

definition gmtime_ok :: "(int \<Rightarrow> tm) \<Rightarrow> bool" where
  "gmtime_ok gmtime \<longleftrightarrow> (\<forall>t. 0 \<le> t \<and> t < 2 ^ 45 \<longrightarrow> tm_fields (gmtime t) \<and> tm_secs (gmtime t) = t)"

lemma utc_tm_gmtime_ok: "gmtime_ok utc_tm"
  unfolding gmtime_ok_def
proof (intro allI impI)
  fix t :: int
  assume t: "0 \<le> t \<and> t < 2 ^ 45"
  let ?u = "utc_tm t"
  from t have "- (2 ^ 37) \<le> t" "t < 2 ^ 45" by auto
  note f = utc_tm_fields [OF this]
  then have "valid_ymd (tm_year ?u + 1900) (tm_mon ?u + 1) (tm_mday ?u)" by blast
  then have "0 \<le> tm_mon ?u + 1" "tm_mon ?u + 1 < 100" "0 \<le> tm_mday ?u" "tm_mday ?u < 100"
    by (auto simp: valid_ymd_def days_in_month_def split: if_splits)
  with f show "tm_fields ?u \<and> tm_secs ?u = t" by (auto simp: tm_fields_def tm_secs_def)
qed

lemma read_nat_zeros: "read_nat (replicate n CHR ''0'' @ xs) = read_nat xs"
  by (induction n) (simp_all add: read_nat_def digit_val_def)

lemma d2_text: "0 \<le> i \<Longrightarrow> i < 100 \<Longrightarrow> length (d2 i) = 2 \<and> read_nat (d2 i) = nat i"
  using dec_length [of "nat i" 1] by (simp add: pad_def read_nat_zeros dec_int_def read_nat_dec nat_less_iff)

lemma d2_inj: "0 \<le> i \<Longrightarrow> i < 100 \<Longrightarrow> 0 \<le> j \<Longrightarrow> j < 100 \<Longrightarrow> d2 i = d2 j \<longleftrightarrow> i = j"
  using d2_text [of i] d2_text [of j] by (metis eq_nat_nat_iff)

lemma ymd_text_inj:
  assumes "tm_fields a" "tm_fields b" "ymd_text a = ymd_text b"
  shows "tm_year a = tm_year b \<and> tm_mon a = tm_mon b \<and> tm_mday a = tm_mday b"
proof -
  have r: "length (d2 (tm_mon u + 1)) = 2" "length (d2 (tm_mday u)) = 2" if "tm_fields u" for u
    using that d2_text by (simp_all add: tm_fields_def)
  have "dec_int (tm_year a + 1900) = dec_int (tm_year b + 1900) \<and> d2 (tm_mon a + 1) = d2 (tm_mon b + 1) \<and> d2 (tm_mday a) = d2 (tm_mday b)"
    using assms(3) r [OF assms(1)] r [OF assms(2)] by (simp add: ymd_text_def append_eq_append_conv)
  then have "tm_year a + 1900 = tm_year b + 1900 \<and> tm_mon a + 1 = tm_mon b + 1 \<and> tm_mday a = tm_mday b"
    using assms(1,2) d2_inj by (metis read_int_dec_int tm_fields_def insert_iff)
  then show ?thesis by simp
qed

lemma hms_text_inj:
  assumes "tm_fields a" "tm_fields b" "hms_text a = hms_text b"
  shows "tm_hour a = tm_hour b \<and> tm_min a = tm_min b \<and> tm_sec a = tm_sec b"
proof -
  have r: "length (d2 (tm_hour u)) = 2" "length (d2 (tm_min u)) = 2" if "tm_fields u" for u
    using that d2_text by (simp_all add: tm_fields_def)
  have "d2 (tm_hour a) = d2 (tm_hour b) \<and> d2 (tm_min a) = d2 (tm_min b) \<and> d2 (tm_sec a) = d2 (tm_sec b)"
    using assms(3) r [OF assms(1)] r [OF assms(2)] by (simp add: hms_text_def append_eq_append_conv)
  then show ?thesis using assms(1,2) d2_inj by (metis tm_fields_def insert_iff)
qed

lemma hms_text_length: "tm_fields a \<Longrightarrow> length (hms_text a) = 6"
  using d2_text by (simp add: hms_text_def tm_fields_def)

lemma roll_name_inj:
  assumes "gmtime_ok g" "0 \<le> t" "t < 2 ^ 45" "0 \<le> t'" "t' < 2 ^ 45" "roll_name g h b t = roll_name g h b t'"
  shows "t = t'"
proof -
  have f: "tm_fields (g t)" "tm_fields (g t')" "tm_secs (g t) = t" "tm_secs (g t') = t'"
    using assms(1-5) by (auto simp: gmtime_ok_def)
  have "length (roll_name g h b t) = length (roll_name g h b t')" using assms(6) by simp
  then have len: "length (ymd_text (g t)) = length (ymd_text (g t'))"
    using hms_text_length [OF f(1)] hms_text_length [OF f(2)] by (simp add: roll_name_def log_name_def)
  then have eq: "ymd_text (g t) = ymd_text (g t')" using assms(6) by (simp add: roll_name_def log_name_def)
  then have "hms_text (g t) = hms_text (g t')" using assms(6) by (simp add: roll_name_def log_name_def)
  with ymd_text_inj [OF f(1,2) eq] hms_text_inj [OF f(1,2)] have "tm_secs (g t) = tm_secs (g t')"
    unfolding tm_secs_def by metis
  with f(3,4) show ?thesis by metis
qed

lemma log_name_not_roll: "log_name g h b t \<noteq> roll_name g h b t'"
proof
  assume "log_name g h b t = roll_name g h b t'"
  then have "last (log_name g h b t) = last (roll_name g h b t')" by simp
  then show False by (simp add: log_name_def roll_name_def)
qed

section \<open>Rolling\<close>

lemma ran_moved:
  assumes "m new = None" "m old = Some i"
  shows "ran (m(old := None, new := Some i)) = ran m"
proof (rule set_eqI)
  fix x
  have "x \<in> ran (m(old := None, new := Some i))" if "x \<in> ran m"
  proof -
    from that obtain a where a: "m a = Some x" unfolding ran_def by blast
    show ?thesis
    proof (cases "a = old")
      case True
      with a assms(2) show ?thesis by (auto intro!: ranI [of _ new])
    next
      case False
      with a assms(1) show ?thesis by (auto intro!: ranI [of _ a])
    qed
  qed
  moreover have "x \<in> ran (m(old := None, new := Some i)) \<Longrightarrow> x \<in> ran m"
    using assms(2) by (auto simp: ran_def split: if_splits)
  ultimately show "x \<in> ran (m(old := None, new := Some i)) \<longleftrightarrow> x \<in> ran m" by blast
qed

text \<open>A roll in a later second than the last one: the old name moves aside and a new file opens.\<close>

lemma rollFile_later:
  assumes "gmtime_ok g" "0 \<le> lastRoll lf" "lastRoll lf < now" "now < 2 ^ 45"
    and free: "\<And>t. lastRoll lf < t \<Longrightarrow> t < 2 ^ 45 \<Longrightarrow> fs_names fs (roll_name g h (lf_basename lf) t) = None"
  shows "\<exists>lf' fs'. rollFile g h True now lf fs = (True, lf', fs') \<and>
    lf' = lf\<lparr>lastRoll := now, lastFlush := now, startOfPeriod := c_div now kRollPerSeconds * kRollPerSeconds,
      lf_file := Some \<lparr>af_ino = fs_next fs, writtenBytes = 0, af_unflushed = 0\<rparr>\<rparr> \<and>
    fs_data fs' = (fs_data fs)(fs_next fs := []) \<and> fs_next fs' = Suc (fs_next fs) \<and>
    ran (fs_names fs') = insert (fs_next fs) (ran (fs_names fs)) \<and>
    (\<forall>t. now < t \<longrightarrow> t < 2 ^ 45 \<longrightarrow> fs_names fs' (roll_name g h (lf_basename lf) t) = None)"
proof -
  let ?F = "log_name g h (lf_basename lf) now" and ?N = "roll_name g h (lf_basename lf)"
  let ?fs = "c_rename ?F (?N now) fs"
  have neq: "?F \<noteq> ?N t" "?N t \<noteq> ?F" for t using log_name_not_roll by metis+
  have N: "fs_names fs (?N now) = None" using free assms(3,4) by blast
  have fr: "fs_data ?fs = fs_data fs" "fs_next ?fs = fs_next fs" "fs_names ?fs ?F = None"
    using neq by (auto simp: c_rename_def split: option.splits)
  have rn: "ran (fs_names ?fs) = ran (fs_names fs)"
    using ran_moved [of "fs_names fs" "?N now" ?F] N by (auto simp: c_rename_def split: option.splits)
  have "?N t \<noteq> ?N now" if "now < t" "t < 2 ^ 45" for t
    using roll_name_inj [OF assms(1), of t now h "lf_basename lf"] that assms(2,3) by auto
  then have keep: "fs_names ?fs (?N t) = None" if "now < t" "t < 2 ^ 45" for t
    using that free [of t] assms(3) neq by (auto simp: c_rename_def split: option.splits)
  show ?thesis
    using assms(3) fr rn keep neq
    by (simp add: rollFile_def getLogFileName_def AppendFile_ctor_def c_fopen_append_def Let_def ran_map_upd)
qed

lemma rollFile_opens: "lastRoll lf < now \<Longrightarrow> \<exists>lf' fs'. rollFile g h r now lf fs = (True, lf', fs')"
  by (simp add: rollFile_def Let_def split: prod.split)

text \<open>Whether a line makes the log roll, and runs in which every roll is in a later second than the last.\<close>

definition rolls :: "int \<Rightarrow> string \<Rightarrow> LogFile \<Rightarrow> bool" where
  "rolls now logline lf \<longleftrightarrow>
     (case lf_file lf of None \<Rightarrow> False
      | Some f \<Rightarrow> writtenBytes f + int (length logline) > rollSize lf \<or>
          lf_count lf + 1 \<ge> checkEveryN lf \<and> c_div now kRollPerSeconds * kRollPerSeconds \<noteq> startOfPeriod lf)"

type_synonym log_event = "int \<times> int \<times> string"

fun log_step :: "(int \<Rightarrow> tm) \<Rightarrow> string \<Rightarrow> (nat \<Rightarrow> nat \<Rightarrow> nat) \<Rightarrow> log_event \<Rightarrow> LogFile \<times> filesystem \<Rightarrow> (LogFile \<times> filesystem) result" where
  "log_step g h wr (now, now', l) (lf, fs) = append_unlocked g h wr now now' l lf fs"

fun spaced :: "(int \<Rightarrow> tm) \<Rightarrow> string \<Rightarrow> (nat \<Rightarrow> nat \<Rightarrow> nat) \<Rightarrow> log_event list \<Rightarrow> LogFile \<times> filesystem \<Rightarrow> bool" where
  "spaced g h wr [] p \<longleftrightarrow> True"
| "spaced g h wr ((now, now', l) # es) (lf, fs) \<longleftrightarrow>
     (rolls now l lf \<longrightarrow> lastRoll lf < now' \<and> now' < 2 ^ 45) \<and>
     (case append_unlocked g h wr now now' l lf fs of Inl e \<Rightarrow> True | Inr p \<Rightarrow> spaced g h wr es p)"

text \<open>The inodes in the order they were written: the one the log started with and those made since.\<close>

definition log_inodes :: "nat \<Rightarrow> nat \<Rightarrow> filesystem \<Rightarrow> nat list" where
  "log_inodes i k fs = i # [k ..< fs_next fs]"

definition lf_inv :: "(int \<Rightarrow> tm) \<Rightarrow> string \<Rightarrow> nat \<Rightarrow> nat \<Rightarrow> nat set \<Rightarrow> string \<Rightarrow> LogFile \<times> filesystem \<Rightarrow> bool" where
  "lf_inv g h i k R w = (\<lambda>(lf, fs). 0 \<le> lastRoll lf \<and> i < k \<and> k \<le> fs_next fs \<and>
     (case lf_file lf of None \<Rightarrow> False | Some f \<Rightarrow> af_ino f = last (log_inodes i k fs)) \<and>
     (\<forall>t. lastRoll lf < t \<longrightarrow> t < 2 ^ 45 \<longrightarrow> fs_names fs (roll_name g h (lf_basename lf) t) = None) \<and>
     R \<subseteq> ran (fs_names fs) \<and> set (log_inodes i k fs) \<subseteq> ran (fs_names fs) \<and>
     concat (map (fs_data fs) (log_inodes i k fs)) = w)"

lemma distinct_log_inodes: "i < k \<Longrightarrow> distinct (log_inodes i k fs)"
  by (simp add: log_inodes_def)

lemma concat_map_upd_last:
  assumes "xs \<noteq> []" "distinct xs"
  shows "concat (map (d(last xs := d (last xs) @ l)) xs) = concat (map d xs) @ l"
proof -
  obtain ys y where xs: "xs = ys @ [y]" using assms(1) by (metis rev_exhaust)
  then have "concat (map (d(y := d y @ l)) ys) = concat (map d ys)"
    using assms(2) by (intro arg_cong [where f = concat] map_cong) auto
  with xs show ?thesis by simp
qed

text \<open>Appending to the open file.\<close>

lemma lf_inv_append:
  assumes "lf_inv g h i k R w (lf, fs)" "lf_file lf = Some f" "\<forall>j r. 0 < r \<longrightarrow> 0 < wr j r"
  shows "\<exists>f1 fs1. af_append wr l f fs = (f1, fs1) \<and> writtenBytes f1 = writtenBytes f + int (length l) \<and>
    (\<forall>c lfl n f2. af_ino f2 = af_ino f1 \<longrightarrow> lf_inv g h i k R (w @ l) (lf\<lparr>lf_file := Some f2, lf_count := c, lastFlush := n\<rparr>, fs1))"
proof -
  from af_append_spec [of wr l f fs] assms(3) have a: "af_append wr l f fs =
      (f\<lparr>writtenBytes := writtenBytes f + int (length l), af_unflushed := af_unflushed f + length l\<rparr>,
       fs\<lparr>fs_data := (fs_data fs)(af_ino f := fs_data fs (af_ino f) @ l)\<rparr>)" by auto
  let ?fs = "fs\<lparr>fs_data := (fs_data fs)(af_ino f := fs_data fs (af_ino f) @ l)\<rparr>"
  have inv: "i < k" "af_ino f = last (log_inodes i k fs)" "concat (map (fs_data fs) (log_inodes i k fs)) = w"
    using assms(1,2) by (auto simp: lf_inv_def)
  have same: "log_inodes i k ?fs = log_inodes i k fs" by (simp add: log_inodes_def)
  have "concat (map (fs_data ?fs) (log_inodes i k fs)) = w @ l"
    using concat_map_upd_last [OF _ distinct_log_inodes [OF inv(1)], of fs "fs_data fs" l] inv(2,3)
    by (simp add: log_inodes_def)
  with assms(1,2) inv same show ?thesis by (simp add: a lf_inv_def)
qed

lemma log_step_ok:
  assumes "gmtime_ok g" "\<forall>j r. 0 < r \<longrightarrow> 0 < wr j r" "lf_inv g h i k R w (lf, fs)"
    and roll: "rolls now l lf \<longrightarrow> lastRoll lf < now' \<and> now' < 2 ^ 45"
  shows "\<exists>p. append_unlocked g h wr now now' l lf fs = Inr p \<and> lf_inv g h i k R (w @ l) p"
proof -
  obtain f where f: "lf_file lf = Some f" using assms(3) by (auto simp: lf_inv_def split: option.splits)
  from lf_inv_append [OF assms(3) f assms(2), of l] obtain f1 fs1 where a: "af_append wr l f fs = (f1, fs1)"
    "writtenBytes f1 = writtenBytes f + int (length l)"
    "\<And>c n ff. af_ino ff = af_ino f1 \<Longrightarrow> lf_inv g h i k R (w @ l) (lf\<lparr>lf_file := Some ff, lf_count := c, lastFlush := n\<rparr>, fs1)"
    by auto
  have rolled: "lf_inv g h i k R (w @ l) (snd (rollFile g h True now' (lf\<lparr>lf_file := Some f1, lf_count := c\<rparr>) fs1))"
    if "rolls now l lf" for c
  proof -
    let ?lf = "lf\<lparr>lf_file := Some f1, lf_count := c, lastFlush := lastFlush lf\<rparr>"
    have inv: "lf_inv g h i k R (w @ l) (?lf, fs1)" by (rule a(3)) (rule refl)
    have t: "lastRoll lf < now'" "now' < 2 ^ 45" using roll that by auto
    from rollFile_later [OF assms(1), of ?lf now' fs1 h] inv t obtain lf' fs' where r:
      "rollFile g h True now' ?lf fs1 = (True, lf', fs')"
      "lf' = ?lf\<lparr>lastRoll := now', lastFlush := now', startOfPeriod := c_div now' kRollPerSeconds * kRollPerSeconds,
        lf_file := Some \<lparr>af_ino = fs_next fs1, writtenBytes = 0, af_unflushed = 0\<rparr>\<rparr>"
      "fs_data fs' = (fs_data fs1)(fs_next fs1 := [])" "fs_next fs' = Suc (fs_next fs1)"
      "ran (fs_names fs') = insert (fs_next fs1) (ran (fs_names fs1))"
      "\<forall>t. now' < t \<longrightarrow> t < 2 ^ 45 \<longrightarrow> fs_names fs' (roll_name g h (lf_basename lf) t) = None"
      by (auto simp: lf_inv_def)
    have k: "i < k" "k \<le> fs_next fs1" using inv by (auto simp: lf_inv_def)
    then have inodes: "log_inodes i k fs' = log_inodes i k fs1 @ [fs_next fs1]" by (simp add: log_inodes_def r(4))
    have "concat (map ((fs_data fs1)(fs_next fs1 := [])) (log_inodes i k fs1)) = concat (map (fs_data fs1) (log_inodes i k fs1))"
      using k by (intro arg_cong [where f = concat] map_cong) (auto simp: log_inodes_def)
    with inv k t r inodes show ?thesis by (auto simp: lf_inv_def)
  qed
  have ru: "rolls now l lf \<longleftrightarrow> writtenBytes f1 > rollSize lf \<or>
      lf_count lf + 1 \<ge> checkEveryN lf \<and> c_div now kRollPerSeconds * kRollPerSeconds \<noteq> startOfPeriod lf"
    by (simp add: rolls_def f a(2))
  have order: "lf\<lparr>lf_file := Some (af_flush f1), lf_count := 0, lastFlush := now\<rparr> =
      lf\<lparr>lf_count := 0, lastFlush := now, lf_file := Some (af_flush f1)\<rparr>" by simp
  show ?thesis
    using rolled [of "lf_count lf"] rolled [of 0] a(3) [where ff = f1 and c = "lf_count lf + 1" and n = "lastFlush lf"]
      a(3) [where ff = f1 and c = 0 and n = "lastFlush lf"] a(3) [where ff = "af_flush f1" and c = 0 and n = now, unfolded order] ru
    by (simp add: append_unlocked_def f a(1) Let_def af_flush_def del: split_paired_Ex)
qed

lemma log_run_ok:
  assumes "gmtime_ok g" "\<forall>j r. 0 < r \<longrightarrow> 0 < wr j r"
  shows "lf_inv g h i k R w p \<Longrightarrow> spaced g h wr es p \<Longrightarrow>
    \<exists>q. rfold (log_step g h wr) es p = Inr q \<and> lf_inv g h i k R (w @ concat (map (\<lambda>(_, _, l). l) es)) q"
proof (induction es arbitrary: p w)
  case (Cons e es)
  obtain now now' l lf fs where [simp]: "e = (now, now', l)" "p = (lf, fs)" by (metis prod.exhaust)
  from Cons.prems have inv: "lf_inv g h i k R w (lf, fs)" and roll: "rolls now l lf \<longrightarrow> lastRoll lf < now' \<and> now' < 2 ^ 45"
    by simp_all
  from log_step_ok [OF assms inv roll] obtain q where q: "append_unlocked g h wr now now' l lf fs = Inr q" "lf_inv g h i k R (w @ l) q"
    by blast
  with Cons.IH [OF q(2)] Cons.prems(2) show ?case by simp
qed simp

text \<open>The constructor opens a file that has a name; later rolls find their names free.\<close>

lemma LogFile_ctor_inv:
  assumes "0 < t" "ran (fs_names fs) \<subseteq> {..<fs_next fs}" "\<forall>t' > t. fs_names fs (roll_name g h base t') = None"
    and "LogFile_ctor g h base rollsz flushIv checkN t fs = (lf1, fs1)"
  shows "\<exists>f. lf_file lf1 = Some f \<and> af_unflushed f = 0 \<and>
    lf_inv g h (af_ino f) (fs_next fs1) (ran (fs_names fs1)) (fs_data fs1 (af_ino f)) (lf1, fs1)"
proof -
  let ?F = "log_name g h base t"
  obtain i fs2 where o: "c_fopen_append ?F fs = (i, fs2)" by (metis prod.exhaust)
  then have fs2: "i < fs_next fs2" "i \<in> ran (fs_names fs2)" "\<forall>t' > t. fs_names fs2 (roll_name g h base t') = None"
    using assms(2,3) log_name_not_roll [of g h base t, THEN not_sym]
    by (auto simp: c_fopen_append_def ran_def split: option.splits)
  have c: "lf_file lf1 = Some \<lparr>af_ino = i, writtenBytes = 0, af_unflushed = 0\<rparr>" "lastRoll lf1 = t" "lf_basename lf1 = base" "fs1 = fs2"
    using assms(1,4) o
    by (auto simp: LogFile_ctor_def rollFile_def getLogFileName_def AppendFile_ctor_def Let_def)
  then show ?thesis using fs2 assms(1) by (simp add: lf_inv_def log_inodes_def)
qed

section \<open>Properties\<close>

text \<open>
  Property C38. \<open>AppendFile::append\<close> ends whatever \<open>fwrite\<close> answers. It writes a prefix of the line, in order, after
  what the file held and touches no other file; the whole line if \<open>fwrite\<close> always takes something.
  If it does not, the rest is lost, and \<open>writtenBytes\<close> still counts the whole line.
\<close>

theorem append_file_writes:
  "\<exists>m \<le> length logline. snd (af_append wr logline f fs) =
     fs\<lparr>fs_data := (fs_data fs)(af_ino f := fs_data fs (af_ino f) @ take m logline)\<rparr> \<and>
   ((\<forall>j r. 0 < r \<longrightarrow> 0 < wr j r) \<longrightarrow> m = length logline) \<and>
   writtenBytes (fst (af_append wr logline f fs)) = writtenBytes f + int (length logline)"
  using af_append_spec [of wr logline f fs] by auto

theorem append_file_writes_witness:
  "fs_data (snd (af_append (\<lambda>k n. 1) ''abc'' \<lparr>af_ino = 0, writtenBytes = 0, af_unflushed = 0\<rparr>
     \<lparr>fs_names = Map.empty, fs_data = \<lambda>_. ''x'', fs_next = 1\<rparr>)) 0 = ''xabc''"
  using append_file_writes [of "''abc''" "\<lambda>k n. 1" "\<lparr>af_ino = 0, writtenBytes = 0, af_unflushed = 0\<rparr>"
    "\<lparr>fs_names = Map.empty, fs_data = \<lambda>_. ''x'', fs_next = 1\<rparr>"] by auto

text \<open>
  Property C37. The rolling log loses nothing as long as no two rolls fall into the same second: from the
  constructor on, any sequence of lines ends up, complete and in order, in the files written one
  after the other, the first being the one the log was opened on; all of them still have a name,
  and so has every file that had one before.
\<close>

theorem log_rolls_without_loss:
  assumes "gmtime_ok g" "\<forall>j r. 0 < r \<longrightarrow> 0 < wr j r" "0 < t" "t < 2 ^ 45"
    and "ran (fs_names fs) \<subseteq> {..<fs_next fs}" "\<forall>t' > t. fs_names fs (roll_name g h base t') = None"
    and "LogFile_ctor g h base rollsz flushIv checkN t fs = (lf1, fs1)" "spaced g h wr es (lf1, fs1)"
  shows "\<exists>f lf fs'. lf_file lf1 = Some f \<and> rfold (log_step g h wr) es (lf1, fs1) = Inr (lf, fs') \<and>
    concat (map (fs_data fs') (log_inodes (af_ino f) (fs_next fs1) fs')) = fs_data fs1 (af_ino f) @ concat (map (\<lambda>(_, _, l). l) es) \<and>
    set (log_inodes (af_ino f) (fs_next fs1) fs') \<subseteq> ran (fs_names fs') \<and> ran (fs_names fs1) \<subseteq> ran (fs_names fs')"
proof -
  obtain f where f: "lf_file lf1 = Some f"
    "lf_inv g h (af_ino f) (fs_next fs1) (ran (fs_names fs1)) (fs_data fs1 (af_ino f)) (lf1, fs1)"
    using LogFile_ctor_inv [OF assms(3,5-7)] by blast
  from log_run_ok [OF assms(1,2) f(2) assms(8)] obtain lf fs' where
    "rfold (log_step g h wr) es (lf1, fs1) = Inr (lf, fs')"
    "lf_inv g h (af_ino f) (fs_next fs1) (ran (fs_names fs1)) (fs_data fs1 (af_ino f) @ concat (map (\<lambda>(_, _, l). l) es)) (lf, fs')" by auto
  with f(1) show ?thesis by (auto simp: lf_inv_def)
qed

definition empty_fs :: filesystem where
  "empty_fs = \<lparr>fs_names = Map.empty, fs_data = \<lambda>_. [], fs_next = 0\<rparr>"

theorem log_rolls_without_loss_witness:
  "\<exists>lf1 fs1 lf fs'. LogFile_ctor utc_tm ''h'' ''b'' 3 3 1024 100 empty_fs = (lf1, fs1) \<and>
     rfold (log_step utc_tm ''h'' (\<lambda>k n. n)) [(101, 101, ''abcd''), (102, 102, ''e'')] (lf1, fs1) = Inr (lf, fs') \<and>
     concat (map (fs_data fs') (log_inodes 0 1 fs')) = ''abcde''"
proof -
  let ?g = utc_tm and ?es = "[(101, 101, ''abcd''), (102, 102, ''e'')]"
  obtain lf1 fs1 where c: "LogFile_ctor ?g ''h'' ''b'' 3 3 1024 100 empty_fs = (lf1, fs1)" by (metis prod.exhaust)
  then have 1: "lf_file lf1 = Some \<lparr>af_ino = 0, writtenBytes = 0, af_unflushed = 0\<rparr>" "lastRoll lf1 = 100" "fs_next fs1 = 1"
    "fs_data fs1 0 = []" "rollSize lf1 = 3" "lf_count lf1 = 0" "checkEveryN lf1 = 1024" "lf_basename lf1 = ''b''"
    by (auto simp: LogFile_ctor_def rollFile_def getLogFileName_def AppendFile_ctor_def c_fopen_append_def empty_fs_def Let_def)
  have sp: "spaced ?g ''h'' (\<lambda>k n. n) ?es (lf1, fs1)"
    by (simp add: rolls_def 1 append_unlocked_def af_append_def af_write_def append_loop.simps rollFile_def
        getLogFileName_def AppendFile_ctor_def Let_def split: prod.split)
  from log_rolls_without_loss [OF utc_tm_gmtime_ok _ _ _ _ _ c sp] 1 c show ?thesis
    by (auto simp: empty_fs_def)
qed

text \<open>
  Two rolls in the same second lose a file: the second one renames the file the first one opened to the
  same name as before, so that nothing refers any longer to the file that was rolled first, and no
  new file is opened.
\<close>

lemma rolls_in_one_second_lose:
  assumes "fs_names fs (log_name g h (lf_basename lf) now) = Some i"
    and "\<forall>n. fs_names fs n = Some i \<longrightarrow> n = log_name g h (lf_basename lf) now" "i < fs_next fs"
    and "rollFile g h True now lf fs = (True, lf1, fs1)"
    and "fs_names fs2 = fs_names fs1" "rollFile g h True now (lf1\<lparr>lf_file := f\<rparr>) fs2 = (ok, lf3, fs3)"
  shows "fs_names fs1 (roll_name g h (lf_basename lf) now) = Some i \<and> i \<notin> ran (fs_names fs3) \<and> \<not> ok \<and> lf_file lf3 = f"
proof -
  let ?F = "log_name g h (lf_basename lf) now" and ?N = "roll_name g h (lf_basename lf) now"
  have neq: "?F \<noteq> ?N" by (rule log_name_not_roll)
  from assms(4) have lf1: "lf_basename lf1 = lf_basename lf" "lastRoll lf1 = now"
    "fs_names fs1 = (fs_names fs)(?F := Some (fs_next fs), ?N := Some i)"
    using neq assms(1)
    by (auto simp: rollFile_def getLogFileName_def AppendFile_ctor_def c_fopen_append_def c_rename_def Let_def fun_upd_twist
        split: if_splits)
  then have "fs_names fs3 = (fs_names fs2)(?F := None, ?N := Some (fs_next fs))" "\<not> ok" "lf_file lf3 = f"
    using assms(5,6) neq by (auto simp: rollFile_def getLogFileName_def c_rename_def Let_def)
  with lf1(3) assms(2,3,5) show ?thesis by (auto simp: ran_def)
qed

lemma rolls_in_one_second_lose_witness:
  "\<exists>lf1 fs1 lf2 fs2 lf3 fs3 i. LogFile_ctor utc_tm ''h'' ''b'' 3 3 1024 100 empty_fs = (lf1, fs1) \<and>
     rollFile utc_tm ''h'' True 101 lf1 fs1 = (True, lf2, fs2) \<and>
     rollFile utc_tm ''h'' True 101 lf2 fs2 = (False, lf3, fs3) \<and> i \<in> ran (fs_names fs1) \<and> i \<notin> ran (fs_names fs3)"
proof -
  let ?g = utc_tm
  have c: "LogFile_ctor ?g ''h'' ''b'' 3 3 1024 100 empty_fs = (fst (LogFile_ctor ?g ''h'' ''b'' 3 3 1024 100 empty_fs),
      empty_fs\<lparr>fs_names := [log_name ?g ''h'' ''b'' 100 \<mapsto> 0], fs_next := 1\<rparr>)" (is "_ = (?lf, ?fs)")
    by (auto simp: LogFile_ctor_def rollFile_def getLogFileName_def AppendFile_ctor_def c_fopen_append_def empty_fs_def Let_def)
  have same: "log_name ?g ''h'' ''b'' 101 = log_name ?g ''h'' ''b'' 100"
    by (simp add: log_name_def ymd_text_def utc_tm_def fillHMS_def Let_def)
  have lf: "lf_basename ?lf = ''b''" "lastRoll ?lf = 100"
    by (simp_all add: LogFile_ctor_def rollFile_def getLogFileName_def AppendFile_ctor_def c_fopen_append_def empty_fs_def Let_def)
  then obtain lf2 fs2 where r: "rollFile ?g ''h'' True 101 ?lf ?fs = (True, lf2, fs2)"
    using rollFile_opens [of ?lf 101] by fastforce
  obtain ok lf3 fs3 where "rollFile ?g ''h'' True 101 (lf2\<lparr>lf_file := lf_file lf2\<rparr>) fs2 = (ok, lf3, fs3)" by (metis prod_cases3)
  note lose = rolls_in_one_second_lose [OF _ _ _ r refl this, of 0]
  have "\<not> ok \<and> 0 \<notin> ran (fs_names fs3)" using lose by (simp add: lf same split: if_splits)
  with c r \<open>rollFile ?g ''h'' True 101 (lf2\<lparr>lf_file := lf_file lf2\<rparr>) fs2 = (ok, lf3, fs3)\<close> show ?thesis by fastforce
qed

end
