(* ===== verification/NW_LogPipeline.thy ===== *)
theory NW_LogPipeline
  imports NW_AsyncLogging NW_LogFile
begin

text \<open>
  The asynchronous log with its file: \<^verbatim>\<open>networker/base/AsyncLogging.cpp\<close> composed with
  \<^verbatim>\<open>networker/base/LogFile.cpp\<close>.

  \<open>threadFunc\<close> owns a \<open>LogFile\<close> and calls \<open>append\<close> and \<open>flush\<close> on it outside the mutex, while
  other threads go on logging. A state is that of the front end, the log file, the file system, and
  the number of calls that have been made so far of those \<open>al_out\<close> lists. The writing thread
  goes on only when all of them are made; a logging thread may come at any time. Each call has the
  clock it reads as an argument.
\<close>

section \<open>The pipeline\<close>








section \<open>Invariant\<close>















section \<open>Properties\<close>





end
