(* ===== verification/NW_Logging.thy ===== *)
theory NW_Logging
  imports NW_LogStream NW_LogFile
begin

text \<open>
  \<^verbatim>\<open>networker/base/Logging.h\<close> and \<^verbatim>\<open>networker/base/Logging.cpp\<close>: the front end of the log. A \<open>Logger\<close>
  formats time, thread, level and error into its stream, the user adds the message, and the
  destructor finishes the line and hands it to the output function. The texts of \<^verbatim>\<open>networker/base/Timestamp.cpp\<close>
  are here as well.

  The thread-local variables \<open>t_lastSecond\<close>, \<open>t_time\<close> and \<open>t_tidString\<close> are arguments and results;
  \<open>gmtime_r\<close>, the text of \<open>strerror_r\<close> and the uninitialised bytes of the buffer are arguments.
\<close>

section \<open>Definitions\<close>

datatype LogLevel = TRACE | DEBUG | INFO | WARN | ERROR | FATAL

primrec LogLevelName :: "LogLevel \<Rightarrow> string" where
  "LogLevelName TRACE = ''TRACE ''"
| "LogLevelName DEBUG = ''DEBUG ''"
| "LogLevelName INFO = ''INFO  ''"
| "LogLevelName WARN = ''WARN  ''"
| "LogLevelName ERROR = ''ERROR ''"
| "LogLevelName FATAL = ''FATAL ''"

record SourceFile =
  sf_data :: string
  sf_size :: int

definition after_slash :: "string \<Rightarrow> string" where
  "after_slash name = rev (takeWhile (\<lambda>c. c \<noteq> CHR ''/'') (rev name))"

text \<open>The constructor for a literal takes the length of the directory as the size of the file name.\<close>

definition SourceFile_array :: "string \<Rightarrow> SourceFile" where
  "SourceFile_array arr =
     (if CHR ''/'' \<in> set arr
      then \<lparr>sf_data = after_slash arr, sf_size = int (length arr - length (after_slash arr))\<rparr>
      else \<lparr>sf_data = arr, sf_size = int (length arr)\<rparr>)"

definition SourceFile_cstr :: "string \<Rightarrow> SourceFile" where
  "SourceFile_cstr filename =
     (let d = (if CHR ''/'' \<in> set filename then after_slash filename else filename)
      in \<lparr>sf_data = d, sf_size = int (length d)\<rparr>)"

text \<open>\<open>T\<close>: a text whose length the caller states.\<close>

definition put_T :: "string \<Rightarrow> nat \<Rightarrow> FixedBuffer \<Rightarrow> FixedBuffer result" where
  "put_T str len b = c_assert (length (takeWhile (\<lambda>c. c \<noteq> NUL) str) = len) (fb_append (take len str) b)"

definition time_text :: "tm \<Rightarrow> string" where
  "time_text t = pad CHR '' '' 4 (dec_int (tm_year t + 1900)) @ d2 (tm_mon t + 1) @ d2 (tm_mday t) @ '' '' @
     d2 (tm_hour t) @ '':'' @ d2 (tm_min t) @ '':'' @ d2 (tm_sec t)"

text \<open>\<open>%0nd\<close>: the sign, if any, comes before the zeros.\<close>

definition zero_pad :: "nat \<Rightarrow> int \<Rightarrow> string" where
  "zero_pad n i = (if i < 0 then CHR ''-'' # pad CHR ''0'' (n - 1) (dec (nat (- i))) else pad CHR ''0'' n (dec (nat i)))"

text \<open>\<open>Timestamp\<close> as text; \<open>localtime_r\<close> is the function of the C library.\<close>

definition Timestamp_toString :: "int \<Rightarrow> string" where
  "Timestamp_toString us = c_snprintf 32 (dec_int (c_div us 1000000) @ ''.'' @ zero_pad 6 (c_mod us 1000000))"

definition toFormattedString :: "(int \<Rightarrow> tm) \<Rightarrow> bool \<Rightarrow> int \<Rightarrow> string" where
  "toFormattedString localtime_r showMicroseconds us =
     (let tm_time = localtime_r (c_div us 1000000) in
      c_snprintf 64 (if showMicroseconds then time_text tm_time @ ''.'' @ zero_pad 6 (c_mod us 1000000) else time_text tm_time))"

text \<open>\<open>gettimeofday\<close> answers seconds and microseconds.\<close>

definition Timestamp_now :: "int \<times> int \<Rightarrow> int" where
  "Timestamp_now tv = fst tv * 1000000 + snd tv"

definition formatTime :: "(int \<Rightarrow> tm) \<Rightarrow> tz_data option \<Rightarrow> int \<Rightarrow> int \<times> string \<Rightarrow> FixedBuffer
    \<Rightarrow> ((int \<times> string) \<times> FixedBuffer) result" where
  "formatTime gmtime zone us cache b =
     (let seconds = c_div us 1000000; microseconds = c_mod us 1000000; (t_lastSecond, t_time) = cache in
      rbind (if seconds \<noteq> t_lastSecond
             then rbind (if zone \<noteq> None then toLocalTime gmtime zone seconds else Inr (gmtime seconds)) (\<lambda>tm_time.
                    let t = time_text tm_time in c_assert (length t = 17) (Inr (seconds, c_snprintf 64 t)))
             else Inr (t_lastSecond, t_time)) (\<lambda>(t_lastSecond, t_time).
      let frac = ''.'' @ zero_pad 6 microseconds @ (if zone \<noteq> None then '' '' else ''Z '');
          n = (if zone \<noteq> None then 8 else 9) in
      rbind (Fmt_ctor frac) (\<lambda>us. c_assert (length us = n) (
        rbind (put_T t_time 17 b) (\<lambda>b1. rbind (put_T us n b1) (\<lambda>b2. Inr ((t_lastSecond, t_time), b2)))))))"

definition RecordBlock_ctor :: "(int \<Rightarrow> tm) \<Rightarrow> tz_data option \<Rightarrow> int \<Rightarrow> string \<Rightarrow> (int \<Rightarrow> string) \<Rightarrow> int \<times> string
    \<Rightarrow> LogLevel \<Rightarrow> int \<Rightarrow> FixedBuffer \<Rightarrow> ((int \<times> string) \<times> FixedBuffer) result" where
  "RecordBlock_ctor gmtime zone us tidString strerror cache level savedErrno b =
     rbind (formatTime gmtime zone us cache b) (\<lambda>(cache', b1).
     rbind (put_T tidString (length tidString) b1) (\<lambda>b2. rbind (put_char CHR '' '' b2) (\<lambda>b3.
     rbind (put_T (LogLevelName level) 6 b3) (\<lambda>b4.
     if savedErrno \<noteq> 0
     then rbind (rfold put_item [LCstr (Some (strerror savedErrno)), LCstr (Some '' (errno=''), LInt savedErrno, LCstr (Some '') '')] b4)
            (\<lambda>b5. Inr (cache', b5))
     else Inr (cache', b4)))))"

definition RecordBlock_finish :: "SourceFile \<Rightarrow> int \<Rightarrow> FixedBuffer \<Rightarrow> FixedBuffer result" where
  "RecordBlock_finish file line b =
     rfold put_item [LCstr (Some '' - ''), LCstr (Some (sf_data file)), LChar CHR '':'', LInt line, LChar CHR 0x0A] b"

text \<open>
  The destructor: what it does to the world, and how it ends. A fatal record is printed again with
  \<open>std::cout << buf.data()\<close>, which reads the array up to a NUL; then the output is flushed and the
  process aborts.
\<close>

datatype log_effect = GOutput string | CoutLine string | GFlush

definition cstr_at :: "string \<Rightarrow> string result" where
  "cstr_at mem = (if NUL \<in> set mem then Inr (takeWhile (\<lambda>c. c \<noteq> NUL) mem) else Inl OutOfBounds)"

definition Logger_dtor :: "LogLevel \<Rightarrow> SourceFile \<Rightarrow> int \<Rightarrow> FixedBuffer \<Rightarrow> (log_effect list \<times> unit result) result" where
  "Logger_dtor level file line b =
     rbind (RecordBlock_finish file line b) (\<lambda>b'.
       let out = GOutput (fb_text b') in
       Inr (if level = FATAL
            then case cstr_at (fdata b') of
                   Inl e \<Rightarrow> ([out], Inl e)
                 | Inr txt \<Rightarrow> ([out, CoutLine txt, GFlush], Inl Fatal)
            else ([out], Inr ())))"

text \<open>The constructor with a function name writes it before the message.\<close>

definition Logger_func_ctor :: "(int \<Rightarrow> tm) \<Rightarrow> tz_data option \<Rightarrow> int \<Rightarrow> string \<Rightarrow> (int \<Rightarrow> string) \<Rightarrow> int \<times> string
    \<Rightarrow> LogLevel \<Rightarrow> string \<Rightarrow> FixedBuffer \<Rightarrow> ((int \<times> string) \<times> FixedBuffer) result" where
  "Logger_func_ctor gmtime zone us tidString strerror cache level func b =
     rbind (RecordBlock_ctor gmtime zone us tidString strerror cache level 0 b) (\<lambda>(cache', b1).
       rbind (rfold put_item [LCstr (Some func), LChar CHR '' ''] b1) (\<lambda>b2. Inr (cache', b2)))"

text \<open>Which levels the macros let through under \<open>g_logLevel\<close>.\<close>

primrec level_num :: "LogLevel \<Rightarrow> nat" where
  "level_num TRACE = 0" | "level_num DEBUG = 1" | "level_num INFO = 2"
| "level_num WARN = 3" | "level_num ERROR = 4" | "level_num FATAL = 5"

definition log_enabled :: "LogLevel \<Rightarrow> LogLevel \<Rightarrow> bool" where
  "log_enabled g level \<longleftrightarrow> (if level \<in> {TRACE, DEBUG, INFO} then level_num g \<le> level_num level else True)"

text \<open>The level the program starts with; \<open>env\<close> says which variables are set.\<close>

definition initLogLevel :: "(string \<Rightarrow> bool) \<Rightarrow> LogLevel" where
  "initLogLevel env = (if env ''LOG_TRACE'' then TRACE else if env ''LOG_DEBUG'' then DEBUG else INFO)"

text \<open>A log statement: constructor, message, destructor. The result starts with the new \<open>t_lastSecond\<close> and \<open>t_time\<close>.\<close>

definition log_statement :: "(int \<Rightarrow> tm) \<Rightarrow> tz_data option \<Rightarrow> int \<Rightarrow> string \<Rightarrow> (int \<Rightarrow> string) \<Rightarrow> int \<times> string
    \<Rightarrow> LogLevel \<Rightarrow> int \<Rightarrow> SourceFile \<Rightarrow> int \<Rightarrow> log_item list \<Rightarrow> string
    \<Rightarrow> ((int \<times> string) \<times> log_effect list \<times> unit result) result" where
  "log_statement gmtime zone us tidString strerror cache level savedErrno file line msg uninit =
     rbind (RecordBlock_ctor gmtime zone us tidString strerror cache level savedErrno (FixedBuffer_ctor uninit))
       (\<lambda>(cache', b). rbind (rfold put_item msg b) (\<lambda>b1.
          rbind (Logger_dtor level file line b1) (\<lambda>r. Inr (cache', r))))"

section \<open>Lemmas\<close>

text \<open>The environment can only add records: whatever it says, those from \<open>INFO\<close> on are written.\<close>

lemma init_level_enables:
  "log_enabled (initLogLevel env) level \<longleftrightarrow>
     (case level of TRACE \<Rightarrow> env ''LOG_TRACE'' | DEBUG \<Rightarrow> env ''LOG_TRACE'' \<or> env ''LOG_DEBUG'' | _ \<Rightarrow> True)"
  by (cases level) (simp_all add: log_enabled_def initLogLevel_def)

lemma log_enabled_antimono: "level_num g \<le> level_num g' \<Longrightarrow> log_enabled g' level \<Longrightarrow> log_enabled g level"
  by (auto simp: log_enabled_def split: if_splits)

lemma put_T_item:
  assumes "NUL \<notin> set str" "len = length str"
  shows "put_T str len = put_item (LString str)"
proof -
  have "length (takeWhile (\<lambda>c. c \<noteq> NUL) str) = len" unfolding assms(2) by (rule arg_cong [where f = length], rule takeWhile_eq_all_conv [THEN iffD2]) (use assms(1) in blast)
  with assms(2) show ?thesis by (simp add: put_T_def put_string_def fun_eq_iff)
qed

lemma rfold_two: "rbind (rfold f xs b) (rfold f ys) = rfold f (xs @ ys) b"
  by (simp add: rfold_append)

lemma spec_put_fits:
  "length acc + length (concat (map item_text xs)) + 32 \<le> sz \<Longrightarrow> spec_put sz xs acc = acc @ concat (map item_text xs)"
proof (induction xs arbitrary: acc)
  case (Cons x xs)
  have "item_room x \<le> length (item_text x) + 32" by (cases x) simp_all
  with Cons show ?case by simp
qed simp

lemma length_concat_member: "x \<in> set xs \<Longrightarrow> length (f x) \<le> length (concat (map f xs))"
  by (induction xs) auto

lemma dec_no_NUL: "NUL \<notin> set (dec n)"
proof -
  have "\<forall>d \<in> set [0 ..< 10]. digit_char d \<noteq> NUL" by code_simp
  then have "NUL \<notin> digit_char ` {..<10}" by auto
  with dec_digits [of n] show ?thesis by blast
qed

lemma dec_int_no_NUL: "NUL \<notin> set (dec_int i)"
  using dec_no_NUL by (simp add: dec_int_def)

lemma pad_no_NUL: "c \<noteq> NUL \<Longrightarrow> NUL \<notin> set (pad c n (dec_int i))"
  using dec_int_no_NUL by (auto simp: pad_def)

lemma time_text_no_NUL: "NUL \<notin> set (time_text t)"
  using pad_no_NUL by (simp add: time_text_def)

lemma year4_length: "1000 \<le> i \<Longrightarrow> i < 10000 \<Longrightarrow> length (pad CHR '' '' 4 (dec_int i)) = 4"
  using dec_length [of "nat i" 3] by (simp add: pad_def dec_int_def nat_less_iff)

lemma time_text_length:
  assumes "tm_fields t" "1000 \<le> tm_year t + 1900" "tm_year t + 1900 < 10000"
  shows "length (time_text t) = 17"
proof -
  have "length (d2 (tm_mon t + 1)) = 2 \<and> length (d2 (tm_mday t)) = 2 \<and> length (d2 (tm_hour t)) = 2 \<and>
      length (d2 (tm_min t)) = 2 \<and> length (d2 (tm_sec t)) = 2"
    using assms(1) d2_text by (simp add: tm_fields_def)
  with year4_length [OF assms(2,3)] show ?thesis by (simp add: time_text_def)
qed

lemma micro_length: "0 \<le> i \<Longrightarrow> i < 1000000 \<Longrightarrow> length (pad CHR ''0'' 6 (dec_int i)) = 6"
  using dec_length [of "nat i" 5] by (simp add: pad_def dec_int_def nat_less_iff)

lemma zero_pad_nonneg: "0 \<le> i \<Longrightarrow> zero_pad n i = pad CHR ''0'' n (dec_int i)"
  by (simp add: zero_pad_def dec_int_def)

lemma dec_no_dot: "CHR ''.'' \<notin> set (dec n)"
proof -
  have "\<forall>d \<in> set [0 ..< 10]. digit_char d \<noteq> CHR ''.''" by code_simp
  then have "CHR ''.'' \<notin> digit_char ` {..<10}" by auto
  with dec_digits [of n] show ?thesis by blast
qed

section \<open>Timestamps as text\<close>

text \<open>The text of a time after 1970 is not cut and reads back as the time.\<close>

lemma timestamp_text_roundtrip:
  assumes "0 \<le> us" "us < 2 ^ 63"
  defines "str \<equiv> Timestamp_toString us"
  shows "us = int (read_nat (takeWhile (\<lambda>c. c \<noteq> CHR ''.'') str)) * 1000000 + int (read_nat (tl (dropWhile (\<lambda>c. c \<noteq> CHR ''.'') str)))"
proof -
  let ?s = "nat (us div 1000000)" and ?m = "nat (us mod 1000000)"
  have q: "c_div us 1000000 = us div 1000000" "c_mod us 1000000 = us mod 1000000"
    using assms(1) by (auto simp: c_div_def c_mod_def sgn_if minus_div_mult_eq_mod)
  have pos: "\<not> us div 1000000 < 0" "\<not> us mod 1000000 < 0" using assms(1) by (auto simp: not_less pos_imp_zdiv_nonneg_iff)
  have "us div 1000000 < 10 ^ 13" using assms(2) by simp
  then have "length (dec ?s) \<le> 13" using assms(1) dec_length [of ?s 12] by (simp add: nat_less_iff)
  moreover have "length (pad CHR ''0'' 6 (dec_int (us mod 1000000))) = 6" by (rule micro_length) simp_all
  ultimately have str: "str = dec ?s @ CHR ''.'' # pad CHR ''0'' 6 (dec ?m)"
    using pos by (simp add: str_def Timestamp_toString_def q zero_pad_def c_snprintf_def dec_int_def)
  have "takeWhile (\<lambda>c. c \<noteq> CHR ''.'') str = dec ?s" "dropWhile (\<lambda>c. c \<noteq> CHR ''.'') str = CHR ''.'' # pad CHR ''0'' 6 (dec ?m)"
    unfolding str using dec_no_dot [of ?s] by (auto simp: takeWhile_append dropWhile_append)
  moreover have "us = us div 1000000 * 1000000 + us mod 1000000" by simp
  ultimately show ?thesis using pos by (simp add: read_nat_dec pad_def read_nat_zeros)
qed

section \<open>A log line\<close>

text \<open>The items a record consists of, and the line it makes; \<open>z\<close> ends the time (\<open>Z\<close> for UTC).\<close>

definition zone_mark :: "tz_data option \<Rightarrow> string" where
  "zone_mark zone = (if zone \<noteq> None then '' '' else ''Z '')"

definition log_items :: "tm \<Rightarrow> string \<Rightarrow> int \<Rightarrow> string \<Rightarrow> (int \<Rightarrow> string) \<Rightarrow> LogLevel \<Rightarrow> int \<Rightarrow> log_item list" where
  "log_items t z micros tidString strerror level savedErrno =
     [LString (time_text t), LString (''.'' @ pad CHR ''0'' 6 (dec_int micros) @ z), LString tidString, LChar CHR '' '',
      LString (LogLevelName level)] @
     (if savedErrno \<noteq> 0
      then [LCstr (Some (strerror savedErrno)), LCstr (Some '' (errno=''), LInt savedErrno, LCstr (Some '') '')] else [])"

definition log_line :: "tm \<Rightarrow> string \<Rightarrow> int \<Rightarrow> string \<Rightarrow> (int \<Rightarrow> string) \<Rightarrow> LogLevel \<Rightarrow> int \<Rightarrow> SourceFile \<Rightarrow> int \<Rightarrow> log_item list \<Rightarrow> string" where
  "log_line t z micros tidString strerror level savedErrno file line msg =
     time_text t @ ''.'' @ pad CHR ''0'' 6 (dec_int micros) @ z @ tidString @ '' '' @ LogLevelName level @
     (if savedErrno \<noteq> 0 then strerror savedErrno @ '' (errno='' @ dec_int savedErrno @ '') '' else []) @
     concat (map item_text msg) @ '' - '' @ sf_data file @ '':'' @ dec_int line @ [CHR 0x0A]"

lemma log_level_name: "length (LogLevelName level) = 6 \<and> NUL \<notin> set (LogLevelName level)"
  by (cases level) simp_all

text \<open>The constructor of a record: its calls are stream operators.\<close>

lemma RecordBlock_ctor_items:
  assumes tm: "(if zone \<noteq> None then toLocalTime gmtime zone (us div 1000000) else Inr (gmtime (us div 1000000))) = Inr t"
    and "tm_fields t" "1000 \<le> tm_year t + 1900" "tm_year t + 1900 < 10000" "0 \<le> us" "NUL \<notin> set tidString"
    and cache: "us div 1000000 = fst cache \<longrightarrow> snd cache = time_text t"
  shows "RecordBlock_ctor gmtime zone us tidString strerror cache level savedErrno b =
    rbind (rfold put_item (log_items t (zone_mark zone) (us mod 1000000) tidString strerror level savedErrno) b)
      (\<lambda>b'. Inr ((us div 1000000, time_text t), b'))"
proof -
  let ?f = "''.'' @ pad CHR ''0'' 6 (dec_int (us mod 1000000)) @ zone_mark zone"
  let ?n = "if zone \<noteq> None then 8 else 9 :: nat"
  have t: "length (time_text t) = 17" by (rule time_text_length [OF assms(2-4)])
  then have snp: "c_snprintf 64 (time_text t) = time_text t" by (simp add: c_snprintf_def)
  have f: "length ?f = ?n" "NUL \<notin> set ?f" using micro_length [of "us mod 1000000"] pad_no_NUL by (simp_all add: zone_mark_def)
  from f(1) have "length ?f < 32" by (cases zone) simp_all
  then have fmt: "Fmt_ctor ?f = Inr ?f" unfolding Fmt_ctor_def c_snprintf_def by (simp del: append.simps append_assoc)
  have div: "c_div us 1000000 = us div 1000000" "c_mod us 1000000 = us mod 1000000"
    using assms(5) by (simp_all add: c_div_nonneg c_mod_nonneg)
  have micros: "zero_pad 6 (us mod 1000000) = pad CHR ''0'' 6 (dec_int (us mod 1000000))" by (simp add: zero_pad_nonneg)
  obtain sec last_text where c: "cache = (sec, last_text)" by fastforce
  have "formatTime gmtime zone us cache b =
      rbind (put_T (time_text t) 17 b) (\<lambda>b1. rbind (put_T ?f ?n b1) (\<lambda>b2. Inr ((us div 1000000, time_text t), b2)))"
    using cache t unfolding formatTime_def Let_def div micros zone_mark_def [symmetric] fmt rbind_Inr f(1) c tm
    by (auto simp: snp)
  moreover have "put_T (time_text t) 17 = put_item (LString (time_text t))" "put_T ?f ?n = put_item (LString ?f)"
    "put_T tidString (length tidString) = put_item (LString tidString)"
    "put_T (LogLevelName level) 6 = put_item (LString (LogLevelName level))"
    using t f time_text_no_NUL assms(6) log_level_name by (intro put_T_item; simp)+
  ultimately show ?thesis
    by (simp add: RecordBlock_ctor_def log_items_def rbind_assoc)
qed

text \<open>The array when everything fits and the last operator writes one character: the text, and behind it what was there.\<close>

lemma put_items_array:
  assumes "\<forall>x \<in> set (xs @ [LChar c]). item_ok x" and "length uninit < 2 ^ 31"
    and fits: "length (concat (map item_text (xs @ [LChar c]))) + 32 \<le> length uninit"
  defines "txt \<equiv> concat (map item_text (xs @ [LChar c]))"
  shows "\<exists>b. rfold put_item (xs @ [LChar c]) (FixedBuffer_ctor uninit) = Inr b \<and> fb_text b = txt \<and>
    fdata b = txt @ drop (length txt) uninit"
proof -
  let ?b0 = "FixedBuffer_ctor uninit" and ?pre = "concat (map item_text xs)"
  have b0: "fb_inv ?b0" "fb_text ?b0 = []" "fdata ?b0 = uninit"
    using assms(2) by (simp_all add: fb_inv_def fb_text_def FixedBuffer_ctor_def)
  obtain b1 where b1: "rfold put_item xs ?b0 = Inr b1" "fb_inv b1" "fb_text b1 = ?pre"
  proof -
    have "\<forall>x \<in> set xs. item_ok x" using assms(1) by simp
    from put_items_spec [OF b0(1) this] spec_put_fits [of "[]" xs "length uninit"] fits that show thesis
      by (auto simp: b0)
  qed
  obtain b2 where b2: "rfold put_item (xs @ [LChar c]) ?b0 = Inr b2" "fb_inv b2" "fb_text b2 = txt"
    using put_items_spec [OF b0(1) assms(1)] spec_put_fits [of "[]" "xs @ [LChar c]" "length uninit"] fits
    by (auto simp: b0 txt_def)
  have last: "put_char c b1 = Inr b2" using b1(1) b2(1) by (cases "put_char c b1") (simp_all add: rfold_append)
  have cur: "fcur b1 = length ?pre" "fcur b2 = length txt"
    using fb_text_length [OF b1(2)] fb_text_length [OF b2(2)] b1(3) b2(3) by simp_all
  then have suc: "fcur b2 = Suc (fcur b1)" by (simp add: txt_def)
  have "drop (fcur b2) (fdata b2) = drop (fcur b2) (fdata b1)"
    using fb_append_rest(2) last by (simp add: put_char_def)
  also have "\<dots> = drop (fcur b2) uninit" using put_items_rest [OF b1(1)] by (simp add: suc b0(3))
  finally have "fdata b2 = fb_text b2 @ drop (fcur b2) uninit" by (metis append_take_drop_id fb_text_def)
  with b2 cur(2) show ?thesis by simp
qed

text \<open>
  Property C40. A log statement writes the line it should: date, time and microseconds of its second
  in the zone of the log, or in UTC (marked \<open>Z\<close>) if none is set, the thread, the level, the error if
  there is one, the message, file and line, ended by a newline. This holds for a time of a year
  with four digits that the zone can convert, for a line that fits the buffer with 32 bytes to
  spare, and, if the second is that of the thread's last record, when the text cached for it is
  the one of the zone in force (true of every text this statement caches, until the zone is
  changed, see \<open>cached_time_ignores_zone\<close>). The lengths the code asserts are right. A record that
  is not fatal does nothing else; a fatal one is printed again from the array, which has no NUL
  behind the line: what follows are the uninitialised bytes up to the first NUL, or a read past the
  array if there is none; only then is the output flushed and the process aborted.
\<close>

theorem log_statement_line:
  assumes "(if zone \<noteq> None then toLocalTime gmtime zone (us div 1000000) else Inr (gmtime (us div 1000000))) = Inr t"
    and "tm_fields t" "1000 \<le> tm_year t + 1900" "tm_year t + 1900 < 10000" "0 \<le> us" "NUL \<notin> set tidString"
    and "us div 1000000 = fst cache \<longrightarrow> snd cache = time_text t"
    and "\<forall>x \<in> set msg. item_ok x" "- (2 ^ 31) \<le> savedErrno" "savedErrno < 2 ^ 31" "- (2 ^ 31) \<le> line" "line < 2 ^ 31"
    and "length uninit = kSmallBuffer"
    and "txt = log_line t (zone_mark zone) (us mod 1000000) tidString strerror level savedErrno file line msg"
    and "length txt + 32 \<le> kSmallBuffer"
  shows "log_statement gmtime zone us tidString strerror cache level savedErrno file line msg uninit =
    Inr ((us div 1000000, time_text t),
      if level \<noteq> FATAL then ([GOutput txt], Inr ())
      else if NUL \<in> set (txt @ drop (length txt) uninit)
      then ([GOutput txt, CoutLine (takeWhile (\<lambda>c. c \<noteq> NUL) (txt @ drop (length txt) uninit)), GFlush], Inl Fatal)
      else ([GOutput txt], Inl OutOfBounds))"
proof -
  let ?xs = "log_items t (zone_mark zone) (us mod 1000000) tidString strerror level savedErrno"
  let ?ys = "[LCstr (Some '' - ''), LCstr (Some (sf_data file)), LChar CHR '':'', LInt line]"
  let ?pre = "?xs @ msg @ ?ys" and ?nl = "LChar CHR 0x0A" and ?b = "FixedBuffer_ctor uninit"
  have whole: "concat (map item_text (?pre @ [?nl])) = txt" by (simp add: assms(14) log_items_def log_line_def)
  have size: "kSmallBuffer < 2 ^ 31" by (simp add: kSmallBuffer_def)
  have "item_ok x" if x: "x \<in> set (?pre @ [?nl])" for x
  proof (cases "x \<in> set msg")
    case False
    have "length (item_text x) \<le> length txt" using length_concat_member [OF x, of item_text] unfolding whole .
    with assms(15) size have "length (item_text x) < 2 ^ 31" by simp
    moreover from False x have "x = LInt savedErrno \<or> x = LInt line \<or> (\<exists>t. x = LString t) \<or> (\<exists>c. x = LChar c) \<or> (\<exists>t. x = LCstr t)"
      by (auto simp: log_items_def split: if_splits)
    ultimately show ?thesis using assms(9-12) by (elim disjE exE) simp_all
  qed (use assms(8) in blast)
  then obtain b' where b': "rfold put_item (?pre @ [?nl]) ?b = Inr b'" "fb_text b' = txt" "fdata b' = txt @ drop (length txt) uninit"
    using put_items_array [of ?pre "CHR 0x0A" uninit] assms(13,15) size unfolding whole by auto
  define fin where "fin b = (if level = FATAL
      then case cstr_at (fdata b) of Inl e \<Rightarrow> ([GOutput (fb_text b)], Inl e)
        | Inr txt \<Rightarrow> ([GOutput (fb_text b), CoutLine txt, GFlush], Inl Fatal)
      else ([GOutput (fb_text b)], Inr ()))" for b
  have "log_statement gmtime zone us tidString strerror cache level savedErrno file line msg uninit =
      rbind (rfold put_item (?pre @ [?nl]) ?b) (\<lambda>b. Inr ((us div 1000000, time_text t), fin b))"
    unfolding log_statement_def RecordBlock_ctor_items [OF assms(1-7)] Logger_dtor_def RecordBlock_finish_def Let_def fin_def
    by (simp only: rfold_append rbind_assoc rbind_Inr prod.case append_assoc append_Cons append_Nil)
  then show ?thesis using b' by (simp add: fin_def cstr_at_def)
qed

lemma log_time_zero:
  "tm_fields (utc_tm 0)" "tm_year (utc_tm 0) + 1900 = 1970"
proof -
  show "tm_fields (utc_tm 0)" using utc_tm_gmtime_ok by (simp add: gmtime_ok_def)
  have "jdn 1970 1 1 = 2440588" by (simp add: jdn_def c_div_def c_mod_def)
  then show "tm_year (utc_tm 0) + 1900 = 1970"
    using ymd_of_jdn [of 1970 1 1]
    by (simp add: utc_tm_def fillHMS_def Let_def kSecondsPerDay_def c_mod_def c_div_def cast32_def kJulianDayOf1970_01_01_def
        valid_ymd_def days_in_month_def)
qed

lemma log_time_zone:
  "\<exists>t. toLocalTime utc_tm (Some demo_zone) 0 = Inr t \<and> tm_fields t \<and> tm_year t + 1900 = 1970"
proof -
  have "tz_ok demo_zone" by (simp add: tz_ok_def demo_zone_def)
  moreover have "\<forall>l \<in> set (localtimes demo_zone). 0 \<le> arrbIdx l \<and> arrbIdx l \<le> int (length (abbrev demo_zone))"
    by (simp add: demo_zone_def)
  moreover have "gmtOffset (zone_at demo_zone 0) = 0" by (simp add: demo_zone_def zone_at_def)
  ultimately show ?thesis
    using toLocalTime_rule [of demo_zone utc_tm 0] log_time_zero by (fastforce simp: tm_fields_def)
qed

text \<open>A fatal record in a time zone, on a stack without a zero byte: written, then read past its end.\<close>

theorem log_statement_line_witness:
  "\<exists>t. toLocalTime utc_tm (Some demo_zone) 0 = Inr t \<and> tm_year t = 70 \<and>
     log_statement utc_tm (Some demo_zone) 5 ''  123'' (\<lambda>_. ''Success'') (-1, []) FATAL 0 (SourceFile_array ''net/a.cpp'') 7
       [LCstr (Some ''hi'')] (replicate kSmallBuffer CHR ''x'') =
     Inr ((0, time_text t),
       [GOutput (log_line t '' '' 5 ''  123'' (\<lambda>_. ''Success'') FATAL 0 (SourceFile_array ''net/a.cpp'') 7 [LCstr (Some ''hi'')])],
       Inl OutOfBounds)"
proof -
  obtain t where t: "toLocalTime utc_tm (Some demo_zone) 0 = Inr t" "tm_fields t" "tm_year t + 1900 = 1970"
    using log_time_zone by blast
  let ?line = "log_line t '' '' 5 ''  123'' (\<lambda>_. ''Success'') FATAL 0 (SourceFile_array ''net/a.cpp'') 7 [LCstr (Some ''hi'')]"
  have name: "sf_data (SourceFile_array ''net/a.cpp'') = ''a.cpp''" by code_simp
  have "length (time_text t) = 17" using t by (intro time_text_length) simp_all
  then have "length ?line + 32 \<le> kSmallBuffer"
    using micro_length [of 5] dec_int_length [of 7 0] by (simp add: log_line_def name kSmallBuffer_def)
  moreover have "NUL \<notin> set ?line"
    using time_text_no_NUL pad_no_NUL dec_int_no_NUL by (simp add: log_line_def name)
  moreover have "zone_mark (Some demo_zone) = '' ''" by (simp add: zone_mark_def)
  ultimately show ?thesis
    using log_statement_line [of "Some demo_zone" utc_tm 5 t "''  123''" "(-1, [])" "[LCstr (Some ''hi'')]" 0 7
        "replicate kSmallBuffer CHR ''x''" ?line "\<lambda>_. ''Success''" FATAL "SourceFile_array ''net/a.cpp''"] t
    by (intro exI [of _ t] conjI) (auto dest: in_set_dropD split: if_splits)
qed

text \<open>
  The constructor of \<open>SourceFile\<close> for literals records the length of the directory part, not of the file name: a
  stream operator that trusts it would read past the end of a short name.
\<close>

lemma source_file_size_wrong:
  "sf_size (SourceFile_array ''networker/a.cpp'') = 10 \<and> length (sf_data (SourceFile_array ''networker/a.cpp'')) = 5"
  by code_simp

text \<open>After a change of the time zone the cached time of the current second is still that of the old zone.\<close>

lemma cached_time_ignores_zone:
  assumes "c_div us 1000000 = fst cache" "formatTime gmtime zone us cache b = Inr (cache', b')"
  shows "cache' = cache"
  using assms by (auto simp: formatTime_def Let_def result_simps split: prod.splits)

end
