(* ===== verification/NW_Thread.thy ===== *)
theory NW_Thread
  imports NW_EventLoop NW_Sync NW_Text
begin

text \<open>
  \<^verbatim>\<open>networker/base/Thread.h\<close>, \<^verbatim>\<open>networker/base/Thread.cpp\<close>, \<^verbatim>\<open>networker/net/EventLoopThread.h\<close> and
  \<^verbatim>\<open>networker/net/EventLoopThread.cpp\<close>: threads, and a thread that runs an event loop.

  \<open>elt_step\<close> interleaves the thread that owns the \<open>EventLoopThread\<close> (its constructor, \<open>startLoop\<close> and
  destructor) with the thread it starts (\<open>runInThread\<close>, \<open>threadFunc\<close>), one critical section or
  statement at a time; the loop inside is the model of \<open>EventLoop\<close>, which any other thread may
  use while it lives. \<open>pthread_create\<close> may fail, a condition variable may wake spuriously.
\<close>

section \<open>Thread\<close>

record Thread =
  th_started :: bool
  th_joined :: bool
  th_tid :: int
  th_name :: string
  th_detached :: bool

definition setDefaultName :: "32 word \<Rightarrow> string \<Rightarrow> string \<times> 32 word" where
  "setDefaultName cnt n =
     (let (num, cnt') = incrementAndGet cnt
      in (if n = [] then c_snprintf 32 (''Thread'' @ dec_int (sint num)) else n, cnt'))"

definition Thread_ctor :: "32 word \<Rightarrow> string \<Rightarrow> Thread \<times> 32 word" where
  "Thread_ctor cnt n =
     (let (nm, cnt') = setDefaultName cnt n
      in (\<lparr>th_started = False, th_joined = False, th_tid = 0, th_name = nm, th_detached = False\<rparr>, cnt'))"

definition Thread_dtor :: "Thread \<Rightarrow> Thread" where
  "Thread_dtor th = (if th_started th \<and> \<not> th_joined th then th\<lparr>th_detached := True\<rparr> else th)"

text \<open>\<open>start\<close> up to the wait for the latch, and what follows it.\<close>

definition Thread_start :: "bool \<Rightarrow> Thread \<Rightarrow> Thread result" where
  "Thread_start created th = c_assert (\<not> th_started th) (Inr (th\<lparr>th_started := created\<rparr>))"

definition Thread_start_end :: "Thread \<Rightarrow> Thread result" where
  "Thread_start_end th = c_assert (th_tid th > 0) (Inr th)"

definition Thread_join :: "Thread \<Rightarrow> Thread result" where
  "Thread_join th = c_assert (th_started th) (c_assert (\<not> th_joined th) (Inr (th\<lparr>th_joined := True\<rparr>)))"

text \<open>
  \<open>ThreadData::runInThread\<close> in the new thread: what its function does, the name the thread has
  afterwards, and whether the process goes on.
\<close>

datatype func_outcome = Returns | ThrowsException | ThrowsStd | ThrowsOther

definition runInThread :: "func_outcome \<Rightarrow> string \<times> unit result" where
  "runInThread res =
     (case res of Returns \<Rightarrow> (''finished'', Inr ()) | _ \<Rightarrow> (''crashed'', Inl Fatal))"

definition thread_name :: "string \<Rightarrow> string" where
  "thread_name nm = (if nm = [] then ''Thread'' else nm)"

section \<open>EventLoopThread\<close>

datatype main_pc = MNew | MLatch | MCheck | MSleep | MOwner | MQuit | MJoin | MGone

datatype child_pc = CNone | CBegin | CInit | CSet | CEnter | CLoop | CClear | CDestroy | CEnd

record EventLoopThread =
  loop_ptr :: bool
  exiting :: bool
  elt_thread :: Thread
  elt_latch :: nat
  elt_loop :: el
  loop_alive :: bool
  main_pc :: main_pc
  child_pc :: child_pc

definition EventLoopThread_ctor :: "32 word \<Rightarrow> string \<Rightarrow> EventLoopThread" where
  "EventLoopThread_ctor cnt nm = \<lparr>loop_ptr = False, exiting = False, elt_thread = fst (Thread_ctor cnt nm),
     elt_latch = 1, elt_loop = EventLoop_ctor False, loop_alive = False, main_pc = MNew, child_pc = CNone\<rparr>"

text \<open>\<open>startLoop\<close>: starting the thread, the end of \<open>Thread::start\<close>, the test under the mutex.\<close>

definition startLoop :: "bool \<Rightarrow> EventLoopThread \<Rightarrow> EventLoopThread result" where
  "startLoop created s =
     c_assert (\<not> th_started (elt_thread s)) (
       rbind (Thread_start created (elt_thread s)) (\<lambda>th.
         Inr (if created then s\<lparr>elt_thread := th, child_pc := CBegin, main_pc := MLatch\<rparr>
              else s\<lparr>elt_thread := th, main_pc := MCheck\<rparr>)))"

definition startLoop_latched :: "EventLoopThread \<Rightarrow> EventLoopThread result" where
  "startLoop_latched s = rbind (Thread_start_end (elt_thread s)) (\<lambda>th. Inr (s\<lparr>elt_thread := th, main_pc := MCheck\<rparr>))"

definition startLoop_check :: "EventLoopThread \<Rightarrow> EventLoopThread" where
  "startLoop_check s = s\<lparr>main_pc := (if loop_ptr s then MOwner else MSleep)\<rparr>"

text \<open>\<open>~EventLoopThread\<close>: the test of \<open>loop_\<close>, \<open>loop_->quit()\<close> on what it is then, \<open>join\<close>.\<close>

definition elt_dtor_test :: "EventLoopThread \<Rightarrow> EventLoopThread" where
  "elt_dtor_test s = s\<lparr>exiting := True, main_pc := (if loop_ptr s then MQuit else MGone)\<rparr>"

definition elt_dtor_quit :: "EventLoopThread \<Rightarrow> EventLoopThread result" where
  "elt_dtor_quit s =
     (if loop_ptr s \<and> loop_alive s then Inr (s\<lparr>elt_loop := el_quit False (elt_loop s), main_pc := MJoin\<rparr>)
      else Inl UseAfterFree)"

definition elt_dtor_join :: "EventLoopThread \<Rightarrow> EventLoopThread result" where
  "elt_dtor_join s = rbind (Thread_join (elt_thread s)) (\<lambda>th. Inr (s\<lparr>elt_thread := th, main_pc := MGone\<rparr>))"

text \<open>\<open>threadFunc\<close>: the loop is published and one waiter is woken; at the end it is withdrawn.\<close>

definition publish_loop :: "EventLoopThread \<Rightarrow> EventLoopThread" where
  "publish_loop s = s\<lparr>loop_ptr := True, main_pc := (if main_pc s = MSleep then MCheck else main_pc s), child_pc := CEnter\<rparr>"

definition withdraw_loop :: "EventLoopThread \<Rightarrow> EventLoopThread" where
  "withdraw_loop s = s\<lparr>loop_ptr := False, child_pc := CDestroy\<rparr>"

inductive elt_step :: "EventLoopThread \<Rightarrow> EventLoopThread \<Rightarrow> bool" where
  \<comment> \<open>the owner\<close>
  start: "main_pc s = MNew \<Longrightarrow> startLoop created s = Inr t \<Longrightarrow> elt_step s t"
| latched: "main_pc s = MLatch \<Longrightarrow> elt_latch s = 0 \<Longrightarrow> startLoop_latched s = Inr t \<Longrightarrow> elt_step s t"
| check: "main_pc s = MCheck \<Longrightarrow> elt_step s (startLoop_check s)"
| spurious: "main_pc s = MSleep \<Longrightarrow> elt_step s (s\<lparr>main_pc := MCheck\<rparr>)"
| dtor: "main_pc s = MOwner \<Longrightarrow> elt_step s (elt_dtor_test s)"
| dtor_quit: "main_pc s = MQuit \<Longrightarrow> elt_dtor_quit s = Inr t \<Longrightarrow> elt_step s t"
| dtor_join: "main_pc s = MJoin \<Longrightarrow> child_pc s = CEnd \<Longrightarrow> elt_dtor_join s = Inr t \<Longrightarrow> elt_step s t"
  \<comment> \<open>the thread\<close>
| begin_thread: "child_pc s = CBegin \<Longrightarrow> 0 < tid \<Longrightarrow>
    elt_step s (s\<lparr>elt_thread := (elt_thread s)\<lparr>th_tid := tid\<rparr>, elt_latch := 0, child_pc := CInit\<rparr>)"
| init_loop: "child_pc s = CInit \<Longrightarrow> el_step\<^sup>*\<^sup>* (EventLoop_ctor garbage) l \<Longrightarrow> el_pc l = PcIdle \<Longrightarrow>
    elt_step s (s\<lparr>elt_loop := l, loop_alive := True, child_pc := CSet\<rparr>)"
| publish: "child_pc s = CSet \<Longrightarrow> elt_step s (publish_loop s)"
| enter: "child_pc s = CEnter \<Longrightarrow> el_step (elt_loop s) l \<Longrightarrow> \<not> looping (elt_loop s) \<Longrightarrow> looping l \<Longrightarrow>
    elt_step s (s\<lparr>elt_loop := l, child_pc := CLoop\<rparr>)"
| run: "child_pc s = CLoop \<Longrightarrow> el_step (elt_loop s) l \<Longrightarrow> looping l \<Longrightarrow> elt_step s (s\<lparr>elt_loop := l\<rparr>)"
| leave: "child_pc s = CLoop \<Longrightarrow> el_step (elt_loop s) l \<Longrightarrow> \<not> looping l \<Longrightarrow>
    elt_step s (s\<lparr>elt_loop := l, child_pc := CClear\<rparr>)"
| withdraw: "child_pc s = CClear \<Longrightarrow> elt_step s (withdraw_loop s)"
| destroy: "child_pc s = CDestroy \<Longrightarrow> elt_step s (s\<lparr>loop_alive := False, child_pc := CEnd\<rparr>)"
  \<comment> \<open>other threads use the loop\<close>
| other: "loop_alive s \<Longrightarrow> el_step (elt_loop s) l \<Longrightarrow> looping l = looping (elt_loop s) \<Longrightarrow> elt_step s (s\<lparr>elt_loop := l\<rparr>)"

definition elt_init :: "EventLoopThread \<Rightarrow> bool" where
  "elt_init s \<longleftrightarrow> (\<exists>n nm. s = EventLoopThread_ctor n nm)"

section \<open>Invariant\<close>

definition elt_inv :: "EventLoopThread \<Rightarrow> bool" where
  "elt_inv s \<longleftrightarrow>
     (loop_ptr s \<longleftrightarrow> child_pc s \<in> {CEnter, CLoop, CClear}) \<and>
     (loop_alive s \<longleftrightarrow> child_pc s \<in> {CSet, CEnter, CLoop, CClear, CDestroy}) \<and>
     (looping (elt_loop s) \<longleftrightarrow> child_pc s = CLoop) \<and>
     (child_pc s = CNone \<longleftrightarrow> \<not> th_started (elt_thread s)) \<and>
     (elt_latch s = 0 \<longleftrightarrow> child_pc s \<notin> {CNone, CBegin}) \<and> (elt_latch s = 0 \<longrightarrow> 0 < th_tid (elt_thread s)) \<and>
     (main_pc s \<in> {MLatch, MOwner, MQuit, MJoin, MGone} \<longrightarrow> th_started (elt_thread s)) \<and>
     (main_pc s = MNew \<longrightarrow> \<not> th_started (elt_thread s)) \<and>
     (main_pc s \<in> {MOwner, MQuit, MJoin, MGone} \<longrightarrow> child_pc s \<in> {CEnter, CLoop, CClear, CDestroy, CEnd}) \<and>
     (main_pc s = MSleep \<longrightarrow> \<not> loop_ptr s) \<and> (main_pc s \<noteq> MGone \<longrightarrow> \<not> th_joined (elt_thread s))"

lemma el_idle_not_looping: "el_step\<^sup>*\<^sup>* (EventLoop_ctor garbage) l \<Longrightarrow> el_pc l = PcIdle \<Longrightarrow> \<not> looping l"
  using el.reachable_inv [of "EventLoop_ctor garbage" l] by (auto simp: el_inv_def)

lemma Thread_ctor_simps [simp]:
  "\<not> th_started (fst (Thread_ctor n nm))" "\<not> th_joined (fst (Thread_ctor n nm))" "th_tid (fst (Thread_ctor n nm)) = 0"
  by (simp_all add: Thread_ctor_def split: prod.split)

lemma elt_init_inv: "elt_init s \<Longrightarrow> elt_inv s"
  by (auto simp: elt_init_def elt_inv_def EventLoopThread_ctor_def EventLoop_ctor_def)

lemma elt_step_inv: "elt_inv s \<Longrightarrow> elt_step s t \<Longrightarrow> elt_inv t"
proof -
  assume inv: "elt_inv s" and "elt_step s t"
  from this(2) show "elt_inv t"
  proof cases
    case (start created)
    then have "t = (let th = (elt_thread s)\<lparr>th_started := created\<rparr> in if created then s\<lparr>elt_thread := th, child_pc := CBegin, main_pc := MLatch\<rparr>
        else s\<lparr>elt_thread := th, main_pc := MCheck\<rparr>)" by (auto simp: startLoop_def Thread_start_def result_simps)
    with start(1) inv show ?thesis by (cases created; cases "child_pc s"; simp add: elt_inv_def)
  next
    case latched
    then have "t = s\<lparr>main_pc := MCheck\<rparr>" by (auto simp: startLoop_latched_def Thread_start_end_def result_simps)
    with latched(1) inv show ?thesis by (cases "child_pc s"; simp add: elt_inv_def)
  next
    case check
    with inv show ?thesis by (cases "child_pc s"; simp add: elt_inv_def startLoop_check_def)
  next
    case spurious
    have "elt_inv (s\<lparr>main_pc := MCheck\<rparr>)" using inv spurious(2) by (cases "child_pc s"; simp add: elt_inv_def)
    with spurious(1) show ?thesis by blast
  next
    case dtor
    with inv show ?thesis by (cases "child_pc s"; simp add: elt_inv_def elt_dtor_test_def)
  next
    case dtor_quit
    then have "t = s\<lparr>elt_loop := el_quit False (elt_loop s), main_pc := MJoin\<rparr>" by (auto simp: elt_dtor_quit_def split: if_splits)
    with dtor_quit(1) inv show ?thesis by (cases "child_pc s"; simp add: elt_inv_def el_quit_def el_wakeup_def Let_def)
  next
    case dtor_join
    then have "t = s\<lparr>elt_thread := (elt_thread s)\<lparr>th_joined := True\<rparr>, main_pc := MGone\<rparr>"
      by (auto simp: elt_dtor_join_def Thread_join_def result_simps)
    with dtor_join(1,2) inv show ?thesis by (simp add: elt_inv_def)
  next
    case begin_thread
    with inv show ?thesis by (cases "child_pc s"; simp add: elt_inv_def)
  next
    case init_loop
    with inv show ?thesis by (cases "child_pc s"; simp add: elt_inv_def el_idle_not_looping)
  next
    case publish
    with inv show ?thesis by (cases "child_pc s"; simp add: elt_inv_def publish_loop_def)
  next
    case enter
    with inv show ?thesis by (cases "child_pc s"; simp add: elt_inv_def)
  next
    case run
    with inv show ?thesis by (cases "child_pc s"; simp add: elt_inv_def)
  next
    case leave
    with inv show ?thesis by (cases "child_pc s"; simp add: elt_inv_def)
  next
    case withdraw
    with inv show ?thesis by (cases "child_pc s"; simp add: elt_inv_def withdraw_loop_def)
  next
    case destroy
    with inv show ?thesis by (cases "child_pc s"; simp add: elt_inv_def)
  next
    case other
    with inv show ?thesis by (cases "child_pc s"; simp add: elt_inv_def)
  qed
qed

interpretation elt: transition_system elt_init elt_step elt_inv
  using elt_init_inv elt_step_inv by unfold_locales

lemma elt_inv_published:
  "elt_inv s \<Longrightarrow> loop_ptr s \<Longrightarrow> loop_alive s \<and> elt_latch s = 0 \<and> 0 < th_tid (elt_thread s) \<and> main_pc s \<noteq> MSleep"
  by (cases "child_pc s"; simp add: elt_inv_def)

lemma elt_inv_unpublished:
  "elt_inv s \<Longrightarrow> \<not> loop_ptr s \<Longrightarrow> th_started (elt_thread s) \<Longrightarrow> child_pc s \<notin> {CDestroy, CEnd} \<Longrightarrow>
    child_pc s \<in> {CBegin, CInit, CSet}"
  by (cases "child_pc s"; simp add: elt_inv_def)

section \<open>Properties\<close>

text \<open>Running a state on: each of these is one step.\<close>

lemma elt_go:
  assumes "elt_step s t" "\<exists>u. elt_step\<^sup>*\<^sup>* t u \<and> P u"
  shows "\<exists>u. elt_step\<^sup>*\<^sup>* s u \<and> P u"
  using assms by (meson converse_rtranclp_into_rtranclp)

lemma elt_now: "P s \<Longrightarrow> \<exists>u. elt_step\<^sup>*\<^sup>* s u \<and> P u"
  by blast

text \<open>Once the loop is published the owner finds it.\<close>

lemma owner_finds_loop:
  assumes "elt_inv s" "loop_ptr s" "main_pc s \<in> {MLatch, MCheck}"
  shows "\<exists>t. elt_step\<^sup>*\<^sup>* s t \<and> main_pc t = MOwner \<and> loop_ptr t \<and> loop_alive t"
proof -
  have check: "\<exists>t. elt_step\<^sup>*\<^sup>* u t \<and> main_pc t = MOwner \<and> loop_ptr t \<and> loop_alive t"
    if "main_pc u = MCheck" "loop_ptr u" "loop_alive u" for u
    using that by (intro elt_go [OF elt_step.check elt_now]) (simp_all add: startLoop_check_def)
  have alive: "loop_alive s" "elt_latch s = 0" "0 < th_tid (elt_thread s)" using elt_inv_published [OF assms(1,2)] by simp_all
  show ?thesis
  proof (cases "main_pc s = MLatch")
    case True
    with alive have "elt_step s (s\<lparr>main_pc := MCheck\<rparr>)"
      by (intro elt_step.latched) (simp_all add: startLoop_latched_def Thread_start_end_def)
    from elt_go [OF this check] show ?thesis using assms(2) alive by simp
  next
    case False
    with assms(3) check [of s] alive assms(2) show ?thesis by simp
  qed
qed

text \<open>The thread always gets to publish its loop, and wakes the owner up if it sleeps.\<close>

lemma loop_gets_published:
  assumes "elt_inv s" "main_pc s \<in> {MLatch, MCheck, MSleep}" "child_pc s \<in> {CBegin, CInit, CSet}"
  shows "\<exists>t. elt_step\<^sup>*\<^sup>* s t \<and> loop_ptr t \<and> main_pc t \<in> {MLatch, MCheck}"
proof -
  let ?P = "\<lambda>t. loop_ptr t \<and> main_pc t \<in> {MLatch, MCheck}"
  have set: "\<exists>t. elt_step\<^sup>*\<^sup>* u t \<and> ?P t" if "child_pc u = CSet" "main_pc u \<in> {MLatch, MCheck, MSleep}" for u
    using that by (intro elt_go [OF elt_step.publish elt_now]) (auto simp: publish_loop_def)
  have init: "\<exists>t. elt_step\<^sup>*\<^sup>* u t \<and> ?P t" if "child_pc u = CInit" "main_pc u \<in> {MLatch, MCheck, MSleep}" for u
    using that by (intro elt_go [OF elt_step.init_loop [of u False "EventLoop_ctor False"] set]) (auto simp: EventLoop_ctor_def)
  have "\<exists>t. elt_step\<^sup>*\<^sup>* s t \<and> ?P t" if "child_pc s = CBegin"
    using that assms(2) by (intro elt_go [OF elt_step.begin_thread [of s 1] init]) auto
  with set [of s] init [of s] assms(2,3) show ?thesis by auto
qed

text \<open>
  Property C39. \<open>startLoop\<close> hands out a live loop and misses no wake-up: in every interleaving of the owner, the
  thread it started and the users of the loop, no assertion fails, the owner never sleeps while a
  loop is published, a published loop is alive, and as long as the thread has not left its loop
  the owner can get it: whatever the point the two threads are at, they run on to the return of
  \<open>startLoop\<close> with a published loop.
\<close>

theorem startLoop_returns_live_loop:
  assumes "elt_init i" "elt_step\<^sup>*\<^sup>* i s"
  shows "(loop_ptr s \<longrightarrow> loop_alive s) \<and> (main_pc s = MSleep \<longrightarrow> \<not> loop_ptr s) \<and>
    (main_pc s = MNew \<longrightarrow> (\<forall>created. isOK (startLoop created s))) \<and>
    (main_pc s = MLatch \<and> elt_latch s = 0 \<longrightarrow> isOK (startLoop_latched s)) \<and> (main_pc s = MJoin \<longrightarrow> isOK (elt_dtor_join s)) \<and>
    (main_pc s \<in> {MLatch, MCheck, MSleep} \<and> th_started (elt_thread s) \<and> child_pc s \<notin> {CDestroy, CEnd} \<longrightarrow>
      (\<exists>t. elt_step\<^sup>*\<^sup>* s t \<and> main_pc t = MOwner \<and> loop_ptr t \<and> loop_alive t))"
proof -
  have inv: "elt_inv s" using elt.reachable_inv [OF assms] .
  have "\<exists>t. elt_step\<^sup>*\<^sup>* s t \<and> main_pc t = MOwner \<and> loop_ptr t \<and> loop_alive t"
    if m: "main_pc s \<in> {MLatch, MCheck, MSleep}" "th_started (elt_thread s)" "child_pc s \<notin> {CDestroy, CEnd}"
  proof (cases "loop_ptr s")
    case True
    then have "main_pc s \<noteq> MSleep" using elt_inv_published [OF inv] by blast
    with owner_finds_loop [OF inv True] m(1) show ?thesis by blast
  next
    case False
    from loop_gets_published [OF inv m(1) elt_inv_unpublished [OF inv this m(2,3)]] obtain t where t: "elt_step\<^sup>*\<^sup>* s t" "loop_ptr t" "main_pc t \<in> {MLatch, MCheck}"
      by blast
    with owner_finds_loop [OF elt.steps_inv [OF t(1) inv] t(2,3)] show ?thesis by (meson rtranclp_trans)
  qed
  moreover have "isOK (startLoop created s)" if "main_pc s = MNew" for created
    using inv that by (simp add: elt_inv_def startLoop_def Thread_start_def)
  moreover have "isOK (startLoop_latched s)" if "elt_latch s = 0"
    using inv that by (simp add: elt_inv_def startLoop_latched_def Thread_start_end_def)
  moreover have "isOK (elt_dtor_join s)" if "main_pc s = MJoin"
    using inv that by (simp add: elt_inv_def elt_dtor_join_def Thread_join_def)
  ultimately show ?thesis using elt_inv_published [OF inv] by blast
qed

theorem startLoop_returns_live_loop_witness:
  "isOK (startLoop True (EventLoopThread_ctor 0 ''io'')) \<and> \<not> loop_ptr (EventLoopThread_ctor 0 ''io'')"
proof -
  let ?i = "EventLoopThread_ctor 0 ''io''"
  have "elt_init ?i" by (auto simp: elt_init_def)
  with startLoop_returns_live_loop [of ?i ?i] show ?thesis by (simp add: EventLoopThread_ctor_def)
qed

text \<open>
  The destructor may hang: \<open>startLoop\<close> returns before the thread has entered \<open>loop()\<close>, which begins by
  clearing \<open>quit_\<close>; a \<open>quit\<close> that comes in between is forgotten and the owner joins a running loop.
\<close>

lemma dtor_quit_lost:
  "\<exists>s. elt_step\<^sup>*\<^sup>* (EventLoopThread_ctor n nm) s \<and> main_pc s = MJoin \<and> child_pc s = CLoop \<and>
     looping (elt_loop s) \<and> \<not> quit (elt_loop s) \<and> pendingFunctors (elt_loop s) = []"
proof -
  let ?i = "EventLoopThread_ctor n nm"
  let ?P = "\<lambda>s. main_pc s = MJoin \<and> child_pc s = CLoop \<and> looping (elt_loop s) \<and> \<not> quit (elt_loop s) \<and>
    pendingFunctors (elt_loop s) = []"
  have p5: "\<exists>u. elt_step\<^sup>*\<^sup>* s u \<and> ?P u" if "main_pc s = MJoin" "child_pc s = CEnter" "el_pc (elt_loop s) = PcIdle"
    "\<not> looping (elt_loop s)" "pendingFunctors (elt_loop s) = []" for s
    using that by (intro elt_go [OF elt_step.enter [OF _ el_step.loop_start] elt_now]) auto
  have p4: "\<exists>u. elt_step\<^sup>*\<^sup>* s u \<and> ?P u" if "main_pc s = MQuit" "child_pc s = CEnter" "loop_ptr s" "loop_alive s"
    "elt_loop s = EventLoop_ctor False" for s
  proof (rule elt_go)
    show "elt_step s (s\<lparr>elt_loop := el_quit False (elt_loop s), main_pc := MJoin\<rparr>)"
      using that by (intro elt_step.dtor_quit) (simp_all add: elt_dtor_quit_def)
  qed (rule p5, use that in \<open>simp_all add: el_quit_def el_wakeup_def EventLoop_ctor_def\<close>)
  have p4': "\<exists>u. elt_step\<^sup>*\<^sup>* s u \<and> ?P u" if "main_pc s = MCheck" "child_pc s = CEnter" "loop_ptr s" "loop_alive s"
    "elt_loop s = EventLoop_ctor False" for s
    using that by (intro elt_go [OF elt_step.check elt_go [OF elt_step.dtor p4]]) (simp_all add: startLoop_check_def elt_dtor_test_def)
  have p3: "\<exists>u. elt_step\<^sup>*\<^sup>* s u \<and> ?P u" if "main_pc s = MCheck" "child_pc s = CInit" for s
    using that
    by (intro elt_go [OF elt_step.init_loop [of s False "EventLoop_ctor False"] elt_go [OF elt_step.publish p4']])
      (simp_all add: publish_loop_def EventLoop_ctor_def)
  have p2: "\<exists>u. elt_step\<^sup>*\<^sup>* s u \<and> ?P u" if "main_pc s = MLatch" "child_pc s = CInit" "elt_latch s = 0" "0 < th_tid (elt_thread s)" for s
  proof (rule elt_go)
    show "elt_step s (s\<lparr>main_pc := MCheck\<rparr>)"
      using that by (intro elt_step.latched) (simp_all add: startLoop_latched_def Thread_start_end_def)
  qed (rule p3, use that in simp_all)
  let ?s1 = "?i\<lparr>elt_thread := (elt_thread ?i)\<lparr>th_started := True\<rparr>, child_pc := CBegin, main_pc := MLatch\<rparr>"
  have "elt_step ?i ?s1"
    by (rule elt_step.start [of _ True]) (simp_all add: startLoop_def Thread_start_def EventLoopThread_ctor_def)
  then show ?thesis
    by (rule elt_go) (rule elt_go [OF elt_step.begin_thread [of _ 1] p2], simp_all)
qed

text \<open>If \<open>pthread_create\<close> fails, \<open>startLoop\<close> never returns.\<close>

lemma create_failure_hangs:
  assumes "startLoop False (EventLoopThread_ctor n nm) = Inr s" "elt_step\<^sup>*\<^sup>* s t"
  shows "main_pc t \<in> {MCheck, MSleep}"
proof -
  let ?P = "\<lambda>s. main_pc s \<in> {MCheck, MSleep} \<and> child_pc s = CNone \<and> \<not> loop_ptr s \<and> \<not> loop_alive s"
  have init: "?P s" using assms(1) by (auto simp: startLoop_def Thread_start_def EventLoopThread_ctor_def result_simps)
  from assms(2) have "?P t"
  proof (induction rule: rtranclp_induct)
    case (step a b)
    from step.hyps(2) step.IH show ?case by cases (simp_all add: startLoop_check_def split: if_splits)
  qed (rule init)
  then show ?thesis by blast
qed

end
