(* ===== verification/NW_ProcessInfo.thy ===== *)
theory NW_ProcessInfo
  imports NW_Text "HOL-Library.Sublist"
begin

text \<open>
  The rest of \<^verbatim>\<open>networker/base\<close> that reads the system: \<open>ReadSmallFile\<close> of \<^verbatim>\<open>FileUtil.cpp\<close>,
  \<^verbatim>\<open>ProcessInfo.cpp\<close> and \<^verbatim>\<open>CurrentThread.cpp\<close> with the parts of \<^verbatim>\<open>Thread.cpp\<close> that belong to it.

  The answers of the system calls are arguments. \<open>rd p n\<close> is what \<open>read\<close> answers when it is asked
  for \<open>n\<close> bytes at offset \<open>p\<close>: an \<open>errno\<close> or bytes, of which at most \<open>n\<close> count. \<open>errno\<close> as the code
  finds it is an argument, too.
\<close>

section \<open>Small files\<close>

record ReadSmallFile =
  rf_fd :: int
  rf_err :: int
  rf_buf :: string

definition kBufferSize :: nat where "kBufferSize = 64 * 1024"

definition EISDIR :: int where "EISDIR = 21"

definition ReadSmallFile_ctor :: "int \<Rightarrow> int \<Rightarrow> ReadSmallFile" where
  "ReadSmallFile_ctor fd errno = \<lparr>rf_fd = fd, rf_err = (if fd < 0 then errno else 0), rf_buf = [CHR 0x00]\<rparr>"

function read_loop :: "(nat \<Rightarrow> nat \<Rightarrow> int + string) \<Rightarrow> nat \<Rightarrow> string \<Rightarrow> int \<Rightarrow> string \<times> int" where
  "read_loop rd maxSize content err =
     (if length content < maxSize
      then let toRead = min (maxSize - length content) kBufferSize in
           (case rd (length content) toRead of
              Inl e \<Rightarrow> (content, e)
            | Inr bs \<Rightarrow> if bs = [] then (content, err) else read_loop rd maxSize (content @ take toRead bs) err)
      else (content, err))"
  by auto

termination
  by (relation "measure (\<lambda>(rd, maxSize, content, err). maxSize - length content)")
    (auto simp: kBufferSize_def min_def neq_Nil_conv)

declare read_loop.simps [simp del]

text \<open>\<open>fstat\<close> fills the buffer with size and times, or fails and leaves it as it was.\<close>

record stat_info =
  st_size :: int
  st_mtime :: int
  st_ctime :: int
  st_isdir :: bool

record read_result =
  rr_err :: int
  rr_content :: string
  rr_stat :: "stat_info option"

definition readToString :: "int \<Rightarrow> bool \<Rightarrow> bool \<times> stat_info \<Rightarrow> int \<Rightarrow> (nat \<Rightarrow> nat \<Rightarrow> int + string) \<Rightarrow> string
    \<Rightarrow> ReadSmallFile \<Rightarrow> read_result result" where
  "readToString maxSize wantSize statbuf errno rd old f =
     (if rf_fd f < 0 then Inr \<lparr>rr_err = rf_err f, rr_content = old, rr_stat = None\<rparr>
      else
        let (ok, st) = statbuf in
        if wantSize \<and> ok \<and> min maxSize (st_size st) < 0 then Inl LengthError
        else
          let err = (if wantSize then (if \<not> ok \<and> st_isdir st then EISDIR else rf_err f) else errno);
              (content, err') = read_loop rd (to_size_t maxSize) [] err
          in Inr \<lparr>rr_err = err', rr_content = content, rr_stat = (if wantSize then Some st else None)\<rparr>)"

definition readToBuffer :: "int + string \<Rightarrow> ReadSmallFile \<Rightarrow> int \<times> nat option \<times> ReadSmallFile" where
  "readToBuffer pread f =
     (if rf_fd f < 0 then (rf_err f, None, f)
      else (case pread of
              Inl e \<Rightarrow> (e, None, f)
            | Inr bs \<Rightarrow> let bs' = take (kBufferSize - 1) bs
                        in (rf_err f, Some (length bs'), f\<lparr>rf_buf := bs' @ [CHR 0x00]\<rparr>)))"

definition readFile :: "int \<times> int \<Rightarrow> int \<Rightarrow> bool \<Rightarrow> bool \<times> stat_info \<Rightarrow> int \<Rightarrow> (nat \<Rightarrow> nat \<Rightarrow> int + string) \<Rightarrow> string \<Rightarrow> read_result result" where
  "readFile opened maxSize wantSize statbuf errno rd old =
     readToString maxSize wantSize statbuf errno rd old (ReadSmallFile_ctor (fst opened) (snd opened))"

section \<open>ProcessInfo\<close>

definition is_digit :: "char \<Rightarrow> bool" where
  "is_digit c \<longleftrightarrow> 48 \<le> (of_char c :: nat) \<and> of_char c \<le> (57 :: nat)"

text \<open>\<open>atoi\<close>: white space, a sign, digits.\<close>

definition is_space :: "char \<Rightarrow> bool" where
  "is_space c \<longleftrightarrow> c = CHR '' '' \<or> 9 \<le> (of_char c :: nat) \<and> of_char c \<le> (13 :: nat)"

definition c_atoi :: "string \<Rightarrow> int" where
  "c_atoi str =
     (let s = dropWhile is_space str;
          (sign, s') = (case s of c # r \<Rightarrow> if c = CHR ''-'' then (- 1, r) else if c = CHR ''+'' then (1, r) else (1, s) | [] \<Rightarrow> (1, []))
      in sign * int (read_nat (takeWhile is_digit s')))"

text \<open>\<open>scandir\<close> calls the filter on every name of the directory and keeps none.\<close>

definition starts_with_digit :: "string \<Rightarrow> bool" where
  "starts_with_digit nm \<longleftrightarrow> (case nm of c # _ \<Rightarrow> is_digit c | [] \<Rightarrow> False)"

definition fdDirFilter :: "string \<Rightarrow> int \<Rightarrow> int" where
  "fdDirFilter d_name numOpened = (if starts_with_digit d_name then numOpened + 1 else numOpened)"

definition openedFiles :: "string list \<Rightarrow> int" where
  "openedFiles names = fold fdDirFilter names 0"

definition taskDirFilter :: "string \<Rightarrow> int list \<Rightarrow> int list" where
  "taskDirFilter d_name pids = (if starts_with_digit d_name then pids @ [c_atoi d_name] else pids)"

definition process_threads :: "string list \<Rightarrow> int list" where
  "process_threads names = sort (fold taskDirFilter names [])"

definition pidString :: "int \<Rightarrow> string" where
  "pidString pid = c_snprintf 32 (dec_int pid)"

definition username :: "string option \<Rightarrow> string" where
  "username pw = (case pw of Some nm \<Rightarrow> nm | None \<Rightarrow> ''unknownuser'')"

text \<open>\<open>gethostname\<close> into 256 bytes, the last of which is set to NUL.\<close>

definition hostname :: "string option \<Rightarrow> string" where
  "hostname h = (case h of Some buf \<Rightarrow> takeWhile (\<lambda>c. c \<noteq> CHR 0x00) (take 255 buf) | None \<Rightarrow> ''unknownhost'')"

fun str_find :: "char \<Rightarrow> string \<Rightarrow> nat option" where
  "str_find c [] = None"
| "str_find c (x # xs) = (if x = c then Some 0 else map_option Suc (str_find c xs))"

definition str_rfind :: "char \<Rightarrow> string \<Rightarrow> nat option" where
  "str_rfind c xs = map_option (\<lambda>i. length xs - Suc i) (str_find c (rev xs))"

definition procname :: "string \<Rightarrow> string" where
  "procname stat =
     (case (str_find CHR ''('' stat, str_rfind CHR '')'' stat) of
        (Some lp, Some rp) \<Rightarrow> if lp < rp then take (rp - lp - 1) (drop (lp + 1) stat) else []
      | _ \<Rightarrow> [])"

fun str_find_sub :: "string \<Rightarrow> string \<Rightarrow> nat option" where
  "str_find_sub pat [] = (if pat = [] then Some 0 else None)"
| "str_find_sub pat (x # xs) = (if prefix pat (x # xs) then Some 0 else map_option Suc (str_find_sub pat xs))"

definition numThreads_of :: "string \<Rightarrow> int" where
  "numThreads_of status =
     (case str_find_sub ''Threads:'' status of Some pos \<Rightarrow> c_atoi (drop (pos + 8) status) | None \<Rightarrow> 0)"

text \<open>
  The files of \<^verbatim>\<open>/proc\<close>: \<open>fs\<close> says for a path what \<open>open\<close> and then \<open>read\<close> answer. The size is not
  asked for, so \<open>fstat\<close> is not called, and the error code of \<open>readFile\<close> is ignored.
\<close>

type_synonym proc_fs = "string \<Rightarrow> (int \<times> int) \<times> (nat \<Rightarrow> nat \<Rightarrow> int + string)"

definition proc_file :: "proc_fs \<Rightarrow> int \<Rightarrow> string \<Rightarrow> int \<Rightarrow> string result" where
  "proc_file fs errno path maxSize =
     (case readFile (fst (fs path)) maxSize False (False, \<lparr>st_size = 0, st_mtime = 0, st_ctime = 0, st_isdir = False\<rparr>) errno (snd (fs path)) [] of
        Inl e \<Rightarrow> Inl e
      | Inr r \<Rightarrow> Inr (rr_content r))"

definition procStatus :: "proc_fs \<Rightarrow> int \<Rightarrow> string result" where
  "procStatus fs errno = proc_file fs errno ''/proc/self/status'' 65535"

definition procStat :: "proc_fs \<Rightarrow> int \<Rightarrow> string result" where
  "procStat fs errno = proc_file fs errno ''/proc/self/stat'' 65535"

definition threadStat :: "proc_fs \<Rightarrow> int \<Rightarrow> int \<Rightarrow> string result" where
  "threadStat fs errno tid = proc_file fs errno (c_snprintf 64 (''/proc/self/task/'' @ dec_int tid @ ''/stat'')) 65536"

definition process_numThreads :: "proc_fs \<Rightarrow> int \<Rightarrow> int result" where
  "process_numThreads fs errno =
     (case procStatus fs errno of Inl e \<Rightarrow> Inl e | Inr status \<Rightarrow> Inr (numThreads_of status))"

definition exePath :: "int + string \<Rightarrow> string" where
  "exePath link = (case link of Inl e \<Rightarrow> [] | Inr buf \<Rightarrow> take 1024 buf)"

text \<open>\<open>rlim_cur\<close> is a 64-bit number cast to \<open>int\<close>: \<open>RLIM_INFINITY\<close> becomes -1.\<close>

definition maxOpenFiles :: "nat option \<Rightarrow> string list \<Rightarrow> int" where
  "maxOpenFiles rlim names = (case rlim of Some cur \<Rightarrow> to_int32 cur | None \<Rightarrow> openedFiles names)"

text \<open>The macro tested is misspelt, so the answer is the same in every build.\<close>

definition isDebugBuild :: bool where "isDebugBuild = True"

section \<open>CurrentThread\<close>

record thread_locals =
  t_cachedTid :: int
  t_tidString :: string
  t_tidStringLength :: int

definition thread_locals_init :: thread_locals where
  "thread_locals_init = \<lparr>t_cachedTid = 0, t_tidString = [], t_tidStringLength = 6\<rparr>"

definition cacheTid :: "int \<Rightarrow> thread_locals \<Rightarrow> thread_locals" where
  "cacheTid gettid tls =
     (if t_cachedTid tls = 0
      then let txt = replicate (5 - length (dec_int gettid)) CHR '' '' @ dec_int gettid
           in \<lparr>t_cachedTid = gettid, t_tidString = c_snprintf 32 txt, t_tidStringLength = int (length txt)\<rparr>
      else tls)"

definition current_tid :: "int \<Rightarrow> thread_locals \<Rightarrow> int \<times> thread_locals" where
  "current_tid gettid tls =
     (let tls' = (if t_cachedTid tls = 0 then cacheTid gettid tls else tls) in (t_cachedTid tls', tls'))"

definition sleepUsec :: "int \<Rightarrow> int \<times> int" where
  "sleepUsec usec = (c_div usec 1000000, c_mod usec 1000000 * 1000)"

text \<open>
  One frame of \<open>stackTrace\<close>: the last parenthesis and the last plus of the symbol delimit the
  mangled name. \<open>dem\<close> is the demangler, which sees the text up to the plus.
\<close>

definition frame_text :: "bool \<Rightarrow> (string \<Rightarrow> string option) \<Rightarrow> string \<Rightarrow> string" where
  "frame_text demangle dem frame =
     (case (if demangle then (str_rfind CHR ''('' frame, str_rfind CHR ''+'' frame) else (None, None)) of
        (Some left_par, Some plus_at) \<Rightarrow>
          (case dem (drop (left_par + 1) (if left_par < plus_at then take plus_at frame else frame)) of
             Some nm \<Rightarrow> take (left_par + 1) frame @ nm @ drop plus_at frame @ [CHR 0x0A]
           | None \<Rightarrow> frame @ [CHR 0x0A])
      | _ \<Rightarrow> frame @ [CHR 0x0A])"

definition stackTrace :: "bool \<Rightarrow> (string \<Rightarrow> string option) \<Rightarrow> string list option \<Rightarrow> string" where
  "stackTrace demangle dem strings =
     (case strings of None \<Rightarrow> [] | Some frames \<Rightarrow> concat (map (frame_text demangle dem) (drop 1 frames)))"

section \<open>Reading a file\<close>

text \<open>A file with short reads: a read before its end yields some of the bytes there, at its end none.\<close>

definition file_reads :: "string \<Rightarrow> (nat \<Rightarrow> nat \<Rightarrow> int + string) \<Rightarrow> bool" where
  "file_reads data rd \<longleftrightarrow> (\<forall>p n. 0 < n \<longrightarrow>
     (if p < length data then \<exists>m. 0 < m \<and> m \<le> n \<and> rd p n = Inr (take m (drop p data)) else rd p n = Inr []))"

lemma read_loop_file:
  assumes "file_reads data rd"
  shows "content = take (length content) data \<Longrightarrow> length content \<le> maxSize \<Longrightarrow>
    read_loop rd maxSize content err = (take maxSize data, err)"
proof (induction "maxSize - length content" arbitrary: content rule: less_induct)
  case less
  let ?p = "length content" and ?n = "min (maxSize - length content) kBufferSize"
  have n: "0 < ?n \<longleftrightarrow> ?p < maxSize" by (auto simp: kBufferSize_def)
  have read: "0 < ?n \<longrightarrow> (if ?p < length data then \<exists>m. 0 < m \<and> m \<le> ?n \<and> rd ?p ?n = Inr (take m (drop ?p data)) else rd ?p ?n = Inr [])"
    using assms unfolding file_reads_def by blast
  consider "\<not> ?p < maxSize" | "?p < maxSize" "\<not> ?p < length data" | "?p < maxSize" "?p < length data" by blast
  then show ?case
  proof cases
    case 1
    with less.prems show ?thesis by (subst read_loop.simps) simp
  next
    case 2
    then have "rd ?p ?n = Inr []" using read n by simp
    moreover from 2 less.prems(1) have "content = data" by simp
    ultimately show ?thesis using 2 by (subst read_loop.simps) (simp add: Let_def)
  next
    case 3
    then obtain m where m: "0 < m" "m \<le> ?n" "rd ?p ?n = Inr (take m (drop ?p data))"
      using read n by auto
    let ?c = "content @ take m (drop ?p data)"
    have len: "length ?c = ?p + min m (length data - ?p)" by simp
    have c: "?c = take (length ?c) data"
    proof -
      have "take (length ?c) data = take ?p data @ take (min m (length data - ?p)) (drop ?p data)"
        by (simp only: len take_add)
      also have "take (min m (length data - ?p)) (drop ?p data) = take m (drop ?p data)" by (simp add: min_def)
      finally show ?thesis using less.prems(1) by simp
    qed
    have step: "read_loop rd maxSize content err = read_loop rd maxSize ?c err"
      using 3 m by (subst read_loop.simps) (auto simp: Let_def)
    show ?thesis
      unfolding step by (rule less.hyps [OF _ c]) (use 3 m len in auto)
  qed
qed

section \<open>Properties\<close>

text \<open>
  \<open>readToString\<close> ends and reads the file: however short the single reads are, the content is the
  first \<open>maxSize\<close> bytes of the file. If the caller asks for the size, the result is 0; if not, it is
  whatever \<open>errno\<close> was before, although nothing failed.
\<close>

lemma read_small_file:
  assumes "file_reads data rd" "0 \<le> fd" "0 \<le> maxSize" "maxSize < 2 ^ 31" "0 \<le> st_size st"
  shows "readFile (fd, e) maxSize True (True, st) errno rd old =
      Inr \<lparr>rr_err = 0, rr_content = take (nat maxSize) data, rr_stat = Some st\<rparr> \<and>
    readFile (fd, e) maxSize False (True, st) errno rd old =
      Inr \<lparr>rr_err = errno, rr_content = take (nat maxSize) data, rr_stat = None\<rparr>"
proof -
  have sz: "to_size_t maxSize = nat maxSize" using assms(3,4) by (simp add: to_size_t_def)
  have "read_loop rd (nat maxSize) [] err = (take (nat maxSize) data, err)" for err
    by (rule read_loop_file [OF assms(1)]) simp_all
  with assms(2,3,5) sz show ?thesis
    by (simp add: readFile_def readToString_def ReadSmallFile_ctor_def Let_def)
qed

lemma read_small_file_witness:
  "\<exists>rd. file_reads ''abc'' rd \<and> readFile (3, 0) 65535 True (True, \<lparr>st_size = 3, st_mtime = 0, st_ctime = 0, st_isdir = False\<rparr>) 0 rd [] =
     Inr \<lparr>rr_err = 0, rr_content = ''abc'', rr_stat = Some \<lparr>st_size = 3, st_mtime = 0, st_ctime = 0, st_isdir = False\<rparr>\<rparr>"
proof -
  let ?rd = "\<lambda>p n. Inr (take 1 (drop p ''abc''))" and ?st = "\<lparr>st_size = 3, st_mtime = 0, st_ctime = 0, st_isdir = False\<rparr>"
  have "file_reads ''abc'' ?rd"
    unfolding file_reads_def by (auto intro!: exI [of _ 1])
  then show ?thesis using read_small_file [of "''abc''" ?rd 3 65535 ?st 0 0 "[]"] by (intro exI [of _ ?rd]) simp
qed

lemma str_find_first: "c \<notin> set xs \<Longrightarrow> str_find c (xs @ c # ys) = Some (length xs)"
  by (induction xs) auto

lemma str_rfind_last: "c \<notin> set ys \<Longrightarrow> str_rfind c (xs @ c # ys) = Some (length xs)"
  using str_find_first [of c "rev ys" "rev xs"] by (simp add: str_rfind_def)

lemma dec_int_chars: "set (dec_int i) \<subseteq> insert CHR ''-'' (digit_char ` {..<10})"
  using dec_digits by (auto simp: dec_int_def)

lemma digit_chars: "\<forall>d < 10. is_digit (digit_char d) \<and> \<not> is_space (digit_char d) \<and> digit_char d \<noteq> CHR ''-'' \<and>
    digit_char d \<noteq> CHR ''+'' \<and> digit_char d \<noteq> CHR ''(''"
proof -
  have "\<forall>d \<in> set [0 ..< 10]. is_digit (digit_char d) \<and> \<not> is_space (digit_char d) \<and> digit_char d \<noteq> CHR ''-'' \<and>
    digit_char d \<noteq> CHR ''+'' \<and> digit_char d \<noteq> CHR ''(''" by code_simp
  then show ?thesis by auto
qed

text \<open>\<open>procname\<close> finds the name in a stat line of the kernel, parentheses in the name included.\<close>

lemma procname_roundtrip:
  assumes "CHR '')'' \<notin> set rest"
  shows "procname (dec_int pid @ '' ('' @ nm @ '')'' @ rest) = nm"
proof -
  let ?stat = "dec_int pid @ '' ('' @ nm @ '')'' @ rest"
  have "CHR ''('' \<notin> insert CHR ''-'' (digit_char ` {..<10})" using digit_chars by auto
  then have "CHR ''('' \<notin> set (dec_int pid)" using dec_int_chars [of pid] by blast
  then have lp: "str_find CHR ''('' ?stat = Some (length (dec_int pid) + 1)"
    using str_find_first [of "CHR ''(''" "dec_int pid @ '' ''" "nm @ '')'' @ rest"] by simp
  have rp: "str_rfind CHR '')'' ?stat = Some (length (dec_int pid) + 2 + length nm)"
    using str_rfind_last [OF assms, of "dec_int pid @ '' ('' @ nm"] by simp
  show ?thesis by (simp add: procname_def lp [simplified] rp [simplified])
qed

text \<open>\<open>atoi\<close> reads back a printed number, after white space and before anything that is not a digit.\<close>

lemma takeWhile_all_append: "\<forall>x \<in> set xs. P x \<Longrightarrow> ys = [] \<or> \<not> P (hd ys) \<Longrightarrow> takeWhile P (xs @ ys) = xs"
  by (induction xs) (cases ys, auto)+

lemma dropWhile_all_append: "\<forall>x \<in> set xs. P x \<Longrightarrow> ys \<noteq> [] \<Longrightarrow> \<not> P (hd ys) \<Longrightarrow> dropWhile P (xs @ ys) = ys"
  by (induction xs) (cases ys, auto)+

lemma c_atoi_dec:
  assumes "\<forall>c \<in> set ws. is_space c" "rest = [] \<or> \<not> is_digit (hd rest)"
  shows "c_atoi (ws @ dec n @ rest) = int n"
proof -
  obtain c cs where dec: "dec n = c # cs" using dec_nonempty(1) [of n] unfolding neq_Nil_conv by blast
  have "set (dec n) \<subseteq> digit_char ` {..<10}" by (rule dec_digits)
  then have c: "\<forall>x \<in> set (dec n). is_digit x" "is_digit c" "\<not> is_space c" "c \<noteq> CHR ''-''" "c \<noteq> CHR ''+''"
    using digit_chars dec by auto
  have "dropWhile is_space (ws @ dec n @ rest) = dec n @ rest"
    using dropWhile_all_append [OF assms(1), of "dec n @ rest"] c(3) dec by simp
  moreover have "takeWhile is_digit (dec n @ rest) = dec n" using takeWhile_all_append [OF c(1) assms(2)] .
  ultimately show ?thesis using c(4,5) dec read_nat_dec [of n] by (simp add: c_atoi_def)
qed

lemma str_find_sub_first:
  assumes "pat \<noteq> []" "\<And>i. i < length pre \<Longrightarrow> \<not> prefix pat (drop i (pre @ pat @ post))"
  shows "str_find_sub pat (pre @ pat @ post) = Some (length pre)"
  using assms
proof (induction pre)
  case Nil
  then show ?case by (cases pat) auto
next
  case (Cons x pre)
  have "\<not> prefix pat (drop i (pre @ pat @ post))" if "i < length pre" for i
    using Cons.prems(2) [of "Suc i"] that by simp
  moreover have "\<not> prefix pat (x # pre @ pat @ post)" using Cons.prems(2) [of 0] by simp
  ultimately show ?case using Cons.IH Cons.prems(1) by simp
qed

text \<open>\<open>numThreads\<close> reads the number in the first line of the status that contains the keyword.\<close>

lemma numThreads_of_status:
  assumes "\<And>i. i < length pre \<Longrightarrow> \<not> prefix ''Threads:'' (drop i (pre @ ''Threads:'' @ CHR 0x09 # dec n @ CHR 0x0A # post))"
  shows "numThreads_of (pre @ ''Threads:'' @ CHR 0x09 # dec n @ CHR 0x0A # post) = int n"
proof -
  have "str_find_sub ''Threads:'' (pre @ ''Threads:'' @ CHR 0x09 # dec n @ CHR 0x0A # post) = Some (length pre)"
    by (rule str_find_sub_first) (use assms in simp_all)
  moreover have "c_atoi ([CHR 0x09] @ dec n @ CHR 0x0A # post) = int n"
    by (rule c_atoi_dec) (simp_all add: is_space_def is_digit_def)
  ultimately show ?thesis by (simp add: numThreads_of_def)
qed

lemma proc_file_reads:
  assumes "fs path = ((fd, e), rd)" "0 \<le> fd" "file_reads data rd" "0 \<le> maxSize" "maxSize < 2 ^ 31"
  shows "proc_file fs errno path maxSize = Inr (take (nat maxSize) data)"
proof -
  have "to_size_t maxSize = nat maxSize" using assms(4,5) by (simp add: to_size_t_def)
  moreover have "read_loop rd (nat maxSize) [] errno = (take (nat maxSize) data, errno)"
    by (rule read_loop_file [OF assms(3)]) simp_all
  ultimately show ?thesis
    using assms(1,2) by (simp add: proc_file_def readFile_def readToString_def ReadSmallFile_ctor_def Let_def)
qed

text \<open>Read in pieces of any length, the status file of \<^verbatim>\<open>/proc\<close> tells the number of threads.\<close>

lemma numThreads_roundtrip:
  assumes "fs ''/proc/self/status'' = ((fd, e), rd)" "0 \<le> fd" "file_reads (pre @ ''Threads:'' @ CHR 0x09 # dec n @ CHR 0x0A # post) rd"
    and "\<And>i. i < length pre \<Longrightarrow> \<not> prefix ''Threads:'' (drop i (pre @ ''Threads:'' @ CHR 0x09 # dec n @ CHR 0x0A # post))"
    and "length (pre @ ''Threads:'' @ CHR 0x09 # dec n @ CHR 0x0A # post) \<le> 65535"
  shows "process_numThreads fs errno = Inr (int n)"
proof -
  have "procStatus fs errno = Inr (pre @ ''Threads:'' @ CHR 0x09 # dec n @ CHR 0x0A # post)"
    using proc_file_reads [of fs "''/proc/self/status''", OF assms(1-3), of 65535 errno] assms(5)
    by (simp add: procStatus_def)
  with numThreads_of_status [OF assms(4)] show ?thesis by (simp add: process_numThreads_def)
qed

text \<open>\<open>threads\<close> lists the numeric names of the directory in ascending order.\<close>

lemma process_threads_sorted:
  "sorted (process_threads names) \<and> set (process_threads names) = c_atoi ` {nm \<in> set names. starts_with_digit nm} \<and>
   openedFiles names = int (length (filter starts_with_digit names))"
proof -
  have "fold taskDirFilter names acc = acc @ map c_atoi (filter starts_with_digit names)" for acc
    by (induction names arbitrary: acc) (simp_all add: taskDirFilter_def)
  moreover have "fold fdDirFilter names k = k + int (length (filter starts_with_digit names))" for k
    by (induction names arbitrary: k) (simp_all add: fdDirFilter_def)
  ultimately show ?thesis by (simp add: process_threads_def openedFiles_def)
qed

text \<open>The thread id is cached: later calls return it without asking the kernel, and its text has the stated length.\<close>

lemma current_tid_cached:
  assumes "0 < tid" "tid < 2 ^ 31"
  defines "tls \<equiv> snd (current_tid tid thread_locals_init)"
  shows "fst (current_tid other tls) = tid \<and> snd (current_tid other tls) = tls \<and>
    t_tidStringLength tls = int (length (t_tidString tls))"
proof -
  have "\<bar>tid\<bar> < 10 ^ Suc 9" using assms by simp
  from dec_int_length [OF this] assms(1) have "length (dec_int tid) \<le> 10" by simp
  with assms(1) show ?thesis
    by (simp add: tls_def current_tid_def cacheTid_def thread_locals_init_def c_snprintf_def Let_def)
qed

end
