(* ===== verification/Spec2Isabelle.thy ===== *)
theory Spec2Isabelle
  imports NW_Reactor NW_EventLoop NW_Echo NW_TcpClient NW_LogPipeline NW_Logging NW_Thread NW_ProcessInfo
begin

text \<open>
  NetWorker, a TCP library in the style of muduo, as a HOL library.

  \<^bold>\<open>The program.\<close> NetWorker is a C++17 library for network servers and clients: one event loop per
  thread, non-blocking sockets, callbacks. An \<open>EventLoop\<close> asks its \<open>Poller\<close> (epoll or poll) which
  descriptors are ready, lets the \<open>Channel\<close> of each run its callbacks, and then runs the functors
  that other threads queued; an eventfd wakes it up, and a \<open>TimerQueue\<close> over a timerfd runs timers.
  On top of it a \<open>TcpConnection\<close> moves bytes between a socket and two \<open>Buffer\<close>s, an \<open>Acceptor\<close> and
  a \<open>TcpServer\<close> make connections and spread them over the loops of an \<open>EventLoopThreadPool\<close>, and a
  \<open>Connector\<close> and a \<open>TcpClient\<close> open connections with back-off. Beside it stands the base library:
  threads, mutexes and a latch, dates and time zones, and a logging system with an asynchronous,
  rolling log file.

  \<^bold>\<open>How the code is modelled.\<close> A class is a record of its members, an enum a datatype, an operation
  a function on the record; the names are those of the code, with a prefix or suffix where HOL or
  another class has the name already. The build is the debug build: a failing \<open>assert\<close> is the value
  \<open>Inl AssertFailed\<close>, and undefined behaviour, exceptions and fatal log lines are further values of
  \<open>error\<close> (\<^verbatim>\<open>NW_Prelude\<close>), so that the absence of each is a theorem. Sizes are natural numbers with
  the wrap-around of \<open>size_t\<close> written out, event masks and network integers are words, and pointers
  into a buffer are offsets with their bounds checked. Answers of the kernel and of the C library
  are arguments; what the code relies on is a named hypothesis or a locale. Code that several
  threads run is a step relation, one step per access to shared state or per critical section.
  Fields called a history in the theories record what happened and influence nothing.

  \<^bold>\<open>Theories.\<close> Paths are below \<^verbatim>\<open>src/networker\<close>.

  \<^item> \<^verbatim>\<open>NW_Prelude\<close>: results, machine integers, ordered sets, the locale \<open>transition_system\<close>.
    \<^verbatim>\<open>NW_Text\<close>: numbers as text and \<open>snprintf\<close>.
  \<^item> \<^verbatim>\<open>NW_StringPiece\<close> (\<^verbatim>\<open>base/StringPiece.h\<close>): all operators; they are the lexicographic order on bytes.
  \<^item> \<^verbatim>\<open>NW_Buffer\<close> (\<^verbatim>\<open>net/Buffer.h\<close>, \<^verbatim>\<open>net/Buffer.cpp\<close>, \<^verbatim>\<open>net/Endian.h\<close>): every operation implements its
    specification on the queue of readable bytes, also where it fails; the locale \<open>fifo_buffer\<close> is
    what a connection needs of it.
  \<^item> \<^verbatim>\<open>NW_Channel\<close> (\<^verbatim>\<open>net/Channel.h\<close>, \<^verbatim>\<open>net/Channel.cpp\<close>): masks and the order of the callbacks.
  \<^item> \<^verbatim>\<open>NW_Poller\<close> (\<^verbatim>\<open>net/Poller.h\<close>, \<^verbatim>\<open>net/poller\<close>): both pollers provide the locale \<open>poller\<close>, the one
    over epoll for every kernel that keeps the locale \<open>epoll_kernel\<close>, the documentation of
    \<open>epoll_ctl\<close>.
  \<^item> \<^verbatim>\<open>NW_Reactor\<close> (\<^verbatim>\<open>net/EventLoop.cpp\<close>, \<open>Channel::update\<close>, \<open>Channel::remove\<close>): the loop with its
    poller and channels. \<open>reg_step\<close> is the abstract automaton of a registration, \<open>spec_legal\<close> the
    protocol of the callbacks; a round refines them, an operation outside the protocol fails an
    assertion, and construction and destruction are included.
  \<^item> \<^verbatim>\<open>NW_TimerQueue\<close> (\<^verbatim>\<open>net/TimerQueue.cpp\<close>, \<^verbatim>\<open>net/Timer.h\<close>, \<^verbatim>\<open>base/Timestamp.h\<close>): timers on an explicit
    heap, so that a dangling pointer would show; cancelling from within callbacks included.
  \<^item> \<^verbatim>\<open>NW_EventLoop\<close> (\<^verbatim>\<open>net/EventLoop.cpp\<close>): the loop thread interleaved with threads that queue
    functors or quit; no wake-up is lost, functors run once and in order.
  \<^item> \<^verbatim>\<open>NW_TcpConnection\<close> (\<^verbatim>\<open>net/TcpConnection.cpp\<close>): all events and user calls of a connection, with
    callbacks that see its state and call back into it; the stream is neither lost, nor duplicated,
    nor reordered, and pending output drains. With it, \<^verbatim>\<open>base/WeakCallback.h\<close>.
  \<^item> \<^verbatim>\<open>NW_Sockets\<close> (\<^verbatim>\<open>net/SocketsOps.cpp\<close>, \<^verbatim>\<open>net/Socket.cpp\<close>, \<^verbatim>\<open>net/InetAddress.cpp\<close>): addresses, socket
    options, \<open>accept\<close> with its handling of \<open>errno\<close>, the text of \<open>tcp_info\<close>.
  \<^item> \<^verbatim>\<open>NW_TcpServer\<close> (\<^verbatim>\<open>net/Acceptor.cpp\<close>, \<^verbatim>\<open>net/EventLoopThreadPool.cpp\<close>, \<^verbatim>\<open>net/TcpServer.cpp\<close>): accepting
    and removing connections over several loops, as a step relation.
  \<^item> \<^verbatim>\<open>NW_ServerSystem\<close>: a server with its live connections; what each assumes of the other holds.
  \<^item> \<^verbatim>\<open>NW_Echo\<close> (\<^verbatim>\<open>../test/src/echo.cpp\<close>): an application on that system; the locale \<open>conn_app\<close> lifts what
    the callbacks keep of one connection to a running server.
  \<^item> \<^verbatim>\<open>NW_Connector\<close> and \<^verbatim>\<open>NW_TcpClient\<close> (\<^verbatim>\<open>net/Connector.cpp\<close>, \<^verbatim>\<open>net/TcpClient.cpp\<close>): retries and back-off,
    and the client that composes a connector with a connection.
  \<^item> \<^verbatim>\<open>NW_Sync\<close> (\<^verbatim>\<open>base/Atomic.h\<close>, \<^verbatim>\<open>base/MutexLock.h\<close>, \<^verbatim>\<open>base/Condition.h\<close>, \<^verbatim>\<open>base/CountDownLatch.cpp\<close>):
    the latch with any number of threads. \<^verbatim>\<open>NW_Thread\<close> (\<^verbatim>\<open>base/Thread.cpp\<close>, \<^verbatim>\<open>net/EventLoopThread.cpp\<close>):
    starting a thread and a loop in it, and its destruction.
  \<^item> \<^verbatim>\<open>NW_LogStream\<close>, \<^verbatim>\<open>NW_Logging\<close>, \<^verbatim>\<open>NW_AsyncLogging\<close>, \<^verbatim>\<open>NW_LogFile\<close> (files of the same names in \<^verbatim>\<open>base\<close>, with
    \<open>AppendFile\<close> of \<^verbatim>\<open>base/FileUtil.cpp\<close> and the texts of \<^verbatim>\<open>base/Timestamp.cpp\<close>): from the stream operators to
    the lines in the rolled files. \<^verbatim>\<open>NW_LogPipeline\<close>: the asynchronous log running on its file.
  \<^item> \<^verbatim>\<open>NW_Date\<close>, \<^verbatim>\<open>NW_TimeZone\<close> (files of the same names in \<^verbatim>\<open>base\<close>): the Gregorian calendar, UTC and local
    time, the reader of zone files.
  \<^item> \<^verbatim>\<open>NW_ProcessInfo\<close> (\<^verbatim>\<open>base/ProcessInfo.cpp\<close>, \<^verbatim>\<open>base/CurrentThread.cpp\<close>, \<open>ReadSmallFile\<close> of
    \<^verbatim>\<open>base/FileUtil.cpp\<close>): small files, the parsers of \<^verbatim>\<open>/proc\<close>, the cached thread id.
  \<^item> This theory: the composition of a connection with its poller.

  \<^bold>\<open>How the parts meet.\<close> A connection, a server and a client use the facts of \<open>Buffer\<close> and \<open>Channel\<close>
  directly; the record of a connection keeps the list of masks its channel asked for (\<open>masks\<close>), and
  property C1 below replays it on \<open>EPollPoller\<close>. The reactor contains the model of the poller, the
  client that of the connector and that of a connection's life, \<^verbatim>\<open>NW_Thread\<close> that of the event loop,
  \<^verbatim>\<open>NW_Logging\<close> those of the stream and of the time conversions. \<^verbatim>\<open>NW_ServerSystem\<close> runs \<open>TcpServer\<close> and
  any number of \<open>TcpConnection\<close>s together, functors and callbacks in any order, and \<^verbatim>\<open>NW_LogPipeline\<close>
  the calls of \<open>AsyncLogging\<close> on a \<open>LogFile\<close>, while other threads log.

  \<^bold>\<open>What is proved.\<close> Properties are numbered C1 to C40 in the texts before them. Safety: in every
  reachable state of connection, server with its connections, timer queue, connector, client,
  asynchronous log and thread start no assertion fails and no access is out of bounds (C3, C4, C10,
  C23, C25, C26, C36, C39). Refinement: buffer, pollers, reactor, functor queue, stream, log file and
  log pipeline implement abstract specifications, and the echo server echoes (C1, C5, C8, C12, C14,
  C18, C29, C35, C37). Round trips: byte order, digit loops, calendar, zone files (C17, C30, C31, C34).
  Termination and liveness: the loops of the code are total functions, pending output drains, and
  threads that wait are woken (C19, C28, C38, C39). Where the code does not do what it means to, the
  theorem states what it does (C5, C15, C20, C21, C27, C32 and the lemmas around them): for example, a
  timer that is due first does not re-arm the timerfd.

  \<^bold>\<open>Bounds.\<close> No definition uses fuel. Loops whose recursion is not structural (\<open>read_loop\<close>, the
  digit loops, the search in the transitions of a zone, the loop of \<open>AppendFile::append\<close>) have
  termination proofs. Hypotheses bound what the code takes for granted: sizes below
  \<open>vector_max_size\<close>, times in the range of the types, lines that fit the buffer of a log record.
  Counters of 64 bits that grow by one (\<open>iteration_\<close>, sequence numbers) are unbounded numbers.

  \<^bold>\<open>Not modelled.\<close>
  \<^item> \<^verbatim>\<open>net/Callbacks.h\<close>, \<^verbatim>\<open>base/Types.h\<close>, \<^verbatim>\<open>base/noncopyable.h\<close>: type aliases and casts; what their users
    do with them is modelled there. Accessors that only hand out a member are its selectors.
  \<^item> \<^verbatim>\<open>base/Exception.cpp\<close>: a message with a stack trace.
  \<^item> Wrappers that only pass a system call through, in \<^verbatim>\<open>net/SocketsOps.cpp\<close> and \<^verbatim>\<open>base/ProcessInfo.cpp\<close>,
    and processor times, which are floating-point numbers. Intervals of timers are numbers of
    microseconds with the sign the code tests.
  \<^item> The stored contexts (\<open>std::any\<close>), which the library hands back and never looks at.
  \<^item> \<open>main\<close> of the echo server and its set-up of the log, which only call what is modelled.
  \<^item> Reference counts: that a \<open>shared_ptr\<close> keeps a connection alive is built into the model of its
    life, with the tie of a channel as an argument of its dispatch.
  \<^item> Memory models weaker than interleaving: flags the code reads without a lock are read and
    written atomically.
\<close>

section \<open>A connection and its poller\<close>

text \<open>
  Property C1. The channel updates of a connection are a legal life cycle for the poller: replaying
  those of any reachable connection on an \<open>EPollPoller\<close> that does not know the channel never
  fails. While the connection is up the kernel watches exactly the mask of its channel; after it
  closed, the channel can be removed and the kernel watches what it watched before.
\<close>

theorem connection_registers_cleanly:
  assumes "user_ok user" and "tcp_init s0" and "(tcp_step user)\<^sup>*\<^sup>* s0 s" and "state s \<noteq> StateE.kConnecting"
    and "epoll_kernel ectl interest" and "ep_inv interest e" and "ep_fresh e c"
  shows "\<exists>e1. rfold (\<lambda>ev. ep_set_events ectl ev c) (masks s) e = Inr e1 \<and> ep_inv interest e1 \<and>
    (active s \<longrightarrow> interest (ep_kern e1) = (interest (ep_kern e))(fd (ep_chans e c) \<mapsto> (events (channel s), c))) \<and>
    (state s = StateE.kDisconnected \<longrightarrow> (\<exists>e2. ep_remove ectl c e1 = Inr e2 \<and>
      interest (ep_kern e2) = interest (ep_kern e) \<and> ep_fresh e2 c))"
proof -
  have chan: "tcp_chan s" using conn_reach [OF assms(1-3)] by (simp add: tcp_inv_def)
  have up: "\<exists>e1 e2 e3. rfold (\<lambda>ev. ep_set_events ectl ev c) ms e = Inr e1 \<and> ep_inv interest e1 \<and>
      ep_view e1 = (ep_view e)(fd (ep_chans e c) \<mapsto> (last ms, c)) \<and> ep_set_events ectl 0 c e1 = Inr e2 \<and>
      ep_inv interest e2 \<and> ep_remove ectl c e2 = Inr e3 \<and> ep_inv interest e3 \<and> ep_view e3 = ep_view e"
    if "ms \<noteq> []" "0 \<notin> set ms" for ms
    using epoll_kernel.ep_lifecycle [OF assms(5-7), of ms] that by (metis (no_types, lifting))
  show ?thesis
  proof (cases "active s")
    case True
    then have "masks s \<noteq> []" "0 \<notin> set (masks s)" "last (masks s) = events (channel s)" "state s \<noteq> StateE.kDisconnected"
      using chan tcp_chan_active [OF True] by (auto simp: active_def)
    with up [of "masks s"] assms(6) show ?thesis
      by (auto simp: ep_inv_def simp del: fun_upd_apply)
  next
    case False
    with assms(4) have st: "state s = StateE.kDisconnected" by (cases "state s") (simp_all add: active_def)
    with chan tcp_chan_disconnected [OF st] obtain ms where ms: "masks s = ms @ [0]" "ms \<noteq> []" "0 \<notin> set ms" by auto
    from up [OF ms(2,3)] obtain e1 e2 e3
      where e: "rfold (\<lambda>ev. ep_set_events ectl ev c) ms e = Inr e1" "ep_set_events ectl 0 c e1 = Inr e2"
        "ep_inv interest e2" "ep_remove ectl c e2 = Inr e3" "ep_inv interest e3" "ep_view e3 = ep_view e" by blast
    have "ep_fresh e3 c" using e(3,4) ep_remove_fresh by (auto simp: ep_inv_def)
    then have "interest (ep_kern e3) = interest (ep_kern e)" "ep_fresh e3 c"
      using e(5,6) assms(6) by (auto simp: ep_inv_def)
    moreover have "rfold (\<lambda>ev. ep_set_events ectl ev c) (masks s) e = Inr e2"
      using e(1,2) by (simp add: ms(1) rfold_append)
    ultimately show ?thesis using e(3,4) False by blast
  qed
qed

theorem connection_registers_cleanly_witness:
  "\<exists>s e1. state s = StateE.kConnected \<and> rfold (\<lambda>ev. ep_set_events ref_epoll_ctl ev 5) (masks s) ep_empty = Inr e1 \<and>
     ep_kern e1 = (ep_kern ep_empty)(fd (ep_chans ep_empty 5) \<mapsto> (events (channel s), 5))"
proof -
  obtain s0 s where s: "tcp_init s0" "(tcp_step demo_conn_user)\<^sup>*\<^sup>* s0 s" "state s = StateE.kConnected" using up_conn by blast
  then have "state s \<noteq> StateE.kConnecting" "active s" by (simp_all add: active_def)
  with connection_registers_cleanly [OF demo_conn.user_ok s(1,2) this(1) ref_kernel.epoll_kernel_axioms,
      of ep_empty 5] ep_empty_inv s(3) show ?thesis by blast
qed

end
